(* ===== verification/Prelude.thy ===== *)
theory Prelude
  imports Complex_Main "HOL-Library.Word"
begin

text \<open>
  Shared vocabulary of the development: the machine types of the C sources, the result type
  of code that may abort the process, the byte-order helpers used by the wire format, and the
  generic facts on lists, byte strings and words that the component theories use.

  Conventions:
  \<^item> \<^verbatim>\<open>uintN_t\<close> is \<open>N word\<close>, so arithmetic wraps as in C.
  \<^item> A C \<^verbatim>\<open>double\<close> (times, round-trip estimates, weights) is an exact rational: the code only
  uses \<open>+\<close>, \<open>-\<close>, \<open>*\<close>, \<open>/\<close>, \<open>fabs\<close> and comparisons on it; rounding is not modelled.
  \<^item> The machine is little-endian and 64-bit, with the bit-field layout of GCC on such machines.
\<close>

type_synonym u8 = "8 word"
type_synonym u16 = "16 word"
type_synonym u32 = "32 word"
type_synonym u64 = "64 word"
type_synonym bytes = "u8 list"
type_synonym double = rat

named_theorems wire_simps \<open>reading and writing fixed-width integers as bytes\<close>
named_theorems frame \<open>fields an operation leaves alone\<close>

section \<open>Results of code that may abort\<close>

text \<open>
  \<open>Fatal\<close> is a call of \<open>fatal\<close>, \<open>fatalx\<close>, \<open>err\<close> or \<open>errx\<close> (the process exits with a message), \<open>Fault\<close> a memory error or
  undefined behaviour of C; both end the run.
\<close>

datatype fault = OutOfBounds | NullDeref | Undefined

datatype 'a outcome = Ok 'a | Fatal string | Fault fault

fun obind :: "'a outcome \<Rightarrow> ('a \<Rightarrow> 'b outcome) \<Rightarrow> 'b outcome" where
  "obind (Ok x) f = f x"
| "obind (Fatal m) f = Fatal m"
| "obind (Fault e) f = Fault e"

lemma obind_eq_Ok_iff: "obind m f = Ok y \<longleftrightarrow> (\<exists>x. m = Ok x \<and> f x = Ok y)"
  by (cases m) auto

lemma obind_OkE:
  assumes "obind m f = Ok y"
  obtains x where "m = Ok x" and "f x = Ok y"
  using assms by (auto simp: obind_eq_Ok_iff)

lemma obind_assoc: "obind (obind m f) g = obind m (\<lambda>x. obind (f x) g)"
  by (cases m) auto

lemma obind_cong [fundef_cong]:
  "m = m' \<Longrightarrow> (\<And>x. m' = Ok x \<Longrightarrow> f x = f' x) \<Longrightarrow> obind m f = obind m' f'"
  by (cases m') auto

text \<open>A loop over a list whose body may abort.\<close>

primrec ofold :: "('s \<Rightarrow> 'a \<Rightarrow> 's outcome) \<Rightarrow> 's \<Rightarrow> 'a list \<Rightarrow> 's outcome" where
  "ofold f s [] = Ok s"
| "ofold f s (x # xs) = obind (f s x) (\<lambda>s'. ofold f s' xs)"

lemma ofold_append: "ofold f s (xs @ ys) = obind (ofold f s xs) (\<lambda>s'. ofold f s' ys)"
  by (induction xs arbitrary: s) (auto simp: obind_assoc)

lemma ofold_invariant:
  assumes "ofold f s xs = Ok s'" and "P s"
    and "\<And>s x s'. x \<in> set xs \<Longrightarrow> P s \<Longrightarrow> f s x = Ok s' \<Longrightarrow> P s'"
  shows "P s'"
  using assms by (induction xs arbitrary: s) (auto simp: obind_eq_Ok_iff)

text \<open>An access to an array of known size; outside of it C's behaviour is undefined.\<close>

definition mem_rd :: "'a list \<Rightarrow> nat \<Rightarrow> 'a outcome" where
  "mem_rd xs i = (if i < length xs then Ok (xs ! i) else Fault OutOfBounds)"

definition mem_wr :: "'a list \<Rightarrow> nat \<Rightarrow> 'a \<Rightarrow> 'a list outcome" where
  "mem_wr xs i v = (if i < length xs then Ok (xs[i := v]) else Fault OutOfBounds)"

lemma mem_rd_in [simp]: "i < length xs \<Longrightarrow> mem_rd xs i = Ok (xs ! i)"
  by (simp add: mem_rd_def)

lemma mem_wr_in [simp]: "i < length xs \<Longrightarrow> mem_wr xs i v = Ok (xs[i := v])"
  by (simp add: mem_wr_def)

section \<open>Lists\<close>

text \<open>\<open>patch xs i ys\<close>: the memory \<open>xs\<close> after \<open>ys\<close> was copied to offset \<open>i\<close> (\<^verbatim>\<open>memcpy\<close>).\<close>

definition patch :: "'a list \<Rightarrow> nat \<Rightarrow> 'a list \<Rightarrow> 'a list" where
  "patch xs i ys = take i xs @ ys @ drop (i + length ys) xs"

lemma length_patch [simp]: "i + length ys \<le> length xs \<Longrightarrow> length (patch xs i ys) = length xs"
  by (simp add: patch_def)

lemma patch_Nil [simp]: "patch xs i [] = xs"
  by (simp add: patch_def)

lemma patch_update_Suc:
  "i < length xs \<Longrightarrow> patch (xs[i := v]) (Suc i) ys = patch xs i (v # ys)"
  by (simp add: patch_def take_Suc_conv_app_nth)

lemma drop_patch:
  assumes "i + length ys \<le> n" and "n \<le> length xs"
  shows "drop n (patch xs i ys) = drop n xs"
proof (cases "ys = []")
  case False
  then have "0 < length ys" by simp
  with assms have "\<not> length xs \<le> i" by linarith
  with assms show ?thesis by (simp add: patch_def min_def)
qed simp

lemma take_takeWhile_le:
  "i \<le> length (takeWhile P xs) \<Longrightarrow> take i (takeWhile P xs) = take i xs"
proof (induction xs arbitrary: i)
  case (Cons x xs)
  then show ?case by (cases i) (auto split: if_splits)
qed simp

lemma patch_single: "i < length xs \<Longrightarrow> patch xs i [v] = xs[i := v]"
  by (simp add: patch_def upd_conv_take_nth_drop)

lemma nth_take_drop_decomp:
  "i < length xs \<Longrightarrow> take i xs @ xs ! i # drop (Suc i) xs = xs"
  by (metis id_take_nth_drop)

lemma map_nth_upt_shift: "map (\<lambda>i. f (i + k)) [0..<n] = map f [k..<k + n]"
  by (induction n) (auto simp: add.commute)

lemma filter_length_update_less:
  "i < length xs \<Longrightarrow> P (xs ! i) \<Longrightarrow> \<not> P y \<Longrightarrow>
   length (filter P (xs[i := y])) < length (filter P xs)"
proof (induction xs arbitrary: i)
  case (Cons x xs)
  then show ?case by (cases i) auto
qed simp

lemma rotate_index_inj:
  fixes s :: nat
  assumes "a < n" and "b < n" and "(s + a) mod n = (s + b) mod n"
  shows "a = b"
proof -
  have "int a mod int n = int b mod int n"
    using assms(3) by (metis add_diff_cancel_left' mod_diff_left_eq of_nat_add of_nat_mod)
  with assms(1,2) show ?thesis by simp
qed

section \<open>Rings\<close>

text \<open>\<open>ring_slice xs s c\<close>: the \<open>c\<close> elements of the ring \<open>xs\<close> from position \<open>s\<close> on, wrapping around.\<close>

definition ring_slice :: "'a list \<Rightarrow> nat \<Rightarrow> nat \<Rightarrow> 'a list" where
  "ring_slice xs s c = map (\<lambda>k. xs ! ((s + k) mod length xs)) [0..<c]"

definition ring_count :: "nat \<Rightarrow> nat \<Rightarrow> nat \<Rightarrow> nat" where
  "ring_count n s e = (e + n - s) mod n"

lemma length_ring_slice [simp]: "length (ring_slice xs s c) = c"
  by (simp add: ring_slice_def)

lemma ring_slice_0 [simp]: "ring_slice xs s 0 = []"
  by (simp add: ring_slice_def)

lemma ring_slice_Suc: "ring_slice xs s (Suc c) = ring_slice xs s c @ [xs ! ((s + c) mod length xs)]"
  by (simp add: ring_slice_def)

lemma ring_slice_mod [simp]: "ring_slice xs (s mod length xs) c = ring_slice xs s c"
  by (simp add: ring_slice_def mod_add_left_eq)

lemma ring_slice_Cons: "ring_slice xs s (Suc c) = xs ! (s mod length xs) # ring_slice xs (Suc s) c"
  by (induction c) (auto simp: ring_slice_Suc)

lemma ring_slice_Cons_less:
  "s < length xs \<Longrightarrow> ring_slice xs s (Suc c) = xs ! s # ring_slice xs (Suc s) c"
  by (simp add: ring_slice_Cons)

lemma ring_slice_update_outside:
  assumes "c \<le> j" and "j < length xs"
  shows "ring_slice (xs[(s + j) mod length xs := v]) s c = ring_slice xs s c"
proof -
  have "(s + j) mod length xs \<noteq> (s + k) mod length xs" if "k < c" for k
    using rotate_index_inj [of j "length xs" k s] assms that by auto
  then show ?thesis by (auto simp: ring_slice_def nth_list_update_neq)
qed

lemma ring_count_self [simp]: "ring_count n s s = 0"
  by (simp add: ring_count_def)

lemma ring_count_less: "0 < n \<Longrightarrow> ring_count n s e < n"
  by (simp add: ring_count_def)

lemma ring_count_end:
  assumes "s < n" and "e < n"
  shows "(s + ring_count n s e) mod n = e"
proof -
  have "(s + ring_count n s e) mod n = (s + (e + n - s)) mod n"
    by (simp add: ring_count_def mod_add_right_eq)
  also have "\<dots> = e" using assms by simp
  finally show ?thesis .
qed

lemma ring_count_0_iff: "s < n \<Longrightarrow> e < n \<Longrightarrow> ring_count n s e = 0 \<longleftrightarrow> e = s"
  using ring_count_end [of s n e] by (auto simp: ring_count_def)

lemma ring_count_eqI:
  assumes "s < n" and "c < n" and "(s + c) mod n = e"
  shows "ring_count n s e = c"
proof -
  have "e < n" using assms by auto
  then show ?thesis
    using assms ring_count_end [of s n e] ring_count_less [of n s e]
      rotate_index_inj [of "ring_count n s e" n c s] by simp
qed

lemma ring_count_Suc_end:
  assumes "s < n" and "e < n" and "Suc e mod n \<noteq> s"
  shows "ring_count n s (Suc e mod n) = Suc (ring_count n s e)"
proof -
  have c: "(s + Suc (ring_count n s e)) mod n = Suc e mod n"
    using ring_count_end [OF assms(1,2)] by (metis add_Suc_right mod_Suc_eq)
  have "Suc (ring_count n s e) \<noteq> n"
  proof
    assume "Suc (ring_count n s e) = n"
    then have "Suc e mod n = s" using c assms(1) by simp
    with assms(3) show False ..
  qed
  then show ?thesis
    using c assms ring_count_less [of n s e] by (intro ring_count_eqI) auto
qed

lemma ring_count_full:
  assumes "s < n" and "e < n" and "Suc e mod n = s"
  shows "ring_count n s e = n - 1"
proof -
  have "(s + (n - 1)) mod n = e"
  proof (cases "Suc e = n")
    case False
    then have "Suc e = s" using assms by simp
    then have "s + (n - 1) = e + n" using assms by simp
    then show ?thesis using assms by simp
  qed (use assms in auto)
  then show ?thesis using assms by (intro ring_count_eqI) auto
qed

lemma ring_count_Suc_start:
  assumes "s < n" and "e < n" and "e \<noteq> s"
  shows "ring_count n (Suc s mod n) e = ring_count n s e - 1"
proof -
  have pos: "0 < ring_count n s e" using ring_count_0_iff [OF assms(1,2)] assms(3) by simp
  have "(Suc s mod n + (ring_count n s e - 1)) mod n = (Suc s + (ring_count n s e - 1)) mod n"
    by (rule mod_add_left_eq)
  also have "Suc s + (ring_count n s e - 1) = s + ring_count n s e" using pos by simp
  finally have "(Suc s mod n + (ring_count n s e - 1)) mod n = (s + ring_count n s e) mod n" .
  then show ?thesis
    using assms ring_count_end [OF assms(1,2)] ring_count_less [of n s e]
    by (intro ring_count_eqI) auto
qed

section \<open>Integers as bytes\<close>

lemma unat_ucast_32_64 [simp]: "unat (ucast (w :: u32) :: u64) = unat w"
proof -
  have "unat w < 2 ^ 32" using unsigned_less [of w] by simp
  then show ?thesis by (simp add: unsigned_ucast_eq take_bit_nat_eq_self)
qed

lemma unat_add_1_less:
  fixes a :: "'a::len word"
  assumes "a < b"
  shows "unat (a + 1) = Suc (unat a)"
proof -
  have "unat a < unat b" using assms by (simp add: word_less_nat_alt)
  moreover have "unat b < 2 ^ LENGTH('a)" by (rule unsigned_less)
  ultimately have "unat a + 1 < 2 ^ LENGTH('a)" by linarith
  then show ?thesis by (simp add: unat_word_ariths(1))
qed

text \<open>\<open>nat_to_le n x\<close> is the \<open>n\<close>-byte little-endian form of \<open>x\<close>, as memory holds it.\<close>

primrec nat_to_le :: "nat \<Rightarrow> nat \<Rightarrow> bytes" where
  "nat_to_le 0 x = []"
| "nat_to_le (Suc n) x = of_nat x # nat_to_le n (x div 256)"

primrec le_to_nat :: "bytes \<Rightarrow> nat" where
  "le_to_nat [] = 0"
| "le_to_nat (b # bs) = unat b + 256 * le_to_nat bs"

lemma length_nat_to_le [simp, wire_simps]: "length (nat_to_le n x) = n"
  by (induction n arbitrary: x) auto

lemma le_to_nat_bound: "le_to_nat bs < 256 ^ length bs"
proof (induction bs)
  case (Cons b bs)
  have "unat b < 256" using unsigned_less [of b] by simp
  with Cons show ?case by simp
qed simp

lemma le_to_nat_to_le [wire_simps]: "le_to_nat (nat_to_le n x) = x mod 256 ^ n"
proof (induction n arbitrary: x)
  case (Suc n)
  have "unat (of_nat x :: u8) = x mod 256" by (simp add: unat_of_nat)
  with Suc show ?case by (simp add: mod_mult2_eq add.commute mult.commute)
qed simp

lemma nat_to_le_to_nat [wire_simps]: "n = length bs \<Longrightarrow> nat_to_le n (le_to_nat bs) = bs"
proof (induction bs arbitrary: n)
  case (Cons b bs)
  have b: "unat b < 256" using unsigned_less [of b] by simp
  have "unat (of_nat (unat b + 256 * le_to_nat bs) :: u8) = unat b"
    using b by (simp only: unat_of_nat) simp
  then have "(of_nat (unat b + 256 * le_to_nat bs) :: u8) = b"
    by (simp only: word_unat_eq_iff)
  with b Cons show ?case by simp
qed simp

lemma le_to_nat_inject:
  "length bs = length cs \<Longrightarrow> le_to_nat bs = le_to_nat cs \<Longrightarrow> bs = cs"
  by (metis nat_to_le_to_nat)

text \<open>
  \<open>bswap n\<close> reverses the \<open>n\<close> bytes of a word: what \<^verbatim>\<open>htobe16\<close>, \<^verbatim>\<open>be16toh\<close> and their 32 and 64 bit
  forms do on a little-endian machine.
\<close>

definition word_le :: "'a::len word \<Rightarrow> bytes" where
  "word_le w = nat_to_le (LENGTH('a) div 8) (unat w)"

definition word_of_le :: "bytes \<Rightarrow> 'a::len word" where
  "word_of_le bs = of_nat (le_to_nat bs)"

definition bswap :: "'a::len word \<Rightarrow> 'a word" where
  "bswap w = word_of_le (rev (word_le w))"

lemma length_word_le [simp, wire_simps]:
  "length (word_le (w :: 'a::len word)) = LENGTH('a) div 8"
  by (simp add: word_le_def)

lemma word_of_le_le [simp, wire_simps]:
  fixes w :: "'a::len word"
  assumes "8 dvd LENGTH('a)"
  shows "word_of_le (word_le w) = w"
proof -
  obtain k where k: "LENGTH('a) = 8 * k" using assms by (auto elim: dvdE)
  have "unat w < 256 ^ k"
    using unsigned_less [of w] by (simp add: k power_mult)
  then show ?thesis
    by (simp add: word_of_le_def word_le_def k le_to_nat_to_le)
qed

lemma word_le_of_le [wire_simps]:
  assumes "length bs = LENGTH('a::len) div 8" and "8 dvd LENGTH('a)"
  shows "word_le (word_of_le bs :: 'a word) = bs"
proof -
  obtain k where k: "LENGTH('a) = 8 * k" using assms by (auto elim: dvdE)
  have "le_to_nat bs < 2 ^ LENGTH('a)"
    using le_to_nat_bound [of bs] assms(1) by (simp add: k power_mult)
  then have "unat (word_of_le bs :: 'a word) = le_to_nat bs"
    by (simp add: word_of_le_def unat_of_nat)
  then show ?thesis
    using assms(1) by (simp add: word_le_def nat_to_le_to_nat)
qed

lemma bswap_bswap [simp, wire_simps]:
  fixes w :: "'a::len word"
  assumes "8 dvd LENGTH('a)"
  shows "bswap (bswap w) = w"
  using assms by (simp add: bswap_def word_le_of_le)

lemma word_le_bswap [wire_simps]:
  fixes w :: "'a::len word"
  assumes "8 dvd LENGTH('a)"
  shows "word_le (bswap w) = rev (word_le w)"
  using assms by (simp add: bswap_def word_le_of_le)

section \<open>Rationals standing for doubles\<close>

text \<open>Conversion of a non-negative double to an unsigned integer type truncates.\<close>

definition trunc_word :: "double \<Rightarrow> 'a::len word" where
  "trunc_word x = of_int (if 0 \<le> x then \<lfloor>x\<rfloor> else \<lceil>x\<rceil>)"

end
