(* ===== verification/Packet.thy ===== *)
theory Packet
  imports Prelude
begin

text \<open>
  The packet structures of \<^verbatim>\<open>src/pkt.h\<close>: the internal packet \<^verbatim>\<open>mlvpn_pkt_t\<close>, the wire packet
  \<^verbatim>\<open>mlvpn_proto_t\<close>, and the memory image of the latter (a packed struct with one 16 bit unit of
  bit-fields), which is what \<^verbatim>\<open>sendto\<close> and \<^verbatim>\<open>recvfrom\<close> transfer.
\<close>

unbundle bit_operations_syntax

abbreviation DEFAULT_MTU :: nat where
  "DEFAULT_MTU \<equiv> 1500"

abbreviation MLVPN_PKT_AUTH :: u8 where "MLVPN_PKT_AUTH \<equiv> 0"
abbreviation MLVPN_PKT_AUTH_OK :: u8 where "MLVPN_PKT_AUTH_OK \<equiv> 1"
abbreviation MLVPN_PKT_KEEPALIVE :: u8 where "MLVPN_PKT_KEEPALIVE \<equiv> 2"
abbreviation MLVPN_PKT_DATA :: u8 where "MLVPN_PKT_DATA \<equiv> 3"
abbreviation MLVPN_PKT_DISCONNECT :: u8 where "MLVPN_PKT_DISCONNECT \<equiv> 4"

text \<open>\<open>pkt_data\<close> is the array of \<^verbatim>\<open>DEFAULT_MTU\<close> bytes; the first \<open>pkt_len\<close> of them are the payload.\<close>

record mlvpn_pkt_t =
  pkt_len :: u16
  pkt_type :: u8
  pkt_reorder :: u8
  pkt_seq :: u64
  pkt_data :: bytes

text \<open>A packet fresh from \<^verbatim>\<open>calloc\<close>.\<close>

definition pkt_zero :: mlvpn_pkt_t where
  "pkt_zero = \<lparr>pkt_len = 0, pkt_type = 0, pkt_reorder = 0, pkt_seq = 0,
               pkt_data = replicate DEFAULT_MTU 0\<rparr>"

definition pkt_payload :: "mlvpn_pkt_t \<Rightarrow> bytes" where
  "pkt_payload p = take (unat (pkt_len p)) (pkt_data p)"

definition pkt_wf :: "mlvpn_pkt_t \<Rightarrow> bool" where
  "pkt_wf p \<longleftrightarrow> length (pkt_data p) = DEFAULT_MTU \<and> unat (pkt_len p) \<le> DEFAULT_MTU"

record mlvpn_proto_t =
  proto_len :: u16
  proto_version :: "4 word"
  proto_flags :: "6 word"
  proto_reorder :: "1 word"
  proto_unused :: "5 word"
  proto_timestamp :: u16
  proto_timestamp_reply :: u16
  proto_flow_id :: u32
  proto_seq :: u64
  proto_data_seq :: u64
  proto_data :: bytes

definition proto_zero :: mlvpn_proto_t where
  "proto_zero = \<lparr>proto_len = 0, proto_version = 0, proto_flags = 0, proto_reorder = 0,
     proto_unused = 0, proto_timestamp = 0, proto_timestamp_reply = 0, proto_flow_id = 0,
     proto_seq = 0, proto_data_seq = 0, proto_data = replicate DEFAULT_MTU 0\<rparr>"

text \<open>\<^verbatim>\<open>PKTHDRSIZ(proto)\<close>: the struct without its data.\<close>

definition PKTHDRSIZ :: nat where
  "PKTHDRSIZ = 2 + 2 + 2 + 2 + 4 + 8 + 8"

abbreviation IP4_UDP_OVERHEAD :: nat where
  "IP4_UDP_OVERHEAD \<equiv> 20 + 8"

lemma PKTHDRSIZ_28: "PKTHDRSIZ = 28"
  by (simp add: PKTHDRSIZ_def)

text \<open>The 16 bit unit that holds the four bit-fields, the first one in the low bits.\<close>

definition proto_bits :: "mlvpn_proto_t \<Rightarrow> u16" where
  "proto_bits p = ucast (proto_version p) OR push_bit 4 (ucast (proto_flags p))
     OR push_bit 10 (ucast (proto_reorder p)) OR push_bit 11 (ucast (proto_unused p))"

definition proto_to_mem :: "mlvpn_proto_t \<Rightarrow> bytes" where
  "proto_to_mem p = word_le (proto_len p) @ word_le (proto_bits p) @ word_le (proto_timestamp p) @
     word_le (proto_timestamp_reply p) @ word_le (proto_flow_id p) @ word_le (proto_seq p) @
     word_le (proto_data_seq p) @ proto_data p"

definition proto_of_mem :: "bytes \<Rightarrow> mlvpn_proto_t" where
  "proto_of_mem m = (let b = (word_of_le (take 2 (drop 2 m)) :: u16) in
     \<lparr>proto_len = word_of_le (take 2 m), proto_version = ucast b, proto_flags = ucast (drop_bit 4 b),
      proto_reorder = ucast (drop_bit 10 b), proto_unused = ucast (drop_bit 11 b),
      proto_timestamp = word_of_le (take 2 (drop 4 m)),
      proto_timestamp_reply = word_of_le (take 2 (drop 6 m)),
      proto_flow_id = word_of_le (take 4 (drop 8 m)), proto_seq = word_of_le (take 8 (drop 12 m)),
      proto_data_seq = word_of_le (take 8 (drop 20 m)), proto_data = drop 28 m\<rparr>)"

lemma length_proto_to_mem [simp]: "length (proto_to_mem p) = PKTHDRSIZ + length (proto_data p)"
  by (simp add: proto_to_mem_def PKTHDRSIZ_def)

lemma proto_bits_fields [simp]:
  "ucast (proto_bits p) = proto_version p"
  "ucast (drop_bit 4 (proto_bits p)) = proto_flags p"
  "ucast (drop_bit 10 (proto_bits p)) = proto_reorder p"
  "ucast (drop_bit 11 (proto_bits p)) = proto_unused p"
  by (rule bit_word_eqI; auto simp: proto_bits_def bit_simps dest: bit_imp_le_length)+

lemma proto_of_to_mem [simp]: "proto_of_mem (proto_to_mem p) = p"
  by (simp add: proto_of_mem_def proto_to_mem_def)


end
