(* ===== verification/Buffer.thy ===== *)
theory Buffer
  imports Packet
begin

text \<open>
  The packet buffers of \<^verbatim>\<open>src/buffer.c\<close>: the circular buffer with its application-level packet
  queue (\<^verbatim>\<open>mlvpn_cb_*\<close>, \<^verbatim>\<open>mlvpn_pktbuffer_*\<close>), which holds the packets waiting to be sent. The
  queue is shown to implement a bounded FIFO that drops its oldest packet when full. Pointers into the arrays are
  indices. The pool of packets used for reordering is in Freebuffer.
\<close>

section \<open>Circular buffers\<close>

text \<open>\<open>cb_pkts\<close> is the array \<^verbatim>\<open>data->pkts\<close> of the packet buffer built on the circular buffer.\<close>

record circular_buffer_t =
  cb_size :: nat
  cb_start :: nat
  cb_end :: nat
  cb_pkts :: "mlvpn_pkt_t list"

definition mlvpn_cb_reset :: "circular_buffer_t \<Rightarrow> circular_buffer_t" where
  "mlvpn_cb_reset buf = buf\<lparr>cb_start := 0, cb_end := 0\<rparr>"

definition mlvpn_cb_init :: "nat \<Rightarrow> circular_buffer_t" where
  "mlvpn_cb_init sz = mlvpn_cb_reset \<lparr>cb_size = sz + 1, cb_start = 0, cb_end = 0, cb_pkts = []\<rparr>"

definition mlvpn_cb_is_full :: "circular_buffer_t \<Rightarrow> bool" where
  "mlvpn_cb_is_full buf \<longleftrightarrow> (cb_end buf + 1) mod cb_size buf = cb_start buf"

definition mlvpn_cb_is_empty :: "circular_buffer_t \<Rightarrow> bool" where
  "mlvpn_cb_is_empty buf \<longleftrightarrow> cb_end buf = cb_start buf"

text \<open>Reading and writing return the slot the caller then works on.\<close>

definition mlvpn_cb_read :: "circular_buffer_t \<Rightarrow> nat \<times> circular_buffer_t" where
  "mlvpn_cb_read buf = (cb_start buf, buf\<lparr>cb_start := (cb_start buf + 1) mod cb_size buf\<rparr>)"

definition mlvpn_cb_write :: "circular_buffer_t \<Rightarrow> nat \<times> circular_buffer_t" where
  "mlvpn_cb_write buf =
     (let buf1 = buf\<lparr>cb_end := (cb_end buf + 1) mod cb_size buf\<rparr>
      in (cb_end buf,
          if cb_end buf1 = cb_start buf1
          then buf1\<lparr>cb_start := (cb_start buf1 + 1) mod cb_size buf1\<rparr> else buf1))"

section \<open>Packet buffers\<close>

definition mlvpn_pktbuffer_reset :: "circular_buffer_t \<Rightarrow> circular_buffer_t" where
  "mlvpn_pktbuffer_reset buf = mlvpn_cb_reset buf"

definition mlvpn_pktbuffer_init :: "nat \<Rightarrow> circular_buffer_t" where
  "mlvpn_pktbuffer_init sz =
     (let buf = mlvpn_cb_init sz
      in mlvpn_pktbuffer_reset (buf\<lparr>cb_pkts := replicate (cb_size buf) pkt_zero\<rparr>))"

text \<open>What the caller does through the returned pointer: \<open>f\<close> applied to the packet in slot \<open>i\<close>.\<close>

definition pktbuffer_modify :: "circular_buffer_t \<Rightarrow> nat \<Rightarrow> (mlvpn_pkt_t \<Rightarrow> mlvpn_pkt_t) \<Rightarrow> circular_buffer_t" where
  "pktbuffer_modify buf i f = buf\<lparr>cb_pkts := (cb_pkts buf)[i := f (cb_pkts buf ! i)]\<rparr>"

definition mlvpn_pktbuffer_write :: "circular_buffer_t \<Rightarrow> nat \<times> circular_buffer_t" where
  "mlvpn_pktbuffer_write buf =
     (let (i, buf1) = mlvpn_cb_write buf
      in (i, pktbuffer_modify buf1 i (\<lambda>p. p\<lparr>pkt_len := 0, pkt_type := MLVPN_PKT_DATA\<rparr>)))"

definition mlvpn_pktbuffer_read :: "circular_buffer_t \<Rightarrow> nat \<times> circular_buffer_t" where
  "mlvpn_pktbuffer_read buf = mlvpn_cb_read buf"

text \<open>
  The two ways the daemon uses a packet buffer: obtain a slot and fill it, and take the oldest
  packet out.
\<close>

definition pktbuffer_put :: "(mlvpn_pkt_t \<Rightarrow> mlvpn_pkt_t) \<Rightarrow> circular_buffer_t \<Rightarrow> circular_buffer_t" where
  "pktbuffer_put f buf = (let (i, buf1) = mlvpn_pktbuffer_write buf in pktbuffer_modify buf1 i f)"

definition pktbuffer_take :: "circular_buffer_t \<Rightarrow> mlvpn_pkt_t \<times> circular_buffer_t" where
  "pktbuffer_take buf = (let (i, buf1) = mlvpn_pktbuffer_read buf in (cb_pkts buf1 ! i, buf1))"

subsection \<open>Invariant and abstraction\<close>

definition cb_wf :: "circular_buffer_t \<Rightarrow> bool" where
  "cb_wf buf \<longleftrightarrow> 1 < cb_size buf \<and> length (cb_pkts buf) = cb_size buf \<and>
     cb_start buf < cb_size buf \<and> cb_end buf < cb_size buf"

definition cb_list :: "circular_buffer_t \<Rightarrow> mlvpn_pkt_t list" where
  "cb_list buf = ring_slice (cb_pkts buf) (cb_start buf) (ring_count (cb_size buf) (cb_start buf) (cb_end buf))"

text \<open>The packet a caller of \<open>mlvpn_pktbuffer_write\<close> finds in its slot: stale but for length and type.\<close>

definition cb_fresh :: "circular_buffer_t \<Rightarrow> mlvpn_pkt_t" where
  "cb_fresh buf = (cb_pkts buf ! cb_end buf)\<lparr>pkt_len := 0, pkt_type := MLVPN_PKT_DATA\<rparr>"

lemmas cb_defs = mlvpn_cb_reset_def mlvpn_cb_init_def mlvpn_cb_is_full_def mlvpn_cb_is_empty_def
  mlvpn_cb_read_def mlvpn_cb_write_def mlvpn_pktbuffer_reset_def mlvpn_pktbuffer_init_def
  mlvpn_pktbuffer_write_def mlvpn_pktbuffer_read_def pktbuffer_modify_def pktbuffer_put_def
  pktbuffer_take_def Let_def

lemma cb_wf_init [simp]: "0 < sz \<Longrightarrow> cb_wf (mlvpn_pktbuffer_init sz)"
  by (simp add: cb_wf_def cb_defs)

lemma cb_wf_reset [simp]: "cb_wf buf \<Longrightarrow> cb_wf (mlvpn_pktbuffer_reset buf)"
  by (simp add: cb_wf_def cb_defs)

lemma cb_wf_put [simp]: "cb_wf buf \<Longrightarrow> cb_wf (pktbuffer_put f buf)"
  by (auto simp: cb_wf_def cb_defs)

lemma cb_wf_take [simp]: "cb_wf buf \<Longrightarrow> cb_wf (snd (pktbuffer_take buf))"
  by (auto simp: cb_wf_def cb_defs)

lemma cb_size_put [simp]: "cb_size (pktbuffer_put f buf) = cb_size buf"
  by (auto simp: cb_defs)

lemma cb_init_simps [simp]:
  "cb_size (mlvpn_pktbuffer_init sz) = Suc sz"
  "0 < sz \<Longrightarrow> \<not> mlvpn_cb_is_full (mlvpn_pktbuffer_init sz)"
  "mlvpn_cb_is_empty (mlvpn_pktbuffer_init sz)"
  "cb_fresh (mlvpn_pktbuffer_init sz) = pkt_zero\<lparr>pkt_len := 0, pkt_type := MLVPN_PKT_DATA\<rparr>"
  by (simp_all add: cb_defs cb_fresh_def)

lemma cb_list_init [simp]: "cb_list (mlvpn_pktbuffer_init sz) = []"
  by (simp add: cb_list_def cb_defs ring_count_def)

lemma cb_list_reset [simp]: "cb_list (mlvpn_pktbuffer_reset buf) = []"
  by (simp add: cb_list_def cb_defs ring_count_def)

lemma cb_empty_iff: "cb_wf buf \<Longrightarrow> mlvpn_cb_is_empty buf \<longleftrightarrow> cb_list buf = []"
  using ring_count_0_iff [of "cb_start buf" "cb_size buf" "cb_end buf"]
  by (auto simp: cb_wf_def cb_list_def cb_defs simp flip: length_0_conv)

lemma cb_full_iff: "cb_wf buf \<Longrightarrow> mlvpn_cb_is_full buf \<longleftrightarrow> length (cb_list buf) = cb_size buf - 1"
proof -
  assume wf: "cb_wf buf"
  let ?n = "cb_size buf" and ?s = "cb_start buf" and ?e = "cb_end buf"
  have b: "?s < ?n" "?e < ?n" using wf by (auto simp: cb_wf_def)
  have "Suc ?e mod ?n = ?s" if "ring_count ?n ?s ?e = ?n - 1"
    using ring_count_Suc_end [OF b] ring_count_less [of ?n ?s "Suc ?e mod ?n"] that b by fastforce
  with ring_count_full [OF b] show ?thesis by (auto simp: cb_list_def cb_defs)
qed

lemma cb_list_length: "cb_wf buf \<Longrightarrow> length (cb_list buf) \<le> cb_size buf - 1"
  using ring_count_less [of "cb_size buf" "cb_start buf" "cb_end buf"]
  by (auto simp: cb_wf_def cb_list_def)

lemma pktbuffer_put_unfold:
  assumes "cb_wf buf"
  shows "pktbuffer_put f buf = buf\<lparr>cb_pkts := (cb_pkts buf)[cb_end buf := f (cb_fresh buf)],
      cb_end := Suc (cb_end buf) mod cb_size buf,
      cb_start := (if mlvpn_cb_is_full buf then Suc (cb_start buf) mod cb_size buf else cb_start buf)\<rparr>"
  using assms by (auto simp: cb_wf_def cb_defs cb_fresh_def)

lemma cb_list_put:
  assumes wf: "cb_wf buf"
  shows "cb_list (pktbuffer_put f buf) =
    (if mlvpn_cb_is_full buf then tl (cb_list buf) else cb_list buf) @ [f (cb_fresh buf)]"
proof -
  let ?n = "cb_size buf" and ?s = "cb_start buf" and ?e = "cb_end buf" and ?v = "f (cb_fresh buf)"
  let ?c = "ring_count ?n ?s ?e" and ?xs = "(cb_pkts buf)[cb_end buf := f (cb_fresh buf)]"
  have b: "?s < ?n" "?e < ?n" "length (cb_pkts buf) = ?n" "1 < ?n" using wf by (auto simp: cb_wf_def)
  have e: "(?s + ?c) mod ?n = ?e" and c: "?c < ?n" using b by (auto simp: ring_count_end ring_count_less)
  have old: "ring_slice ?xs ?s ?c = cb_list buf"
    using ring_slice_update_outside [of ?c ?c "cb_pkts buf" ?s ?v] b c e by (simp add: cb_list_def)
  have new: "ring_slice ?xs ?s (Suc ?c) = cb_list buf @ [?v]"
    using old b e by (simp add: ring_slice_Suc)
  show ?thesis
  proof (cases "Suc ?e mod ?n = ?s")
    case False
    then show ?thesis
      using new b wf ring_count_Suc_end [OF b(1,2)]
      by (simp add: pktbuffer_put_unfold cb_list_def mlvpn_cb_is_full_def)
  next
    case True
    then have c1: "?c = ?n - 1" using b by (simp add: ring_count_full)
    have s': "ring_count ?n (Suc ?s mod ?n) ?s = ?n - 1"
      using b by (intro ring_count_full) auto
    have "ring_slice ?xs (Suc ?s) ?c = tl (cb_list buf @ [?v])"
      using new by (simp add: ring_slice_Cons flip: new)
    then have "ring_slice ?xs (Suc ?s mod ?n) ?c = tl (cb_list buf @ [?v])"
      using b ring_slice_mod [of ?xs "Suc ?s" ?c] by simp
    moreover have "cb_list buf \<noteq> []" using c1 b by (auto simp: cb_list_def simp flip: length_0_conv)
    ultimately show ?thesis
      using True wf s' c1 by (simp add: pktbuffer_put_unfold cb_list_def mlvpn_cb_is_full_def)
  qed
qed

lemma pktbuffer_take_list:
  assumes wf: "cb_wf buf" and ne: "\<not> mlvpn_cb_is_empty buf"
  shows "fst (pktbuffer_take buf) = hd (cb_list buf)"
    and "cb_list (snd (pktbuffer_take buf)) = tl (cb_list buf)"
proof -
  let ?n = "cb_size buf" and ?s = "cb_start buf" and ?e = "cb_end buf"
  have b: "?s < ?n" "?e < ?n" "length (cb_pkts buf) = ?n" "?e \<noteq> ?s"
    using wf ne by (auto simp: cb_wf_def cb_defs)
  obtain c where c: "ring_count ?n ?s ?e = Suc c"
    using ring_count_0_iff [OF b(1,2)] b(4) by (cases "ring_count ?n ?s ?e") auto
  have l: "cb_list buf = cb_pkts buf ! ?s # ring_slice (cb_pkts buf) (Suc ?s) c"
    using b c by (simp add: cb_list_def ring_slice_Cons_less)
  then show "fst (pktbuffer_take buf) = hd (cb_list buf)" by (simp add: cb_defs)
  have "ring_count ?n (Suc ?s mod ?n) ?e = c"
    using ring_count_Suc_start [OF b(1,2,4)] c by simp
  then show "cb_list (snd (pktbuffer_take buf)) = tl (cb_list buf)"
    using l b ring_slice_mod [of "cb_pkts buf" "Suc ?s" c]
    by (simp add: cb_list_def cb_defs)
qed

section \<open>The interface of a bounded queue that drops its oldest element\<close>

locale lossy_queue =
  fixes invar :: "'q \<Rightarrow> bool"
    and elems :: "'q \<Rightarrow> 'a list"
    and cap :: "'q \<Rightarrow> nat"
    and fresh :: "'q \<Rightarrow> 'a"
    and put :: "('a \<Rightarrow> 'a) \<Rightarrow> 'q \<Rightarrow> 'q"
    and get :: "'q \<Rightarrow> 'a \<times> 'q"
    and is_empty :: "'q \<Rightarrow> bool"
    and is_full :: "'q \<Rightarrow> bool"
  assumes cap_pos: "invar q \<Longrightarrow> 0 < cap q"
    and elems_cap: "invar q \<Longrightarrow> length (elems q) \<le> cap q"
    and empty_iff: "invar q \<Longrightarrow> is_empty q \<longleftrightarrow> elems q = []"
    and full_iff: "invar q \<Longrightarrow> is_full q \<longleftrightarrow> length (elems q) = cap q"
    and invar_put: "invar q \<Longrightarrow> invar (put f q)"
    and cap_put: "cap (put f q) = cap q"
    and elems_put: "invar q \<Longrightarrow>
      elems (put f q) = (if is_full q then tl (elems q) else elems q) @ [f (fresh q)]"
    and invar_get: "invar q \<Longrightarrow> invar (snd (get q))"
    and get_elems: "invar q \<Longrightarrow> \<not> is_empty q \<Longrightarrow>
      fst (get q) = hd (elems q) \<and> elems (snd (get q)) = tl (elems q)"
begin

lemma put_not_empty: "invar q \<Longrightarrow> \<not> is_empty (put f q)"
  by (simp add: empty_iff invar_put elems_put)

lemma put_elems_drop: "invar q \<Longrightarrow>
  elems (put f q) = drop (Suc (length (elems q)) - cap q) (elems q @ [f (fresh q)])"
proof -
  assume q: "invar q"
  show ?thesis
  proof (cases "is_full q")
    case True
    then have "elems q \<noteq> []" using q cap_pos [OF q] full_iff [OF q] by auto
    with True q cap_pos [OF q] show ?thesis
      by (simp add: elems_put full_iff drop_Suc Suc_diff_le)
  next
    case False
    then show ?thesis using q elems_cap [OF q] by (simp add: elems_put full_iff)
  qed
qed

lemma elems_puts:
  assumes "invar q"
  shows "invar (fold (\<lambda>c. put (\<lambda>_. c)) cs q) \<and> cap (fold (\<lambda>c. put (\<lambda>_. c)) cs q) = cap q \<and>
    elems (fold (\<lambda>c. put (\<lambda>_. c)) cs q) = drop (length (elems q) + length cs - cap q) (elems q @ cs)"
  using assms
proof (induction cs arbitrary: q)
  case Nil
  then show ?case using elems_cap by simp
next
  case (Cons c cs)
  let ?q = "put (\<lambda>_. c) q" and ?k = "Suc (length (elems q)) - cap q"
  have k: "?k \<le> length (elems q @ [c])" by simp
  have el: "elems ?q = drop ?k (elems q @ [c])" by (rule put_elems_drop [OF Cons.prems])
  then have len: "length (elems ?q) = Suc (length (elems q)) - ?k" by simp
  have "elems ?q @ cs = drop ?k (elems q @ c # cs)"
    using cap_pos [OF Cons.prems] by (simp only: el) (simp add: drop_append)
  then have "drop (length (elems ?q) + length cs - cap q) (elems ?q @ cs) =
      drop (length (elems ?q) + length cs - cap q + ?k) (elems q @ c # cs)"
    by (simp only: drop_drop)
  also have "length (elems ?q) + length cs - cap q + ?k = length (elems q) + length (c # cs) - cap q"
    using elems_cap [OF Cons.prems] cap_pos [OF Cons.prems] len by simp
  finally show ?case
    using Cons.IH [of ?q] invar_put [OF Cons.prems] cap_put by simp
qed

primrec drain_n :: "nat \<Rightarrow> 'q \<Rightarrow> 'a list \<times> 'q" where
  "drain_n 0 q = ([], q)"
| "drain_n (Suc n) q =
     (let (x, q1) = get q; (xs, q2) = drain_n n q1 in (x # xs, q2))"

lemma drain_n_elems:
  "invar q \<Longrightarrow> n \<le> length (elems q) \<Longrightarrow>
   fst (drain_n n q) = take n (elems q) \<and> elems (snd (drain_n n q)) = drop n (elems q) \<and>
   invar (snd (drain_n n q))"
proof (induction n arbitrary: q)
  case (Suc n)
  obtain x xs where l: "elems q = x # xs" using Suc.prems by (cases "elems q") auto
  then have "fst (get q) = x" "elems (snd (get q)) = xs" "invar (snd (get q))"
    using get_elems [of q] empty_iff [of q] invar_get [of q] Suc.prems by auto
  with Suc.IH [of "snd (get q)"] Suc.prems l show ?case
    by (auto simp: Let_def split: prod.splits)
qed simp

end

interpretation pktq: lossy_queue cb_wf cb_list "\<lambda>b. cb_size b - 1" cb_fresh pktbuffer_put
  pktbuffer_take mlvpn_cb_is_empty mlvpn_cb_is_full
  by unfold_locales
    (simp_all add: cb_empty_iff cb_full_iff cb_list_length cb_list_put pktbuffer_take_list,
     simp add: cb_wf_def, use cb_list_length in force)



text \<open>
  Writing a packet and then draining the buffer returns every queued packet in the order written, the
  new one last: a read never returns a slot that was not written.
\<close>

theorem pktbuffer_drain_fifo:
  assumes "cb_wf buf" and "\<not> mlvpn_cb_is_full buf"
  shows "fst (pktq.drain_n (Suc (length (cb_list buf))) (pktbuffer_put f buf)) =
      cb_list buf @ [f (cb_fresh buf)] \<and>
    mlvpn_cb_is_empty (snd (pktq.drain_n (Suc (length (cb_list buf))) (pktbuffer_put f buf)))"
proof -
  have el: "cb_list (pktbuffer_put f buf) = cb_list buf @ [f (cb_fresh buf)]"
    using assms by (simp add: cb_list_put)
  have wf: "cb_wf (pktbuffer_put f buf)" using assms by simp
  from pktq.drain_n_elems [OF wf, of "Suc (length (cb_list buf))"] el show ?thesis
    by (auto simp: cb_empty_iff)
qed

theorem pktbuffer_drain_fifo_witness:
  "cb_wf (mlvpn_pktbuffer_init 4) \<and> \<not> mlvpn_cb_is_full (mlvpn_pktbuffer_init 4) \<and>
   fst (pktq.drain_n (Suc 0) (pktbuffer_put (\<lambda>p. p\<lparr>pkt_len := 7\<rparr>) (mlvpn_pktbuffer_init 4))) =
     [pkt_zero\<lparr>pkt_len := 7, pkt_type := MLVPN_PKT_DATA\<rparr>]"
  using pktbuffer_drain_fifo [of "mlvpn_pktbuffer_init 4" "\<lambda>p. p\<lparr>pkt_len := 7\<rparr>"]
  by simp

end
