(* ===== verification/Cstring.thy ===== *)
theory Cstring
  imports Prelude
begin

text \<open>
  The string helpers the daemon is built with: the portable \<^verbatim>\<open>strlcpy\<close> and \<^verbatim>\<open>strlcat\<close>
  (\<^verbatim>\<open>src/strlcpy.c\<close>, \<^verbatim>\<open>src/strlcat.c\<close>) at the level of memory, with every read and write of a
  character checked against its buffer, and \<^verbatim>\<open>mystr_eq\<close> (\<^verbatim>\<open>src/tool.c\<close>). The theorems say that on
  a terminated source the copies stay inside the destination, terminate it, truncate at
  \<open>dsize - 1\<close> and return the length the caller tests for truncation.
\<close>

abbreviation NUL :: char where
  "NUL \<equiv> CHR 0x00"

text \<open>The string a buffer holds: the characters before the first NUL (\<^verbatim>\<open>strlen\<close> is its length).\<close>

definition cstr :: "char list \<Rightarrow> string" where
  "cstr buf = takeWhile (\<lambda>c. c \<noteq> NUL) buf"

definition terminated :: "char list \<Rightarrow> bool" where
  "terminated buf \<longleftrightarrow> NUL \<in> set buf"

lemma cstr_length: "terminated buf \<Longrightarrow> length (cstr buf) < length buf"
  unfolding terminated_def cstr_def by (induction buf) auto

lemma cstr_no_NUL [simp]: "NUL \<notin> set (cstr buf)"
  unfolding cstr_def by (auto dest: set_takeWhileD)

lemma cstr_nth: "i < length (cstr buf) \<Longrightarrow> buf ! i = cstr buf ! i \<and> cstr buf ! i \<noteq> NUL"
  by (metis cstr_def cstr_no_NUL nth_mem takeWhile_nth)

lemma cstr_end: "terminated buf \<Longrightarrow> buf ! length (cstr buf) = NUL"
  using cstr_length nth_length_takeWhile unfolding cstr_def by fastforce

lemma cstr_append_NUL [simp]: "NUL \<notin> set s \<Longrightarrow> cstr (s @ NUL # r) = s"
  unfolding cstr_def by (induction s) auto

lemma terminated_append_NUL [simp]: "terminated (s @ NUL # r)"
  by (simp add: terminated_def)

section \<open>strlcpy\<close>

text \<open>
  The copying loop: \<open>nleft\<close> is decremented before it is tested, \<open>i\<close> is the offset both pointers
  have reached. The result is the final \<open>nleft\<close>, the offset and the destination.
\<close>

fun strlcpy_copy :: "nat \<Rightarrow> nat \<Rightarrow> char list \<Rightarrow> char list \<Rightarrow> (nat \<times> nat \<times> char list) outcome" where
  "strlcpy_copy 0 i dst src = Ok (0, i, dst)"
| "strlcpy_copy (Suc nleft) i dst src =
     (if nleft = 0 then Ok (0, i, dst)
      else obind (mem_rd src i) (\<lambda>c.
           obind (mem_wr dst i c) (\<lambda>dst'.
           if c = NUL then Ok (nleft, Suc i, dst')
           else strlcpy_copy nleft (Suc i) dst' src)))"

text \<open>\<^verbatim>\<open>while (*src++) ;\<close> from offset \<open>i\<close>: the offset one past the terminator.\<close>

function strlcpy_skip :: "char list \<Rightarrow> nat \<Rightarrow> nat outcome" where
  "strlcpy_skip src i =
     (if i < length src
      then if src ! i = NUL then Ok (Suc i) else strlcpy_skip src (Suc i)
      else Fault OutOfBounds)"
  by pat_completeness auto
termination
  by (relation "measure (\<lambda>(src, i). length src - i)") auto

declare strlcpy_skip.simps [simp del]

definition strlcpy :: "char list \<Rightarrow> char list \<Rightarrow> nat \<Rightarrow> (char list \<times> nat) outcome" where
  "strlcpy dst src dsize =
     obind (strlcpy_copy dsize 0 dst src) (\<lambda>(nleft, i, dst1).
       if nleft = 0
       then obind (if dsize \<noteq> 0 then mem_wr dst1 i NUL else Ok dst1) (\<lambda>dst2.
            obind (strlcpy_skip src i) (\<lambda>j. Ok (dst2, j - 1)))
       else Ok (dst1, i - 1))"

section \<open>strlcat\<close>

text \<open>\<^verbatim>\<open>while (n-- != 0 && *dst != '\\0') dst++\<close>: the offset of the end of \<open>dst\<close> within \<open>n\<close> bytes.\<close>

fun strlcat_end :: "nat \<Rightarrow> nat \<Rightarrow> char list \<Rightarrow> nat outcome" where
  "strlcat_end 0 i dst = Ok i"
| "strlcat_end (Suc n) i dst =
     obind (mem_rd dst i) (\<lambda>c. if c = NUL then Ok i else strlcat_end n (Suc i) dst)"

text \<open>
  The appending loop over \<open>src\<close> from offset \<open>j\<close>, writing at \<open>i\<close> while \<open>n\<close> bytes are left; the
  result is the write offset, the source offset and the destination.
\<close>

function strlcat_copy ::
  "nat \<Rightarrow> nat \<Rightarrow> nat \<Rightarrow> char list \<Rightarrow> char list \<Rightarrow> (nat \<times> nat \<times> char list) outcome" where
  "strlcat_copy n i j dst src =
     (if j < length src
      then if src ! j = NUL then Ok (i, j, dst)
           else if n \<noteq> 0
           then obind (mem_wr dst i (src ! j)) (\<lambda>dst'.
                strlcat_copy (n - 1) (Suc i) (Suc j) dst' src)
           else strlcat_copy n i (Suc j) dst src
      else Fault OutOfBounds)"
  by pat_completeness auto
termination
  by (relation "measure (\<lambda>(n, i, j, dst, src). length src - j)") auto

declare strlcat_copy.simps [simp del]

definition strlcat :: "char list \<Rightarrow> char list \<Rightarrow> nat \<Rightarrow> (char list \<times> nat) outcome" where
  "strlcat dst src dsize =
     obind (strlcat_end dsize 0 dst) (\<lambda>dlen.
       if dsize - dlen = 0 then Ok (dst, dlen + length (cstr src))
       else obind (strlcat_copy (dsize - dlen - 1) dlen 0 dst src) (\<lambda>(i, j, dst1).
            obind (mem_wr dst1 i NUL) (\<lambda>dst2. Ok (dst2, dlen + j))))"

section \<open>mystr_eq\<close>

text \<open>A \<^verbatim>\<open>char *\<close> that may be NULL is a \<open>string option\<close>.\<close>

definition mystr_eq :: "string option \<Rightarrow> string option \<Rightarrow> bool" where
  "mystr_eq s1 s2 =
     (case s1 of None \<Rightarrow> False
      | Some a \<Rightarrow> (case s2 of None \<Rightarrow> False | Some b \<Rightarrow> a = b))"

lemma mystr_eq_iff: "mystr_eq s1 s2 \<longleftrightarrow> (\<exists>a. s1 = Some a \<and> s2 = Some a)"
  by (auto simp: mystr_eq_def split: option.splits)

lemma mystr_eq_Some [simp]: "mystr_eq (Some a) (Some b) \<longleftrightarrow> a = b"
  by (simp add: mystr_eq_def)

section \<open>What the loops compute\<close>

lemma strlcpy_skip_eq:
  "terminated src \<Longrightarrow> i \<le> length (cstr src) \<Longrightarrow> strlcpy_skip src i = Ok (Suc (length (cstr src)))"
proof (induction src i rule: strlcpy_skip.induct)
  case (1 src i)
  show ?case
  proof (cases "i = length (cstr src)")
    case True
    then show ?thesis
      using "1.prems" cstr_length [of src] cstr_end [of src] by (subst strlcpy_skip.simps) simp
  next
    case False
    then have "i < length (cstr src)" using "1.prems" by simp
    then show ?thesis
      using "1" cstr_length [of src] cstr_nth [of i src] by (subst strlcpy_skip.simps) simp
  qed
qed

lemma strlcpy_copy_eq:
  assumes "terminated src" and "i + Suc n \<le> length dst" and "i \<le> length (cstr src)"
  shows "strlcpy_copy (Suc n) i dst src =
    (if n \<le> length (cstr src) - i
     then Ok (0, i + n, patch dst i (take n (drop i (cstr src))))
     else Ok (n - (length (cstr src) - i), Suc (length (cstr src)),
              patch dst i (drop i (cstr src) @ [NUL])))"
  using assms
proof (induction n arbitrary: i dst)
  case 0
  then show ?case by simp
next
  case (Suc n)
  let ?s = "cstr src"
  have src: "i < length src" using cstr_length [of src] Suc.prems by simp
  show ?case
  proof (cases "i = length ?s")
    case True
    then show ?thesis
      using src cstr_end [of src] Suc.prems
      by (auto simp: patch_single)
  next
    case False
    then have i: "i < length ?s" using Suc.prems by simp
    have "strlcpy_copy (Suc (Suc n)) i dst src =
          strlcpy_copy (Suc n) (Suc i) (dst[i := ?s ! i]) src"
      using src cstr_nth [OF i] Suc.prems by simp
    also have "\<dots> = (if n \<le> length ?s - Suc i
       then Ok (0, Suc i + n, patch (dst[i := ?s ! i]) (Suc i) (take n (drop (Suc i) ?s)))
       else Ok (n - (length ?s - Suc i), Suc (length ?s),
                patch (dst[i := ?s ! i]) (Suc i) (drop (Suc i) ?s @ [NUL])))"
      using Suc.prems i by (intro Suc.IH) auto
    also have "patch (dst[i := ?s ! i]) (Suc i) (take n (drop (Suc i) ?s)) =
        patch dst i (take (Suc n) (drop i ?s))"
      using i Suc.prems by (simp add: patch_update_Suc Cons_nth_drop_Suc [symmetric])
    also have "patch (dst[i := ?s ! i]) (Suc i) (drop (Suc i) ?s @ [NUL]) =
        patch dst i (drop i ?s @ [NUL])"
      using i Suc.prems by (simp add: patch_update_Suc Cons_nth_drop_Suc [symmetric])
    finally show ?thesis using i by auto
  qed
qed

lemma cstr_patch_NUL:
  assumes "NUL \<notin> set ys" and "i \<le> length (cstr dst)" and "i + length ys < length dst"
  shows "cstr (patch dst i (ys @ [NUL])) = take i (cstr dst) @ ys"
proof -
  have "take i dst = take i (cstr dst)"
    using assms(2) unfolding cstr_def
    by (simp add: take_takeWhile_le)
  then have "patch dst i (ys @ [NUL]) = (take i (cstr dst) @ ys) @ NUL # drop (i + Suc (length ys)) dst"
    by (simp add: patch_def)
  moreover have "NUL \<notin> set (take i (cstr dst) @ ys)"
    using assms(1) by (auto dest: in_set_takeD)
  ultimately show ?thesis by (metis cstr_append_NUL)
qed

lemma terminated_patch_NUL [simp]: "terminated (patch dst i (ys @ [NUL]))"
  by (simp add: terminated_def patch_def)

lemma patch_snoc_update:
  "i + length ys < length xs \<Longrightarrow> (patch xs i ys)[i + length ys := v] = patch xs i (ys @ [v])"
  by (simp add: patch_def list_update_append upd_conv_take_nth_drop)

lemma strlcat_end_eq:
  "i \<le> length (cstr dst) \<Longrightarrow> i + n \<le> length dst \<Longrightarrow>
   strlcat_end n i dst = Ok (min (i + n) (length (cstr dst)))"
proof (induction n arbitrary: i)
  case (Suc n)
  show ?case
  proof (cases "i = length (cstr dst)")
    case True
    then have "dst ! i = NUL"
      using Suc.prems nth_length_takeWhile [of "\<lambda>c. c \<noteq> NUL" dst] unfolding cstr_def by simp
    then show ?thesis using Suc.prems True by simp
  next
    case False
    then show ?thesis using Suc cstr_nth [of i dst] by auto
  qed
qed simp

lemma strlcat_copy_eq:
  "terminated src \<Longrightarrow> j \<le> length (cstr src) \<Longrightarrow> i + n \<le> length dst \<Longrightarrow>
   strlcat_copy n i j dst src =
     Ok (i + min n (length (cstr src) - j), length (cstr src), patch dst i (take n (drop j (cstr src))))"
proof (induction n i j dst src rule: strlcat_copy.induct)
  case (1 n i j dst src)
  let ?s = "cstr src"
  show ?case
  proof (cases "j = length ?s")
    case True
    then show ?thesis
      using "1.prems" cstr_length [of src] cstr_end [of src] by (subst strlcat_copy.simps) simp
  next
    case False
    then have j: "j < length ?s" "j < length src" "src ! j = ?s ! j" "?s ! j \<noteq> NUL"
      using "1.prems" cstr_length [of src] cstr_nth [of j src] by auto
    show ?thesis
    proof (cases n)
      case 0
      then show ?thesis using "1" j by (subst strlcat_copy.simps) simp
    next
      case (Suc m)
      then have "patch (dst[i := ?s ! j]) (Suc i) (take m (drop (Suc j) ?s)) =
          patch dst i (take n (drop j ?s))"
        using "1.prems" j by (simp add: patch_update_Suc Cons_nth_drop_Suc [symmetric])
      then show ?thesis
        using "1" j Suc by (subst strlcat_copy.simps) auto
    qed
  qed
qed

declare strlcpy_copy.simps [simp del]

section \<open>Contracts of the copies\<close>

lemma strlcpy_spec:
  assumes "terminated src" and "dsize \<le> length dst" and "0 < dsize"
  shows "strlcpy dst src dsize =
    Ok (patch dst 0 (take (dsize - 1) (cstr src) @ [NUL]), length (cstr src))"
proof -
  obtain n where n: "dsize = Suc n" using assms(3) by (cases dsize) auto
  show ?thesis
  proof (cases "n \<le> length (cstr src)")
    case True
    then show ?thesis
      using assms strlcpy_copy_eq [of src 0 n dst] strlcpy_skip_eq [of src n]
        patch_snoc_update [of 0 "take n (cstr src)" dst NUL]
      by (simp add: strlcpy_def n)
  next
    case False
    then show ?thesis
      using assms strlcpy_copy_eq [of src 0 n dst] by (simp add: strlcpy_def n)
  qed
qed

lemma strlcat_spec:
  assumes "terminated src" and "dsize \<le> length dst"
  shows "strlcat dst src dsize =
    (if length (cstr dst) < dsize
     then Ok (patch dst (length (cstr dst)) (take (dsize - 1 - length (cstr dst)) (cstr src) @ [NUL]),
              length (cstr dst) + length (cstr src))
     else Ok (dst, dsize + length (cstr src)))"
proof (cases "length (cstr dst) < dsize")
  case True
  then show ?thesis
    using assms strlcat_end_eq [of 0 dst dsize]
      strlcat_copy_eq [of src 0 "length (cstr dst)" "dsize - length (cstr dst) - 1" dst]
      patch_snoc_update [of "length (cstr dst)" "take (dsize - 1 - length (cstr dst)) (cstr src)" dst NUL]
    by (simp add: strlcat_def min.commute)
next
  case False
  then show ?thesis
    using assms strlcat_end_eq [of 0 dst dsize] by (simp add: strlcat_def)
qed

text \<open>
  \<^verbatim>\<open>strlcpy\<close> into a buffer of at least \<open>dsize > 0\<close> bytes from a terminated source never accesses memory
  outside either buffer, always terminates the destination, stores the source truncated to
  \<open>dsize - 1\<close> characters, leaves the bytes from \<open>dsize\<close> on alone and returns the length of the source.
\<close>

lemma strlcpy_contract:
  assumes "terminated src" and "dsize \<le> length dst" and "0 < dsize"
  shows "\<exists>dst'. strlcpy dst src dsize = Ok (dst', length (cstr src)) \<and>
    length dst' = length dst \<and> terminated dst' \<and>
    cstr dst' = take (dsize - 1) (cstr src) \<and> drop dsize dst' = drop dsize dst"
proof -
  let ?t = "take (dsize - 1) (cstr src)"
  have nul: "NUL \<notin> set ?t" by (auto dest: in_set_takeD)
  have "length ?t < dsize" using assms(3) by simp
  with assms nul show ?thesis
    using cstr_patch_NUL [of ?t 0 dst] by (auto simp: strlcpy_spec drop_patch)
qed

text \<open>
  \<^verbatim>\<open>strlcat\<close> of a terminated source to a destination of at least \<open>dsize\<close> bytes stays in bounds: when the
  destination's string ends within \<open>dsize\<close>, the result is the concatenation truncated to
  \<open>dsize - 1\<close> characters and the return value the full length; otherwise nothing is written and the
  return value is \<open>dsize\<close> plus the length of the source. Truncation happened exactly when the
  return value is at least \<open>dsize\<close>.
\<close>

theorem strlcat_contract:
  assumes "terminated src" and "dsize \<le> length dst"
  shows "\<exists>dst' r. strlcat dst src dsize = Ok (dst', r) \<and> length dst' = length dst \<and>
    drop dsize dst' = drop dsize dst \<and> r = min dsize (length (cstr dst)) + length (cstr src) \<and>
    (if length (cstr dst) < dsize then cstr dst' = take (dsize - 1) (cstr dst @ cstr src) else dst' = dst) \<and>
    (length (cstr dst) < dsize \<longrightarrow> (dsize \<le> r \<longleftrightarrow> cstr dst' \<noteq> cstr dst @ cstr src))"
proof (cases "length (cstr dst) < dsize")
  case True
  let ?d = "length (cstr dst)"
  let ?t = "take (dsize - 1 - ?d) (cstr src)"
  have nul: "NUL \<notin> set ?t" by (auto dest: in_set_takeD)
  have len: "?d + length ?t < dsize" using True by auto
  then have "cstr (patch dst ?d (?t @ [NUL])) = take (dsize - 1) (cstr dst @ cstr src)"
    using nul assms(2) True by (subst cstr_patch_NUL) auto
  moreover have "take (dsize - 1) (cstr dst @ cstr src) = cstr dst @ cstr src \<longleftrightarrow>
      ?d + length (cstr src) < dsize"
    using True take_all_iff [of "dsize - 1" "cstr dst @ cstr src"] by (auto simp del: take_append)
  ultimately show ?thesis
    using assms True len by (auto simp: strlcat_spec drop_patch simp del: take_append)
qed (use assms in \<open>auto simp: strlcat_spec\<close>)

theorem strlcat_contract_witness:
  "\<exists>dst' r. strlcat (''ab'' @ [NUL] @ ''....'') (''cdef'' @ [NUL]) 6 = Ok (dst', r) \<and>
    r = 6 \<and> cstr dst' = ''abcde'' \<and> cstr dst' \<noteq> ''abcdef''"
  using strlcat_contract [of "''cdef'' @ [NUL]" 6 "''ab'' @ [NUL] @ ''....''"]
  by (auto simp: terminated_def cstr_def)

end
