(* ===== verification/Tunnel.thy ===== *)
theory Tunnel
  imports Buffer Cstring
begin

text \<open>
  The data of the daemon (\<^verbatim>\<open>src/mlvpn.h\<close>): the authentication status, the options and status
  blocks, and \<^verbatim>\<open>mlvpn_tunnel_t\<close> with what libev keeps for it (whether its watchers are active and the
  repeat of its timer). Fixed \<^verbatim>\<open>char\<close> arrays are the strings they hold; setting one with
  \<^verbatim>\<open>strlcpy\<close> truncates (\<open>fit\<close>, see the contract of \<^verbatim>\<open>strlcpy\<close>).
\<close>

definition fit :: "nat \<Rightarrow> string \<Rightarrow> string" where
  "fit n s = take (n - 1) s"

lemma length_fit: "0 < n \<Longrightarrow> length (fit n s) < n"
  by (simp add: fit_def)

abbreviation (input) MLVPN_MAXHNAMSTR :: nat where "MLVPN_MAXHNAMSTR \<equiv> 256"
abbreviation (input) MLVPN_MAXPORTSTR :: nat where "MLVPN_MAXPORTSTR \<equiv> 6"
abbreviation (input) MLVPN_IFNAMSIZ :: nat where "MLVPN_IFNAMSIZ \<equiv> 16"
abbreviation (input) PKTBUFSIZE :: nat where "PKTBUFSIZE \<equiv> 1024"
abbreviation (input) MLVPN_IO_TIMEOUT_DEFAULT :: double where "MLVPN_IO_TIMEOUT_DEFAULT \<equiv> 1"
abbreviation (input) MLVPN_IO_TIMEOUT_MAXIMUM :: double where "MLVPN_IO_TIMEOUT_MAXIMUM \<equiv> 60"
abbreviation (input) MLVPN_IO_TIMEOUT_INCREMENT :: double where "MLVPN_IO_TIMEOUT_INCREMENT \<equiv> 2"
abbreviation (input) MLVPN_PROTOCOL_VERSION :: nat where "MLVPN_PROTOCOL_VERSION \<equiv> 1"

section \<open>Authentication status\<close>

datatype chap_status =
    MLVPN_DISCONNECTED
  | MLVPN_AUTHSENT
  | MLVPN_AUTHOK
  | MLVPN_LOSSY
  | MLVPN_HIGH_LATENCY

text \<open>The value of the enumeration constant; the code compares statuses with \<open><\<close> and \<open>>=\<close>.\<close>

fun chap_value :: "chap_status \<Rightarrow> nat" where
  "chap_value MLVPN_DISCONNECTED = 0"
| "chap_value MLVPN_AUTHSENT = 1"
| "chap_value MLVPN_AUTHOK = 2"
| "chap_value MLVPN_LOSSY = 3"
| "chap_value MLVPN_HIGH_LATENCY = 4"

lemma chap_value_inject: "chap_value a = chap_value b \<longleftrightarrow> a = b"
  by (cases a; cases b) simp_all

instantiation chap_status :: linorder
begin
definition less_eq_chap_status :: "chap_status \<Rightarrow> chap_status \<Rightarrow> bool" where
  "less_eq_chap_status a b = (chap_value a \<le> chap_value b)"
definition less_chap_status :: "chap_status \<Rightarrow> chap_status \<Rightarrow> bool" where
  "less_chap_status a b = (chap_value a < chap_value b)"
instance
  by standard (auto simp: less_eq_chap_status_def less_chap_status_def chap_value_inject)
end

lemmas chap_order = less_eq_chap_status_def less_chap_status_def

lemma authok_le_cases:
  "MLVPN_AUTHOK \<le> s \<longleftrightarrow> s = MLVPN_AUTHOK \<or> s = MLVPN_LOSSY \<or> s = MLVPN_HIGH_LATENCY"
  by (cases s) (auto simp: chap_order)

lemma authok_le_simps [simp]:
  "MLVPN_AUTHOK \<le> MLVPN_LOSSY" "MLVPN_AUTHOK \<le> MLVPN_HIGH_LATENCY"
  "\<not> MLVPN_AUTHOK \<le> MLVPN_DISCONNECTED" "\<not> MLVPN_AUTHOK \<le> MLVPN_AUTHSENT"
  by (simp_all add: authok_le_cases)

section \<open>Options and status\<close>

record mlvpn_options_s =
  opt_change_process_title :: bool
  opt_process_name :: string
  opt_control_unix_path :: string
  opt_control_bind_host :: string
  opt_control_bind_port :: string
  opt_config_path :: string
  opt_ip4 :: string
  opt_ip6 :: string
  opt_ip4_gateway :: string
  opt_ip6_gateway :: string
  opt_ip4_routes :: string
  opt_ip6_routes :: string
  opt_mtu :: int
  opt_config_fd :: int
  opt_verbose :: int
  opt_debug :: int
  opt_unpriv_user :: string
  opt_cleartext_data :: bool
  opt_root_allowed :: bool
  opt_reorder_buffer_size :: u32
  opt_fallback_available :: u32

text \<open>The initialisers of \<^verbatim>\<open>mlvpn.c\<close>.\<close>

definition mlvpn_options_init :: mlvpn_options_s where
  "mlvpn_options_init = \<lparr>
     opt_change_process_title = True, opt_process_name = ''mlvpn'', opt_control_unix_path = '''',
     opt_control_bind_host = '''', opt_control_bind_port = '''', opt_config_path = ''mlvpn.conf'',
     opt_ip4 = '''', opt_ip6 = '''', opt_ip4_gateway = '''', opt_ip6_gateway = '''',
     opt_ip4_routes = '''', opt_ip6_routes = '''', opt_mtu = 0, opt_config_fd = - 1,
     opt_verbose = 2, opt_debug = 0, opt_unpriv_user = ''mlvpn'', opt_cleartext_data = True,
     opt_root_allowed = False, opt_reorder_buffer_size = 0, opt_fallback_available = 0\<rparr>"

record mlvpn_status_s =
  st_fallback_mode :: int
  st_connected :: int
  st_initialized :: int
  st_start_time :: int
  st_last_reload :: int

definition mlvpn_status_init :: mlvpn_status_s where
  "mlvpn_status_init = \<lparr>st_fallback_mode = 0, st_connected = 0, st_initialized = 0,
     st_start_time = 0, st_last_reload = 0\<rparr>"

section \<open>Tunnels\<close>

record addrinfo =
  ai_family :: int
  ai_socktype :: int
  ai_protocol :: int
  ai_addr :: bytes

record mlvpn_tunnel_t =
  t_name :: "string option"
  t_bindaddr :: string
  t_bindport :: string
  t_bindfib :: u32
  t_destaddr :: string
  t_destport :: string
  t_fd :: int
  t_server_mode :: bool
  t_disconnects :: int
  t_conn_attempts :: int
  t_fallback_only :: int
  t_loss_tolerence :: u32
  t_latency_tolerence :: u32
  t_seq :: u64
  t_expected_receiver_seq :: u64
  t_saved_timestamp :: u64
  t_saved_timestamp_received_at :: u64
  t_seq_last :: u64
  t_seq_vect :: u64
  t_rtt_hit :: bool
  t_srtt :: double
  t_rttvar :: double
  t_weight :: double
  t_flow_id :: u32
  t_sentpackets :: u64
  t_recvpackets :: u64
  t_sentbytes :: u64
  t_recvbytes :: u64
  t_timeout :: u32
  t_bandwidth :: u32
  t_sbuf :: circular_buffer_t
  t_hpsbuf :: circular_buffer_t
  t_addrinfo :: "addrinfo list"
  t_status :: chap_status
  t_last_activity :: double
  t_last_connection_attempt :: double
  t_next_keepalive :: double
  t_last_keepalive_ack :: double
  t_last_keepalive_ack_sent :: double
  t_io_read :: bool
  t_io_write :: bool
  t_io_timeout :: bool
  t_io_timeout_repeat :: double

text \<open>
  \<open>t_addrinfo\<close> is the linked list of addresses, NULL is \<open>[]\<close>. The last four fields are the state of the
  watchers: \<open>t_io_read\<close>, \<open>t_io_write\<close> and \<open>t_io_timeout\<close> say whether they are active.
\<close>

definition authenticated :: "mlvpn_tunnel_t \<Rightarrow> bool" where
  "authenticated t \<longleftrightarrow> MLVPN_AUTHOK \<le> t_status t"

text \<open>A structure filled with zeroes by \<^verbatim>\<open>calloc\<close>.\<close>

definition tunnel_zero :: mlvpn_tunnel_t where
  "tunnel_zero = \<lparr>
     t_name = None, t_bindaddr = '''', t_bindport = '''', t_bindfib = 0, t_destaddr = '''',
     t_destport = '''', t_fd = 0, t_server_mode = False, t_disconnects = 0, t_conn_attempts = 0,
     t_fallback_only = 0, t_loss_tolerence = 0, t_latency_tolerence = 0, t_seq = 0,
     t_expected_receiver_seq = 0, t_saved_timestamp = 0, t_saved_timestamp_received_at = 0,
     t_seq_last = 0, t_seq_vect = 0, t_rtt_hit = False, t_srtt = 0, t_rttvar = 0, t_weight = 0,
     t_flow_id = 0, t_sentpackets = 0, t_recvpackets = 0, t_sentbytes = 0, t_recvbytes = 0,
     t_timeout = 0, t_bandwidth = 0, t_sbuf = mlvpn_pktbuffer_init 0, t_hpsbuf = mlvpn_pktbuffer_init 0,
     t_addrinfo = [], t_status = MLVPN_DISCONNECTED, t_last_activity = 0,
     t_last_connection_attempt = 0, t_next_keepalive = 0, t_last_keepalive_ack = 0,
     t_last_keepalive_ack_sent = 0, t_io_read = False, t_io_write = False, t_io_timeout = False,
     t_io_timeout_repeat = 0\<rparr>"

end
