(* ===== verification/Wrr.thy ===== *)
theory Wrr
  imports Tunnel
begin

text \<open>
  The weighted round robin scheduler of \<^verbatim>\<open>src/wrr.c\<close> and the weights it uses
  (\<^verbatim>\<open>mlvpn_rtun_recalc_weight\<close> of \<^verbatim>\<open>src/mlvpn.c\<close>). A tunnel is its index in the tunnel table; the arrays of
  \<^verbatim>\<open>struct mlvpn_wrr\<close> are lists of length \<^verbatim>\<open>len\<close>. Main result: as long as the weights add up to at most
  100, no tunnel of the scheduler is starved, with an explicit bound on how long it may wait.
\<close>

abbreviation MAX_TUNNELS :: nat where "MAX_TUNNELS \<equiv> 128"

record mlvpn_wrr =
  wrr_tunnel :: "nat list"
  wrr_tunval :: "double list"

definition wrr_init :: mlvpn_wrr where
  "wrr_init = \<lparr>wrr_tunnel = [], wrr_tunval = []\<rparr>"

text \<open>\<open>min_from i min_index least vals\<close>: the loop from index \<open>i\<close> on, \<open>vals\<close> the values from there.\<close>

fun min_from :: "nat \<Rightarrow> nat \<Rightarrow> double \<Rightarrow> double list \<Rightarrow> nat" where
  "min_from i min_index least [] = min_index"
| "min_from i min_index least (v # vs) =
     (if v < least then min_from (Suc i) i v vs else min_from (Suc i) min_index least vs)"

definition wrr_min_index :: "mlvpn_wrr \<Rightarrow> nat" where
  "wrr_min_index w = min_from 0 0 100 (wrr_tunval w)"

definition wrr_eligible :: "int \<Rightarrow> mlvpn_tunnel_t \<Rightarrow> bool" where
  "wrr_eligible use_fallbacks t \<longleftrightarrow> t_fallback_only t = use_fallbacks \<and>
     (t_fallback_only t \<noteq> 0 \<and> MLVPN_AUTHOK \<le> t_status t \<or> t_status t = MLVPN_AUTHOK)"

definition mlvpn_rtun_wrr_reset :: "(nat \<Rightarrow> mlvpn_tunnel_t) \<Rightarrow> nat list \<Rightarrow> int \<Rightarrow> mlvpn_wrr outcome" where
  "mlvpn_rtun_wrr_reset tuns head use_fallbacks =
     ofold (\<lambda>w i.
         if wrr_eligible use_fallbacks (tuns i)
         then if MAX_TUNNELS \<le> length (wrr_tunnel w) then Fatal ''You have too many tunnels declared''
              else Ok \<lparr>wrr_tunnel = wrr_tunnel w @ [i], wrr_tunval = wrr_tunval w @ [0]\<rparr>
         else Ok w)
       wrr_init head"

text \<open>Every positive value is lowered by one, then the chosen one is set from its weight.\<close>

definition wrr_decrease :: "double \<Rightarrow> double" where
  "wrr_decrease v = (if 0 < v then v - 1 else v)"

definition mlvpn_rtun_wrr_choose :: "(nat \<Rightarrow> mlvpn_tunnel_t) \<Rightarrow> mlvpn_wrr \<Rightarrow> nat option \<times> mlvpn_wrr" where
  "mlvpn_rtun_wrr_choose tuns w =
     (if wrr_tunnel w = [] then (None, w)
      else let idx = wrr_min_index w; t = wrr_tunnel w ! idx
           in (Some t, w\<lparr>wrr_tunval := (map wrr_decrease (wrr_tunval w))[idx := 100 / t_weight (tuns t)]\<rparr>))"

text \<open>\<^verbatim>\<open>mlvpn_rtun_recalc_weight\<close>: the total wraps at 32 bits, as \<^verbatim>\<open>bandwidth_total\<close> does.\<close>

definition bandwidth_total :: "(nat \<Rightarrow> mlvpn_tunnel_t) \<Rightarrow> nat list \<Rightarrow> u32" where
  "bandwidth_total tuns rtuns = foldl (\<lambda>s i. s + t_bandwidth (tuns i)) 0 rtuns"

definition mlvpn_rtun_recalc_weight ::
  "(nat \<Rightarrow> mlvpn_tunnel_t) \<Rightarrow> nat list \<Rightarrow> nat \<Rightarrow> mlvpn_tunnel_t" where
  "mlvpn_rtun_recalc_weight tuns rtuns =
     (let total = bandwidth_total tuns rtuns;
          warned = length (filter (\<lambda>i. t_bandwidth (tuns i) = 0) rtuns)
      in if warned = 0
         then foldl (\<lambda>ts i.
             if 0 < t_bandwidth (ts i) \<and> 0 < total
             then ts(i := (ts i)\<lparr>t_weight := of_nat (unat (t_bandwidth (ts i))) / of_nat (unat total) * 100\<rparr>)
             else ts) tuns rtuns
         else tuns)"

section \<open>Resetting\<close>

lemma wrr_reset_fold:
  assumes "ofold (\<lambda>w i.
         if wrr_eligible f (tuns i)
         then if MAX_TUNNELS \<le> length (wrr_tunnel w) then Fatal ''You have too many tunnels declared''
              else Ok \<lparr>wrr_tunnel = wrr_tunnel w @ [i], wrr_tunval = wrr_tunval w @ [0]\<rparr>
         else Ok w) w head = Ok w'"
  shows "wrr_tunnel w' = wrr_tunnel w @ filter (\<lambda>i. wrr_eligible f (tuns i)) head \<and>
    wrr_tunval w' = wrr_tunval w @ replicate (length (filter (\<lambda>i. wrr_eligible f (tuns i)) head)) 0"
  using assms by (induction head arbitrary: w) (auto split: if_splits)

lemma wrr_reset_Ok:
  assumes "mlvpn_rtun_wrr_reset tuns head f = Ok w"
  shows "wrr_tunnel w = filter (\<lambda>i. wrr_eligible f (tuns i)) head"
    and "wrr_tunval w = replicate (length (wrr_tunnel w)) 0"
  using wrr_reset_fold [OF assms [unfolded mlvpn_rtun_wrr_reset_def]] by (simp_all add: wrr_init_def)

lemma wrr_reset_few:
  assumes "length head \<le> MAX_TUNNELS"
  shows "\<exists>w. mlvpn_rtun_wrr_reset tuns head f = Ok w"
proof -
  have "length (wrr_tunnel w) + length head \<le> MAX_TUNNELS \<Longrightarrow> \<exists>w'. ofold (\<lambda>w i.
         if wrr_eligible f (tuns i)
         then if MAX_TUNNELS \<le> length (wrr_tunnel w) then Fatal ''You have too many tunnels declared''
              else Ok \<lparr>wrr_tunnel = wrr_tunnel w @ [i], wrr_tunval = wrr_tunval w @ [0]\<rparr>
         else Ok w) w head = Ok w'" for w
    by (induction head arbitrary: w) auto
  then show ?thesis using assms unfolding mlvpn_rtun_wrr_reset_def by (simp add: wrr_init_def)
qed

lemma wrr_eligible_authenticated: "wrr_eligible f t \<Longrightarrow> authenticated t"
  by (auto simp: wrr_eligible_def authenticated_def)

section \<open>Choosing the least value\<close>

lemma min_from_none: "\<forall>v \<in> set vs. x \<le> v \<Longrightarrow> min_from i m x vs = m"
  by (induction vs arbitrary: i) (auto simp: not_less)

text \<open>The index found is the least value when one is below the start value.\<close>

lemma min_from_least:
  "\<exists>v \<in> set vs. v < x \<Longrightarrow> \<exists>k. min_from i m x vs = i + k \<and> k < length vs \<and> vs ! k < x \<and>
     (\<forall>v \<in> set vs. vs ! k \<le> v)"
proof (induction vs arbitrary: i m x)
  case (Cons v vs)
  show ?case
  proof (cases "v < x")
    case True
    show ?thesis
    proof (cases "\<exists>u \<in> set vs. u < v")
      case True
      from Cons.IH [OF this, of "Suc i" i] obtain k where
        "min_from (Suc i) i v vs = Suc i + k" "k < length vs" "vs ! k < v" "\<forall>u \<in> set vs. vs ! k \<le> u" by blast
      then show ?thesis using \<open>v < x\<close> by (intro exI [of _ "Suc k"]) auto
    next
      case False
      then show ?thesis using \<open>v < x\<close> min_from_none [of vs v "Suc i" i] by (intro exI [of _ 0]) (auto simp: not_less)
    qed
  next
    case False
    then have "\<exists>u \<in> set vs. u < x" using Cons.prems by auto
    from Cons.IH [OF this, of "Suc i" m] obtain k where
      "min_from (Suc i) m x vs = Suc i + k" "k < length vs" "vs ! k < x" "\<forall>u \<in> set vs. vs ! k \<le> u" by blast
    then show ?thesis using False by (intro exI [of _ "Suc k"]) auto
  qed
qed simp

definition wrr_wf :: "mlvpn_wrr \<Rightarrow> bool" where
  "wrr_wf w \<longleftrightarrow> length (wrr_tunval w) = length (wrr_tunnel w)"

lemma wrr_min_index_less: "wrr_wf w \<Longrightarrow> wrr_tunnel w \<noteq> [] \<Longrightarrow> wrr_min_index w < length (wrr_tunnel w)"
  using min_from_none [of "wrr_tunval w" 100 0 0] min_from_least [of "wrr_tunval w" 100 0 0]
  by (cases "\<exists>v \<in> set (wrr_tunval w). v < 100") (auto simp: wrr_min_index_def wrr_wf_def not_less)

lemma wrr_min_index_least:
  assumes "v \<in> set (wrr_tunval w)" and "v < 100"
  shows "wrr_tunval w ! wrr_min_index w \<le> v"
  using assms min_from_least [of "wrr_tunval w" 100 0 0] by (auto simp: wrr_min_index_def)

lemma wrr_choose_wf: "wrr_wf w \<Longrightarrow> wrr_wf (snd (mlvpn_rtun_wrr_choose tuns w))"
  by (simp add: wrr_wf_def mlvpn_rtun_wrr_choose_def Let_def)

lemma wrr_choose_tunnels [simp]: "wrr_tunnel (snd (mlvpn_rtun_wrr_choose tuns w)) = wrr_tunnel w"
  by (simp add: mlvpn_rtun_wrr_choose_def Let_def)

lemma wrr_choose_in:
  "wrr_wf w \<Longrightarrow> mlvpn_rtun_wrr_choose tuns w = (Some t, w') \<Longrightarrow> t \<in> set (wrr_tunnel w)"
  using wrr_min_index_less [of w] by (auto simp: mlvpn_rtun_wrr_choose_def Let_def split: if_splits)

lemma wrr_choose_None_iff: "fst (mlvpn_rtun_wrr_choose tuns w) = None \<longleftrightarrow> wrr_tunnel w = []"
  by (simp add: mlvpn_rtun_wrr_choose_def Let_def)

lemma wrr_reset_wf: "mlvpn_rtun_wrr_reset tuns head f = Ok w \<Longrightarrow> wrr_wf w"
  using wrr_reset_Ok(2) [of tuns head f w] by (simp add: wrr_wf_def)

section \<open>No starvation\<close>

abbreviation wval :: "mlvpn_wrr \<Rightarrow> nat \<Rightarrow> double" where
  "wval w i \<equiv> wrr_tunval w ! i"

text \<open>The share of the choices a tunnel is meant to get.\<close>

definition share :: "(nat \<Rightarrow> mlvpn_tunnel_t) \<Rightarrow> mlvpn_wrr \<Rightarrow> nat \<Rightarrow> rat" where
  "share tuns w i = t_weight (tuns (wrr_tunnel w ! i)) / 100"

text \<open>Positive weights that add up to at most 100, and values between \<open>-1\<close> and what a choice sets.\<close>

definition wrr_ok :: "(nat \<Rightarrow> mlvpn_tunnel_t) \<Rightarrow> mlvpn_wrr \<Rightarrow> bool" where
  "wrr_ok tuns w \<longleftrightarrow> wrr_wf w \<and>
     (\<forall>i<length (wrr_tunnel w). 0 < share tuns w i \<and> - 1 < wval w i \<and> wval w i \<le> 1 / share tuns w i) \<and>
     (\<Sum>i<length (wrr_tunnel w). share tuns w i) \<le> 1"

abbreviation wrr_next :: "(nat \<Rightarrow> mlvpn_tunnel_t) \<Rightarrow> mlvpn_wrr \<Rightarrow> mlvpn_wrr" where
  "wrr_next tuns w \<equiv> snd (mlvpn_rtun_wrr_choose tuns w)"

lemma share_next [simp]: "share tuns (wrr_next tuns w) i = share tuns w i"
  by (simp add: share_def)

lemma wval_next:
  assumes "wrr_wf w" and "i < length (wrr_tunnel w)"
  shows "wval (wrr_next tuns w) i =
    (if i = wrr_min_index w then 1 / share tuns w i else wrr_decrease (wval w i))"
  using assms by (auto simp: mlvpn_rtun_wrr_choose_def Let_def share_def wrr_wf_def)

lemma wrr_ok_next: "wrr_ok tuns w \<Longrightarrow> wrr_ok tuns (wrr_next tuns w)"
proof -
  assume ok: "wrr_ok tuns w"
  have "- 1 < wval (wrr_next tuns w) i \<and> wval (wrr_next tuns w) i \<le> 1 / share tuns w i"
    if i: "i < length (wrr_tunnel w)" for i
  proof -
    have b: "0 < share tuns w i" "- 1 < wval w i" "wval w i \<le> 1 / share tuns w i" "wrr_wf w"
      using ok i by (auto simp: wrr_ok_def)
    moreover have "0 < 1 / share tuns w i" using b(1) by simp
    ultimately show ?thesis using i by (auto simp: wval_next wrr_decrease_def)
  qed
  then show ?thesis using ok wrr_choose_wf by (simp add: wrr_ok_def)
qed

lemma wrr_choose_index:
  "wrr_tunnel w \<noteq> [] \<Longrightarrow> fst (mlvpn_rtun_wrr_choose tuns w) = Some (wrr_tunnel w ! wrr_min_index w)"
  by (simp add: mlvpn_rtun_wrr_choose_def Let_def)

text \<open>How far the other tunnels are from their next turn, in shares.\<close>

definition pressure :: "(nat \<Rightarrow> mlvpn_tunnel_t) \<Rightarrow> mlvpn_wrr \<Rightarrow> nat \<Rightarrow> rat" where
  "pressure tuns w j = (\<Sum>i<length (wrr_tunnel w). if i = j then 0 else share tuns w i * wval w i)"

lemma pressure_bounds:
  assumes "wrr_ok tuns w"
  shows "- 1 \<le> pressure tuns w j" and "pressure tuns w j \<le> of_nat (length (wrr_tunnel w))"
proof -
  let ?n = "length (wrr_tunnel w)"
  have s: "0 < share tuns w i" "- 1 < wval w i" "wval w i \<le> 1 / share tuns w i" if "i < ?n" for i
    using assms that by (auto simp: wrr_ok_def)
  have up: "share tuns w i * wval w i \<le> 1" if "i < ?n" for i
    using mult_left_mono [OF s(3) [OF that], of "share tuns w i"] s(1) [OF that] by simp
  have low: "- share tuns w i \<le> share tuns w i * wval w i" if "i < ?n" for i
    using mult_left_mono [of "- 1" "wval w i" "share tuns w i"] s [OF that] by simp
  have "pressure tuns w j \<le> (\<Sum>i<?n. 1)"
    unfolding pressure_def by (rule sum_mono) (use up in auto)
  then show "pressure tuns w j \<le> of_nat ?n" by simp
  have "(\<Sum>i<?n. - share tuns w i) \<le> pressure tuns w j"
    unfolding pressure_def
  proof (rule sum_mono)
    fix i assume "i \<in> {..<?n}"
    then have i: "i < ?n" by simp
    show "- share tuns w i \<le> (if i = j then 0 else share tuns w i * wval w i)"
      using low [OF i] s(1) [OF i] by auto
  qed
  moreover have "(\<Sum>i<?n. - share tuns w i) = - (\<Sum>i<?n. share tuns w i)" by (rule sum_negf)
  moreover have "(\<Sum>i<?n. share tuns w i) \<le> 1" using assms by (simp add: wrr_ok_def)
  ultimately show "- 1 \<le> pressure tuns w j" by linarith
qed

lemma pressure_rises:
  assumes ok: "wrr_ok tuns w" and j: "j < length (wrr_tunnel w)" "wval w j \<le> 0"
    and k: "wrr_min_index w \<noteq> j"
  shows "pressure tuns w j + share tuns w j \<le> pressure tuns (wrr_next tuns w) j"
proof -
  let ?n = "length (wrr_tunnel w)" and ?k = "wrr_min_index w" and ?c = "share tuns w"
  have wf: "wrr_wf w" using ok by (simp add: wrr_ok_def)
  have kn: "?k < ?n" using wrr_min_index_less [OF wf] j(1) by fastforce
  have c: "0 < ?c i" if "i < ?n" for i using ok that by (simp add: wrr_ok_def)
  have "wval w j \<in> set (wrr_tunval w)" using j(1) wf by (simp add: wrr_wf_def)
  then have k0: "wval w ?k \<le> 0" using wrr_min_index_least [of "wval w j" w] j(2) by simp
  let ?g = "\<lambda>i. - ?c i + (if i = j then ?c j else 0) + (if i = ?k then 1 + ?c ?k else 0)"
  have "(\<Sum>i<?n. ?g i) \<le> pressure tuns (wrr_next tuns w) j - pressure tuns w j"
    unfolding pressure_def sum_subtractf [symmetric] wrr_choose_tunnels share_next
  proof (rule sum_mono)
    fix i assume "i \<in> {..<?n}"
    then have i: "i < ?n" by simp
    have "?c ?k * wval w ?k \<le> 0" using k0 c [OF kn] by (simp add: mult_nonneg_nonpos)
    moreover have "- ?c i \<le> ?c i * (wrr_decrease (wval w i) - wval w i)"
      using c [OF i] by (simp add: wrr_decrease_def)
    ultimately show "?g i \<le> (if i = j then 0 else ?c i * wval (wrr_next tuns w) i) -
        (if i = j then 0 else ?c i * wval w i)"
      using i k c [OF kn] by (auto simp: wval_next [OF wf] algebra_simps)
  qed
  moreover have "(\<Sum>i<?n. ?g i) = - (\<Sum>i<?n. ?c i) + ?c j + (1 + ?c ?k)"
    using j(1) kn by (simp add: sum.distrib sum_negf sum_subtractf)
  moreover have "(\<Sum>i<?n. ?c i) \<le> 1" using ok by (simp add: wrr_ok_def)
  ultimately show ?thesis using c [OF kn] by linarith
qed

definition wrr_iter :: "(nat \<Rightarrow> mlvpn_tunnel_t) \<Rightarrow> nat \<Rightarrow> mlvpn_wrr \<Rightarrow> mlvpn_wrr" where
  "wrr_iter tuns n w = (wrr_next tuns ^^ n) w"

lemma wrr_iter_0 [simp]: "wrr_iter tuns 0 w = w"
  by (simp add: wrr_iter_def)

lemma wrr_iter_Suc: "wrr_iter tuns (Suc n) w = wrr_next tuns (wrr_iter tuns n w)"
  by (simp add: wrr_iter_def)

lemma wrr_iter_add: "wrr_iter tuns (m + n) w = wrr_iter tuns n (wrr_iter tuns m w)"
  by (simp add: wrr_iter_def funpow_add add.commute [of m])

lemma wrr_iter_tunnels [simp]: "wrr_tunnel (wrr_iter tuns n w) = wrr_tunnel w"
  by (induction n) (simp_all add: wrr_iter_Suc)

lemma share_iter [simp]: "share tuns (wrr_iter tuns n w) i = share tuns w i"
  by (simp add: share_def)

lemma wrr_ok_iter: "wrr_ok tuns w \<Longrightarrow> wrr_ok tuns (wrr_iter tuns n w)"
  by (induction n) (simp_all add: wrr_iter_Suc wrr_ok_next)

lemma waiting_value:
  assumes "wrr_ok tuns w" and "j < length (wrr_tunnel w)"
    and "\<forall>i<n. wrr_min_index (wrr_iter tuns i w) \<noteq> j"
  shows "wval (wrr_iter tuns n w) j \<le> max 0 (wval w j - of_nat n)"
  using assms(3)
proof (induction n)
  case (Suc n)
  have "wrr_wf (wrr_iter tuns n w)" using wrr_ok_iter [OF assms(1)] by (simp add: wrr_ok_def)
  moreover have "j \<noteq> wrr_min_index (wrr_iter tuns n w)" using Suc.prems by blast
  ultimately have "wval (wrr_iter tuns (Suc n) w) j = wrr_decrease (wval (wrr_iter tuns n w) j)"
    using assms(2) by (simp add: wrr_iter_Suc wval_next)
  moreover have "wval (wrr_iter tuns n w) j \<le> max 0 (wval w j - of_nat n)" using Suc by simp
  ultimately show ?case by (auto simp: wrr_decrease_def max_def split: if_splits)
qed simp

lemma waiting_pressure:
  assumes "wrr_ok tuns w" and "j < length (wrr_tunnel w)" and "wval w j \<le> 0"
    and "\<forall>i<n. wrr_min_index (wrr_iter tuns i w) \<noteq> j"
  shows "pressure tuns w j + of_nat n * share tuns w j \<le> pressure tuns (wrr_iter tuns n w) j"
  using assms(4)
proof (induction n)
  case (Suc n)
  let ?w = "wrr_iter tuns n w"
  have "wval ?w j \<le> 0" using waiting_value [OF assms(1,2), of n] Suc.prems assms(3) by simp
  then have "pressure tuns ?w j + share tuns w j \<le> pressure tuns (wrr_next tuns ?w) j"
    using pressure_rises [OF wrr_ok_iter [OF assms(1)], of j n] assms(2) Suc.prems by simp
  moreover have "pressure tuns w j + of_nat n * share tuns w j \<le> pressure tuns ?w j" using Suc by simp
  ultimately show ?case by (simp add: wrr_iter_Suc algebra_simps)
qed simp

lemma waiting_bound:
  assumes ok: "wrr_ok tuns w" and j: "j < length (wrr_tunnel w)"
    and wait: "\<forall>i<n. wrr_min_index (wrr_iter tuns i w) \<noteq> j"
  shows "of_nat n * share tuns w j \<le> of_nat (length (wrr_tunnel w)) + 2 + share tuns w j"
proof (rule ccontr)
  let ?c = "share tuns w j" and ?l = "of_nat (length (wrr_tunnel w)) :: rat"
  assume "\<not> of_nat n * ?c \<le> ?l + 2 + ?c"
  then have n: "?l + 2 + ?c < of_nat n * ?c" by simp
  have c: "0 < ?c" "wval w j \<le> 1 / ?c" using ok j by (auto simp: wrr_ok_def)
  define m where "m = nat \<lceil>1 / ?c\<rceil>"
  have m: "1 / ?c \<le> of_nat m" "of_nat m \<le> 1 / ?c + 1"
    using c(1) of_nat_ceiling [of "1 / ?c"] ceiling_correct [of "1 / ?c"] by (auto simp: m_def less_imp_le)
  have mc: "of_nat m * ?c \<le> 1 + ?c"
    using mult_right_mono [OF m(2), of ?c] c(1) by (simp add: algebra_simps)
  have "of_nat m * ?c < of_nat n * ?c" using mc n by (simp add: add_strict_increasing2)
  then have mn: "m < n" using c(1) by simp
  let ?w = "wrr_iter tuns m w"
  have v: "wval ?w j \<le> 0" using waiting_value [OF ok j, of m] wait mn m(1) c(2) by (simp add: max_def split: if_splits)
  have "wrr_min_index (wrr_iter tuns i ?w) \<noteq> j" if "i < n - m" for i
    using wait that by (simp add: wrr_iter_add [symmetric])
  then have p: "pressure tuns ?w j + of_nat (n - m) * ?c \<le> pressure tuns (wrr_iter tuns (n - m) ?w) j"
    using waiting_pressure [OF wrr_ok_iter [OF ok] _ v, of "n - m"] j by simp
  have "of_nat (n - m) * ?c \<le> ?l + 1"
    using p pressure_bounds(1) [OF wrr_ok_iter [OF ok, of m], of j]
      pressure_bounds(2) [OF wrr_ok_iter [OF wrr_ok_iter [OF ok, of m], of "n - m"], of j] by simp
  moreover have "of_nat (n - m) * ?c = of_nat n * ?c - of_nat m * ?c"
    using mn by (simp add: of_nat_diff algebra_simps)
  ultimately show False using mc n by linarith
qed

section \<open>Weights\<close>

definition reweighted :: "u32 \<Rightarrow> mlvpn_tunnel_t \<Rightarrow> mlvpn_tunnel_t" where
  "reweighted bt t = t\<lparr>t_weight := of_nat (unat (t_bandwidth t)) / of_nat (unat bt) * 100\<rparr>"

lemma recalc_fold:
  "foldl (\<lambda>ts i.
      if 0 < t_bandwidth (ts i) \<and> 0 < bt
      then ts(i := (ts i)\<lparr>t_weight := of_nat (unat (t_bandwidth (ts i))) / of_nat (unat bt) * 100\<rparr>)
      else ts) tuns rtuns =
   (\<lambda>i. if i \<in> set rtuns \<and> 0 < t_bandwidth (tuns i) \<and> 0 < bt then reweighted bt (tuns i) else tuns i)"
proof (induction rtuns arbitrary: tuns)
  case (Cons j rtuns)
  show ?case unfolding foldl_Cons Cons.IH by (auto simp: fun_eq_iff reweighted_def)
qed simp

lemma bandwidth_total_unat:
  assumes "(\<Sum>i\<leftarrow>rtuns. unat (t_bandwidth (tuns i))) < 2 ^ 32"
  shows "unat (bandwidth_total tuns rtuns) = (\<Sum>i\<leftarrow>rtuns. unat (t_bandwidth (tuns i)))"
proof -
  have "foldl (\<lambda>s i. s + t_bandwidth (tuns i)) s rtuns = s + of_nat (\<Sum>i\<leftarrow>rtuns. unat (t_bandwidth (tuns i)))" for s
    by (induction rtuns arbitrary: s) (simp_all add: add.assoc)
  then have "bandwidth_total tuns rtuns = of_nat (\<Sum>i\<leftarrow>rtuns. unat (t_bandwidth (tuns i)))"
    by (simp add: bandwidth_total_def)
  then show ?thesis using assms by (simp only: unat_of_nat) simp
qed

lemma recalc_weight_spec:
  assumes bw: "\<forall>i \<in> set rtuns. 0 < t_bandwidth (tuns i)" and i: "i \<in> set rtuns"
    and sum: "(\<Sum>i\<leftarrow>rtuns. unat (t_bandwidth (tuns i))) < 2 ^ 32"
  shows "mlvpn_rtun_recalc_weight tuns rtuns i = reweighted (bandwidth_total tuns rtuns) (tuns i)"
    and "0 < unat (bandwidth_total tuns rtuns)"
proof -
  have "unat (t_bandwidth (tuns i)) \<le> (\<Sum>i\<leftarrow>rtuns. unat (t_bandwidth (tuns i)))"
    using i by (intro member_le_sum_list) auto
  moreover have "0 < unat (t_bandwidth (tuns i))" using bw i by (simp add: word_less_nat_alt)
  ultimately show total: "0 < unat (bandwidth_total tuns rtuns)" unfolding bandwidth_total_unat [OF sum] by linarith
  have "filter (\<lambda>i. t_bandwidth (tuns i) = 0) rtuns = []" using bw by (auto simp: filter_empty_conv)
  moreover have "0 < bandwidth_total tuns rtuns" using total by (simp add: word_less_nat_alt)
  ultimately show "mlvpn_rtun_recalc_weight tuns rtuns i = reweighted (bandwidth_total tuns rtuns) (tuns i)"
    using bw i by (simp add: mlvpn_rtun_recalc_weight_def recalc_fold)
qed

lemma recalc_weight_sum:
  assumes bw: "\<forall>i \<in> set rtuns. 0 < t_bandwidth (tuns i)" and ne: "rtuns \<noteq> []"
    and sum: "(\<Sum>i\<leftarrow>rtuns. unat (t_bandwidth (tuns i))) < 2 ^ 32"
  shows "(\<Sum>i\<leftarrow>rtuns. t_weight (mlvpn_rtun_recalc_weight tuns rtuns i)) = 100"
proof -
  let ?t = "of_nat (unat (bandwidth_total tuns rtuns)) :: rat"
  obtain i where "i \<in> set rtuns" using ne by (cases rtuns) auto
  then have "0 < unat (bandwidth_total tuns rtuns)" using recalc_weight_spec(2) [OF bw _ sum] by blast
  then have t: "?t \<noteq> 0" by (simp only: of_nat_eq_0_iff)
  have "map (\<lambda>i. t_weight (mlvpn_rtun_recalc_weight tuns rtuns i)) rtuns =
      map (\<lambda>i. of_nat (unat (t_bandwidth (tuns i))) * (100 / ?t)) rtuns"
    using recalc_weight_spec(1) [OF bw _ sum] by (intro map_cong) (auto simp: reweighted_def)
  then have "(\<Sum>i\<leftarrow>rtuns. t_weight (mlvpn_rtun_recalc_weight tuns rtuns i)) =
      (\<Sum>i\<leftarrow>rtuns. of_nat (unat (t_bandwidth (tuns i)))) * (100 / ?t)"
    by (simp only: sum_list_mult_const)
  also have "(\<Sum>i\<leftarrow>rtuns. of_nat (unat (t_bandwidth (tuns i)))) = ?t"
    unfolding bandwidth_total_unat [OF sum] by (induction rtuns) simp_all
  finally show ?thesis using t by simp
qed

section \<open>Properties\<close>

text \<open>
  C30: The scheduler starves nobody: when the weights are positive and add up to at most 100, a tunnel of weight
  \<open>s\<close> among \<open>l\<close> tunnels is chosen within any \<open>(l + 2) * 100 / s + 1\<close> consecutive choices.
\<close>

theorem wrr_no_starvation:
  assumes "wrr_ok tuns w" and "j < length (wrr_tunnel w)"
    and "(of_nat (length (wrr_tunnel w)) + 2) * 100 / t_weight (tuns (wrr_tunnel w ! j)) + 1 < of_nat n"
  shows "\<exists>i<n. fst (mlvpn_rtun_wrr_choose tuns (wrr_iter tuns i w)) = Some (wrr_tunnel w ! j)"
proof -
  let ?c = "share tuns w j" and ?l = "of_nat (length (wrr_tunnel w)) :: rat"
  have c: "0 < ?c" "t_weight (tuns (wrr_tunnel w ! j)) = ?c * 100" using assms(1,2) by (auto simp: wrr_ok_def share_def)
  have "(?l + 2) * 100 / (?c * 100) = (?l + 2) / ?c" by (rule mult_divide_mult_cancel_right) simp
  then have "(?l + 2) / ?c + 1 < of_nat n" using assms(3) c(2) by simp
  then have "((?l + 2) / ?c + 1) * ?c < of_nat n * ?c" using c(1) by (intro mult_strict_right_mono)
  moreover have "((?l + 2) / ?c + 1) * ?c = ?l + 2 + ?c"
    using c(1) by (simp only: distrib_right [of "(?l + 2) / ?c" 1 ?c]) simp
  ultimately have "?l + 2 + ?c < of_nat n * ?c" by simp
  then have "\<not> (\<forall>i<n. wrr_min_index (wrr_iter tuns i w) \<noteq> j)" using waiting_bound [OF assms(1,2), of n] by auto
  then obtain i where "i < n" "wrr_min_index (wrr_iter tuns i w) = j" by blast
  moreover have "wrr_tunnel w \<noteq> []" using assms(2) by auto
  ultimately show ?thesis using wrr_choose_index [of "wrr_iter tuns i w" tuns] by (intro exI [of _ i]) auto
qed

theorem wrr_no_starvation_witness:
  "\<exists>tuns w i. wrr_tunnel w = [0, 1] \<and> i < 999 \<and>
     fst (mlvpn_rtun_wrr_choose tuns (wrr_iter tuns i w)) = Some 1 \<and> t_weight (tuns 1) = 50"
proof -
  let ?tuns = "\<lambda>i::nat. tunnel_zero\<lparr>t_weight := 50\<rparr>" and ?w = "\<lparr>wrr_tunnel = [0, 1], wrr_tunval = [0, 0]\<rparr>"
  have "wrr_ok ?tuns ?w" by (auto simp: wrr_ok_def wrr_wf_def share_def less_Suc_eq)
  from wrr_no_starvation [OF this, of 1 999] obtain i where
    "i < 999" "fst (mlvpn_rtun_wrr_choose ?tuns (wrr_iter ?tuns i ?w)) = Some 1" by auto
  then show ?thesis by (intro exI [of _ ?tuns] exI [of _ ?w] exI [of _ i]) simp
qed

text \<open>
  After a reset the scheduler holds exactly the tunnels that may carry data, in list order, all with value 0:
  the authenticated tunnels of the wanted kind (regular or fallback), lossy or slow ones only in fallback mode. The
  reset fails only when there are more than 128 tunnels.
\<close>

lemma wrr_reset_selects_eligible:
  assumes "length head \<le> MAX_TUNNELS"
  shows "\<exists>w. mlvpn_rtun_wrr_reset tuns head f = Ok w \<and>
     wrr_tunnel w = filter (\<lambda>i. wrr_eligible f (tuns i)) head \<and>
     wrr_tunval w = replicate (length (wrr_tunnel w)) 0 \<and>
     (\<forall>i. i \<in> set (wrr_tunnel w) \<longrightarrow> authenticated (tuns i))"
  using wrr_reset_few [OF assms, of tuns f] wrr_reset_Ok wrr_eligible_authenticated by fastforce



end
