(* ===== verification/Loss.thy ===== *)
theory Loss
  imports Tunnel
begin

text \<open>
  The loss estimate of a tunnel (\<^verbatim>\<open>mlvpn_loss_update\<close> and \<^verbatim>\<open>mlvpn_loss_ratio\<close> of \<^verbatim>\<open>src/mlvpn.c\<close>): a
  64 bit vector whose bit \<open>i\<close> says that the packet \<open>i\<close> before the last one was received. Two shifts of
  the code are undefined in C for some distances; what they give is a parameter.
\<close>

unbundle bit_operations_syntax

text \<open>\<open>shl64 v\<close> is \<^verbatim>\<open>v << 64\<close>; \<open>shl_int n\<close> is \<^verbatim>\<open>1 << n\<close> for \<open>n \<ge> 31\<close> on an \<^verbatim>\<open>int\<close>, converted to 64 bits.\<close>

record c_shifts =
  shl64 :: "u64 \<Rightarrow> u64"
  shl_int :: "u64 \<Rightarrow> u64"

definition shift_u64 :: "c_shifts \<Rightarrow> u64 \<Rightarrow> u64 \<Rightarrow> u64" where
  "shift_u64 c v n = (if n < 64 then push_bit (unat n) v else shl64 c v)"

definition shift_int_1 :: "c_shifts \<Rightarrow> u64 \<Rightarrow> u64" where
  "shift_int_1 c n = (if n < 31 then push_bit (unat n) 1 else shl_int c n)"

definition mlvpn_loss_update :: "c_shifts \<Rightarrow> mlvpn_tunnel_t \<Rightarrow> u64 \<Rightarrow> mlvpn_tunnel_t" where
  "mlvpn_loss_update c tun seq =
     (if t_seq_last tun + 64 < seq then
        tun\<lparr>t_seq_vect := - 1, t_seq_last := seq\<rparr>
      else if t_seq_last tun < seq then
        tun\<lparr>t_seq_vect := shift_u64 c (t_seq_vect tun) (seq - t_seq_last tun) OR 1, t_seq_last := seq\<rparr>
      else if t_seq_last tun - 63 \<le> seq then
        tun\<lparr>t_seq_vect := t_seq_vect tun OR shift_int_1 c (t_seq_last tun - seq)\<rparr>
      else tun)"

definition mlvpn_loss_ratio :: "mlvpn_tunnel_t \<Rightarrow> int" where
  "mlvpn_loss_ratio tun =
     (let loss = foldl (\<lambda>loss i. if 1 AND drop_bit i (t_seq_vect tun) = 0 then loss + 1 else loss) 0 [0..<64]
      in loss * 100 div 64)"

section \<open>Abstraction: which of the last packets were received\<close>

definition recent :: "mlvpn_tunnel_t \<Rightarrow> nat set" where
  "recent tun = {i. bit (t_seq_vect tun) i}"

lemma recent_bound: "recent tun \<subseteq> {..<64}"
  by (auto simp: recent_def dest: bit_imp_le_length)

lemma test_bit: "(1 AND drop_bit i (v :: u64) = 0) \<longleftrightarrow> \<not> bit v i"
proof -
  have "1 AND drop_bit i v = of_bool (bit v i)"
    by (simp only: one_and_eq bit_iff_odd_drop_bit mod_2_eq_odd)
  then show ?thesis by simp
qed

lemma count_fold:
  "foldl (\<lambda>(n::int) i. if P i then n + 1 else n) k xs = k + int (length (filter P xs))"
  by (induction xs arbitrary: k) simp_all

lemma loss_ratio_card: "mlvpn_loss_ratio tun = int (64 - card (recent tun)) * 100 div 64"
proof -
  have "length (filter (\<lambda>i. \<not> bit (t_seq_vect tun) i) [0..<64]) =
      card {i. i < 64 \<and> \<not> bit (t_seq_vect tun) i}"
    by (subst distinct_card [symmetric]) (auto intro!: arg_cong [where f = card])
  also have "{i. i < 64 \<and> \<not> bit (t_seq_vect tun) i} = {..<64} - recent tun"
    by (auto simp: recent_def)
  also have "card ({..<64} - recent tun) = 64 - card (recent tun)"
    using recent_bound [of tun] by (subst card_Diff_subset) (auto intro: finite_subset)
  finally show ?thesis by (simp add: mlvpn_loss_ratio_def test_bit count_fold)
qed

lemma recent_push:
  assumes "0 < unat n" and "n < 64"
  shows "{i. bit (shift_u64 c v n OR 1) i} =
     insert 0 ((\<lambda>i. i + unat n) ` {i. bit v i} \<inter> {..<64})"
proof -
  have "bit (push_bit (unat n) v OR 1) i \<longleftrightarrow>
      i = 0 \<or> i \<in> (\<lambda>i. i + unat n) ` {i. bit v i} \<inter> {..<64}" for i
    by (auto simp: bit_simps image_iff intro!: exI [of _ "i - unat n"])
  then show ?thesis using assms(2) by (auto simp: shift_u64_def)
qed

lemma recent_set:
  assumes "n < 31"
  shows "{i. bit (v OR shift_int_1 c n) i} = insert (unat n) {i. bit (v :: u64) i}"
proof -
  have "unat n < 31" using assms by (simp add: word_less_nat_alt)
  then have "bit (v OR push_bit (unat n) 1) i \<longleftrightarrow> i = unat n \<or> bit v i" for i
    by (auto simp: bit_simps)
  then show ?thesis using assms by (auto simp: shift_int_1_def)
qed

lemma not_restart:
  fixes l seq :: u64
  assumes "l \<le> l + 64" and "unat seq \<le> unat l + 64"
  shows "\<not> l + 64 < seq"
proof -
  have "unat l + unat (64 :: u64) < 2 ^ 64" using assms(1) by (simp only: no_olen_add_nat) simp
  then have "unat (l + 64) = unat l + 64" by (simp add: unat_add_lem [THEN iffD1])
  then show ?thesis using assms(2) by (simp add: word_less_nat_alt)
qed

lemma loss_update_frame:
  "(mlvpn_loss_update c tun seq)\<lparr>t_seq_vect := t_seq_vect tun, t_seq_last := t_seq_last tun\<rparr> = tun"
  by (simp add: mlvpn_loss_update_def)

lemma loss_update_restart:
  "t_seq_last tun + 64 < seq \<Longrightarrow>
   recent (mlvpn_loss_update c tun seq) = {..<64} \<and> t_seq_last (mlvpn_loss_update c tun seq) = seq"
  by (auto simp: mlvpn_loss_update_def recent_def)

lemma loss_update_ahead:
  assumes "t_seq_last tun \<le> t_seq_last tun + 64" and "t_seq_last tun < seq"
    and d: "seq - t_seq_last tun < 64"
  shows "recent (mlvpn_loss_update c tun seq) =
      insert 0 ((\<lambda>i. i + unat (seq - t_seq_last tun)) ` recent tun \<inter> {..<64}) \<and>
      t_seq_last (mlvpn_loss_update c tun seq) = seq"
proof -
  have "unat (seq - t_seq_last tun) = unat seq - unat (t_seq_last tun)"
    using assms(2) by (intro unat_sub) simp
  moreover have "unat (seq - t_seq_last tun) < 64" using d by (simp add: word_less_nat_alt)
  ultimately have "\<not> t_seq_last tun + 64 < seq" by (intro not_restart [OF assms(1)]) linarith
  moreover have "0 < unat (seq - t_seq_last tun)" using assms(2) by (simp add: unat_gt_0)
  ultimately show ?thesis
    using assms(2) d recent_push [of "seq - t_seq_last tun" c "t_seq_vect tun"]
    by (simp add: mlvpn_loss_update_def recent_def)
qed

lemma loss_update_late:
  assumes "t_seq_last tun \<le> t_seq_last tun + 64" and "seq \<le> t_seq_last tun" and "63 \<le> t_seq_last tun"
    and d: "t_seq_last tun - seq < 31"
  shows "recent (mlvpn_loss_update c tun seq) = insert (unat (t_seq_last tun - seq)) (recent tun) \<and>
      t_seq_last (mlvpn_loss_update c tun seq) = t_seq_last tun"
proof -
  have u: "unat (t_seq_last tun - seq) = unat (t_seq_last tun) - unat seq" "unat (t_seq_last tun - 63) = unat (t_seq_last tun) - 63"
    using unat_sub [OF assms(2)] unat_sub [OF assms(3)] by simp_all
  have "unat seq \<le> unat (t_seq_last tun)" "unat (t_seq_last tun - seq) < 31"
    using assms(2) d by (simp_all add: word_le_nat_alt word_less_nat_alt)
  moreover from this have "\<not> t_seq_last tun + 64 < seq" by (intro not_restart [OF assms(1)]) simp
  ultimately have "\<not> t_seq_last tun + 64 < seq" "\<not> t_seq_last tun < seq" "t_seq_last tun - 63 \<le> seq"
    using u by (simp_all add: word_le_nat_alt word_less_nat_alt)
  then show ?thesis using recent_set [OF d] by (simp add: mlvpn_loss_update_def recent_def)
qed

section \<open>Properties\<close>



text \<open>C33: The loss ratio is the percentage of the last 64 packets that are missing, between 0 and 100.\<close>

theorem loss_ratio_percentage:
  "mlvpn_loss_ratio tun = int (64 - card (recent tun)) * 100 div 64 \<and>
   0 \<le> mlvpn_loss_ratio tun \<and> mlvpn_loss_ratio tun \<le> 100"
proof -
  have "int (64 - card (recent tun)) * 100 div 64 \<le> 64 * 100 div 64"
    by (intro zdiv_mono1 mult_right_mono) simp_all
  then show ?thesis by (simp add: loss_ratio_card)
qed

text \<open>
  C39: In the first 63 packets of a tunnel the lower bound of the window wraps around, so a packet that
  comes in out of order is not recorded and stays counted as lost.
\<close>

theorem loss_update_early_late_packet_lost:
  assumes "t_seq_last tun < 63" and "seq \<le> t_seq_last tun" and "tun' = mlvpn_loss_update c tun seq"
  shows "tun' = tun"
proof -
  have l: "unat (t_seq_last tun) < 63" "unat seq \<le> unat (t_seq_last tun)"
    using assms(1,2) by (simp_all add: word_le_nat_alt word_less_nat_alt)
  have "t_seq_last tun \<le> t_seq_last tun + 64" using l by (simp only: no_olen_add_nat) simp
  then have "\<not> t_seq_last tun + 64 < seq" using l by (intro not_restart) simp_all
  moreover have "unat (t_seq_last tun - 63) = unat (t_seq_last tun) + 2 ^ 64 - 63"
    using l by (simp add: unat_sub_if')
  then have "\<not> t_seq_last tun - 63 \<le> seq" using l by (simp add: word_le_nat_alt)
  ultimately have "\<not> t_seq_last tun + 64 < seq" "\<not> t_seq_last tun < seq" "\<not> t_seq_last tun - 63 \<le> seq"
    using assms(2) by auto
  then show ?thesis using assms(3) by (simp add: mlvpn_loss_update_def)
qed

theorem loss_update_early_late_packet_lost_witness:
  "mlvpn_loss_update \<lparr>shl64 = id, shl_int = id\<rparr> (tunnel_zero\<lparr>t_seq_last := 10, t_seq_vect := 1\<rparr>) 9 =
     tunnel_zero\<lparr>t_seq_last := 10, t_seq_vect := 1\<rparr>"
  by (rule loss_update_early_late_packet_lost [of "tunnel_zero\<lparr>t_seq_last := 10, t_seq_vect := 1\<rparr>" 9, OF _ _ refl])
    simp_all

end
