(* ===== verification/Crypto.thy ===== *)
theory Crypto
  imports Prelude
begin

text \<open>
  The wrapper around libsodium (\<^verbatim>\<open>src/crypto.c\<close>). libsodium itself is a parameter: \<open>secretbox_easy m n k\<close> and
  \<open>secretbox_open_easy c n k\<close> give the output, or \<open>None\<close> for a non-zero return; \<open>generichash n m\<close> the
  \<open>n\<close>-byte hash. \<open>sodium_ok\<close> collects what its documentation promises of them.
\<close>

record sodium =
  secretbox_easy :: "bytes \<Rightarrow> bytes \<Rightarrow> bytes \<Rightarrow> bytes option"
  secretbox_open_easy :: "bytes \<Rightarrow> bytes \<Rightarrow> bytes \<Rightarrow> bytes option"
  generichash :: "nat \<Rightarrow> bytes \<Rightarrow> bytes option"

abbreviation (input) crypto_KEYBYTES :: nat where "crypto_KEYBYTES \<equiv> 32"
abbreviation (input) crypto_NONCEBYTES :: nat where "crypto_NONCEBYTES \<equiv> 24"
abbreviation (input) crypto_PADSIZE :: nat where "crypto_PADSIZE \<equiv> 16"

text \<open>The static key before a password is set.\<close>

definition crypto_key_init :: bytes where
  "crypto_key_init = replicate crypto_KEYBYTES 0"

text \<open>The key after \<^verbatim>\<open>crypto_set_password\<close>; on failure it is left alone.\<close>

definition crypto_set_password :: "sodium \<Rightarrow> bytes \<Rightarrow> bytes \<Rightarrow> int \<times> bytes" where
  "crypto_set_password S key password =
     (case generichash S crypto_KEYBYTES password of Some k \<Rightarrow> (0, k) | None \<Rightarrow> (- 1, key))"

definition crypto_encrypt :: "sodium \<Rightarrow> bytes \<Rightarrow> bytes \<Rightarrow> bytes \<Rightarrow> bytes option" where
  "crypto_encrypt S key m nonce = secretbox_easy S m nonce key"

definition crypto_decrypt :: "sodium \<Rightarrow> bytes \<Rightarrow> bytes \<Rightarrow> bytes \<Rightarrow> bytes option" where
  "crypto_decrypt S key c nonce = secretbox_open_easy S c nonce key"

text \<open>
  The documented behaviour: encryption succeeds and adds \<^verbatim>\<open>crypto_secretbox_MACBYTES\<close> bytes, decryption
  with the same nonce and key gives the message back, and a decrypted message is that much shorter.
\<close>

definition sodium_ok :: "sodium \<Rightarrow> bool" where
  "sodium_ok S \<longleftrightarrow>
     (\<forall>m n k. \<exists>c. secretbox_easy S m n k = Some c \<and> length c = length m + crypto_PADSIZE \<and>
        secretbox_open_easy S c n k = Some m) \<and>
     (\<forall>c n k m. secretbox_open_easy S c n k = Some m \<longrightarrow> length c = length m + crypto_PADSIZE)"

lemma encrypt_decrypt:
  assumes "sodium_ok S"
  obtains c where "crypto_encrypt S key m nonce = Some c" and "length c = length m + crypto_PADSIZE"
    and "crypto_decrypt S key c nonce = Some m"
  using assms unfolding sodium_ok_def crypto_encrypt_def crypto_decrypt_def by blast

lemma decrypt_length:
  "sodium_ok S \<Longrightarrow> crypto_decrypt S key c nonce = Some m \<Longrightarrow> length c = length m + crypto_PADSIZE"
  unfolding sodium_ok_def crypto_decrypt_def by blast

text \<open>A cipher of this shape, to show that the documented behaviour can hold: 16 bytes taken from the key and nonce.\<close>

definition box_tag :: "bytes \<Rightarrow> bytes \<Rightarrow> bytes" where
  "box_tag n k = take 16 (k @ n @ replicate 16 0)"

lemma length_box_tag [simp]: "length (box_tag n k) = 16"
  by (simp add: box_tag_def)

definition tag_box :: sodium where
  "tag_box = \<lparr>
     secretbox_easy = (\<lambda>m n k. Some (box_tag n k @ m)),
     secretbox_open_easy = (\<lambda>c n k. if 16 \<le> length c \<and> take 16 c = box_tag n k then Some (drop 16 c) else None),
     generichash = (\<lambda>l m. Some (take l (m @ replicate l 0)))\<rparr>"

lemma tag_box_ok: "sodium_ok tag_box"
  by (auto simp: sodium_ok_def tag_box_def)

end
