(* ===== verification/Timestamp.thy ===== *)
theory Timestamp
  imports Prelude
begin

text \<open>
  The millisecond clocks of \<^verbatim>\<open>src/timestamp.c\<close>: the 64 bit clock taken from libev's time, its 16 bit
  form put on the wire, and the difference that yields a round-trip time. The value
  \<open>0xffff\<close> is the wire's "no timestamp" marker.
\<close>

definition mlvpn_timestamp64 :: "double \<Rightarrow> u64" where
  "mlvpn_timestamp64 now = trunc_word (now * 1000)"

definition mlvpn_timestamp16 :: "u64 \<Rightarrow> u16" where
  "mlvpn_timestamp16 now =
     (let ts = (ucast (now mod 65536) :: u16)
      in if ts = - 1 then ts + 1 else ts)"

text \<open>The subtraction is done on \<^verbatim>\<open>int32_t\<close>, where it cannot overflow.\<close>

definition mlvpn_timestamp16_diff :: "u16 \<Rightarrow> u16 \<Rightarrow> u16" where
  "mlvpn_timestamp16_diff tsnew tsold =
     (let diff = int (unat tsnew) - int (unat tsold);
          diff' = (if diff < 0 then diff + 65536 else diff)
      in of_int diff')"

lemma mlvpn_timestamp16_diff_eq [simp]: "mlvpn_timestamp16_diff a b = a - b"
proof -
  have "(65536 :: u16) = 0" by simp
  then show ?thesis
    by (simp add: mlvpn_timestamp16_diff_def Let_def)
qed

lemma ucast_mod_65536: "(ucast (n mod 65536 :: u64) :: u16) = ucast n"
proof -
  have "n mod 65536 = take_bit 16 n" by (simp add: take_bit_eq_mod)
  then show ?thesis
    by (simp add: bit_eq_iff bit_simps)
qed

lemma mlvpn_timestamp16_cases:
  "mlvpn_timestamp16 n = (if (ucast n :: u16) = - 1 then 0 else ucast n)"
  by (simp add: mlvpn_timestamp16_def ucast_mod_65536 Let_def)

lemma ucast_add_16: "(ucast (a + b :: u64) :: u16) = ucast a + ucast b"
proof transfer
  fix a b :: int
  have "take_bit 16 (take_bit 64 a + take_bit 64 b) =
      take_bit 16 (take_bit 16 (take_bit 64 a) + take_bit 16 (take_bit 64 b))"
    by (simp only: take_bit_add)
  also have "\<dots> = take_bit 16 (a + b)"
    by (simp only: take_bit_take_bit) (simp add: take_bit_add)
  finally show "take_bit LENGTH(16) (take_bit LENGTH(64) (a + b)) =
      take_bit LENGTH(16) (take_bit LENGTH(64) a + take_bit LENGTH(64) b)"
    by simp
qed

lemma ucast_of_nat_16: "(ucast (of_nat d :: u64) :: u16) = of_nat d"
  by transfer simp

text \<open>A timestamp put on the wire is never the "no timestamp" marker \<open>0xffff\<close>.\<close>

theorem timestamp16_never_marker: "mlvpn_timestamp16 now \<noteq> - 1"
  by (simp add: mlvpn_timestamp16_cases)

text \<open>
  C37: The 16 bit difference recovers the elapsed milliseconds: for an echo that took
  \<open>d < 65535\<close> ms, whatever the clock and even when the 16 bit clock wraps in between, the
  computed round-trip time is off by at most one (the marker value is skipped).
\<close>

theorem timestamp16_diff_elapsed:
  assumes "d < 65535"
  shows "unat (mlvpn_timestamp16_diff (mlvpn_timestamp16 (now + of_nat d)) (mlvpn_timestamp16 now))
      \<in> {d - 1 .. d + 1}"
proof -
  let ?t = "ucast now :: u16" and ?d = "of_nat d :: u16"
  have t': "(ucast (now + of_nat d) :: u16) = ?t + ?d"
    by (simp add: ucast_add_16 ucast_of_nat_16)
  have d: "unat ?d = d" using assms by (simp add: unat_of_nat)
  have "unat (of_nat (Suc d) :: u16) = Suc d"
    using assms by (simp only: unat_of_nat) simp
  then have d1: "unat (?d + 1) = d + 1" by (simp add: add.commute)
  have "unat (of_nat (d - 1) :: u16) = d - 1"
    using assms by (simp only: unat_of_nat) simp
  then have dm: "0 < d \<Longrightarrow> unat (?d - 1) = d - 1" by (simp add: of_nat_diff)
  let ?R = "mlvpn_timestamp16_diff (mlvpn_timestamp16 (now + of_nat d)) (mlvpn_timestamp16 now)"
  have neg: "?t + ?d = - 1 \<Longrightarrow> - ?t = ?d + 1"
    by (simp only: neg_eq_iff_add_eq_0 eq_neg_iff_add_eq_0 add.assoc)
  have "?R = ?d \<or> ?R = ?d + 1 \<or> (0 < d \<and> ?R = ?d - 1)"
    using neg by (cases "d = 0") (auto simp: mlvpn_timestamp16_cases t')
  then show ?thesis using d d1 dm by auto
qed

theorem timestamp16_diff_elapsed_witness:
  "(80::nat) < 65535 \<and>
   unat (mlvpn_timestamp16_diff (mlvpn_timestamp16 (65500 + of_nat 80)) (mlvpn_timestamp16 65500)) \<in> {80 - 1 .. 80 + 1}"
  using timestamp16_diff_elapsed [of 80 65500] by simp

end
