(* ===== verification/Protocol.thy ===== *)
theory Protocol
  imports Loss Crypto Timestamp
begin

text \<open>
  The wire protocol: encapsulation (the part of \<^verbatim>\<open>mlvpn_rtun_send\<close> of \<^verbatim>\<open>src/mlvpn.c\<close> before
  \<^verbatim>\<open>sendto\<close>) and \<^verbatim>\<open>mlvpn_protocol_read\<close>. The round trip is proved for every packet type, encrypted or in clear;
  what is accepted is shown to have been opened with the shared key unless it is cleartext data.
\<close>

text \<open>The key, the option and the clock both directions work with, and the parameters of the model.\<close>

record proto_env =
  pe_sodium :: sodium
  pe_shifts :: c_shifts
  pe_key :: bytes
  pe_cleartext :: bool
  pe_now :: double

text \<open>The nonce: sequence number, flow id, zeroes up to \<^verbatim>\<open>crypto_NONCEBYTES\<close>.\<close>

definition mlvpn_nonce :: "u64 \<Rightarrow> u32 \<Rightarrow> bytes" where
  "mlvpn_nonce seq flow_id = word_le seq @ word_le flow_id @ replicate 12 0"

text \<open>\<^verbatim>\<open>memset\<close> to zero and a \<^verbatim>\<open>memcpy\<close> into an array of \<open>n\<close> bytes.\<close>

definition zero_pad :: "nat \<Rightarrow> bytes \<Rightarrow> bytes" where
  "zero_pad n bs = bs @ replicate (n - length bs) 0"

section \<open>Sending\<close>

text \<open>
  The timestamp reply: the last timestamp received from the peer, advanced by how long it was held, if it is
  less than a second old; it is then used up.
\<close>

definition reply_timestamp :: "u64 \<Rightarrow> mlvpn_tunnel_t \<Rightarrow> u16 \<times> mlvpn_tunnel_t" where
  "reply_timestamp now64 tun =
     (if now64 - t_saved_timestamp_received_at tun < 1000
      then (ucast (t_saved_timestamp tun + (now64 - t_saved_timestamp_received_at tun)),
            tun\<lparr>t_saved_timestamp := - 1, t_saved_timestamp_received_at := 0\<rparr>)
      else (- 1, tun))"

text \<open>The conversions to network byte order.\<close>

definition proto_hton :: "mlvpn_proto_t \<Rightarrow> mlvpn_proto_t" where
  "proto_hton p = p\<lparr>proto_len := bswap (proto_len p), proto_seq := bswap (proto_seq p),
     proto_data_seq := bswap (proto_data_seq p), proto_flow_id := bswap (proto_flow_id p),
     proto_timestamp := bswap (proto_timestamp p), proto_timestamp_reply := bswap (proto_timestamp_reply p)\<rparr>"

text \<open>The header before the payload is added, and the tunnel and \<^verbatim>\<open>data_seq\<close> after it was built.\<close>

definition proto_header ::
  "u64 \<Rightarrow> mlvpn_tunnel_t \<Rightarrow> u64 \<Rightarrow> mlvpn_pkt_t \<Rightarrow> mlvpn_proto_t \<times> mlvpn_tunnel_t \<times> u64" where
  "proto_header now64 tun data_seq pkt =
     (let p1 = (if pkt_type pkt = MLVPN_PKT_DATA \<and> pkt_reorder pkt \<noteq> 0
                then proto_zero\<lparr>proto_data_seq := data_seq\<rparr> else proto_zero);
          data_seq' = (if pkt_type pkt = MLVPN_PKT_DATA \<and> pkt_reorder pkt \<noteq> 0 then data_seq + 1 else data_seq);
          p2 = p1\<lparr>proto_len := pkt_len pkt, proto_flags := ucast (pkt_type pkt)\<rparr>;
          (p3, tun3) = (if pkt_reorder pkt \<noteq> 0
                then (p2\<lparr>proto_seq := t_seq tun\<rparr>, tun\<lparr>t_seq := t_seq tun + 1\<rparr>) else (p2, tun));
          p4 = p3\<lparr>proto_flow_id := t_flow_id tun3, proto_version := of_nat MLVPN_PROTOCOL_VERSION,
                  proto_reorder := ucast (pkt_reorder pkt)\<rparr>;
          (reply, tun5) = reply_timestamp now64 tun3
      in (p4\<lparr>proto_timestamp_reply := reply, proto_timestamp := mlvpn_timestamp16 now64\<rparr>, tun5, data_seq'))"

text \<open>
  The packet put on the wire: \<open>None\<close> when it is too long to encrypt or encryption fails (the early
  \<^verbatim>\<open>return -1\<close>). A payload longer than the array would be copied beyond it.
\<close>

definition proto_payload :: "proto_env \<Rightarrow> mlvpn_proto_t \<Rightarrow> mlvpn_pkt_t \<Rightarrow> (bytes option) outcome" where
  "proto_payload E p pkt =
     (let wlen = PKTHDRSIZ + unat (pkt_len pkt) in
      if pe_cleartext E \<and> pkt_type pkt = MLVPN_PKT_DATA then
        if unat (pkt_len pkt) > DEFAULT_MTU then Fault OutOfBounds
        else Ok (Some (take wlen (proto_to_mem (proto_hton (p\<lparr>proto_data := zero_pad DEFAULT_MTU (pkt_payload pkt)\<rparr>)))))
      else if wlen + crypto_PADSIZE > DEFAULT_MTU then Ok None
      else case crypto_encrypt (pe_sodium E) (pe_key E) (pkt_payload pkt) (mlvpn_nonce (proto_seq p) (proto_flow_id p)) of
          None \<Rightarrow> Ok None
        | Some c \<Rightarrow> Ok (Some (take (wlen + crypto_PADSIZE) (proto_to_mem (proto_hton
            (p\<lparr>proto_len := proto_len p + of_nat crypto_PADSIZE, proto_data := zero_pad DEFAULT_MTU c\<rparr>))))))"

text \<open>\<^verbatim>\<open>mlvpn_rtun_send\<close> up to \<^verbatim>\<open>sendto\<close>, for the packet taken from the buffer (with \<^verbatim>\<open>reorder\<close> set to 1).\<close>

definition rtun_encap ::
  "proto_env \<Rightarrow> mlvpn_tunnel_t \<Rightarrow> u64 \<Rightarrow> mlvpn_pkt_t \<Rightarrow> (bytes option \<times> mlvpn_tunnel_t \<times> u64) outcome" where
  "rtun_encap E tun data_seq pkt0 =
     (let pkt = pkt0\<lparr>pkt_reorder := 1\<rparr>;
          (p, tun', data_seq') = proto_header (mlvpn_timestamp64 (pe_now E)) tun data_seq pkt
      in obind (proto_payload E p pkt) (\<lambda>w. Ok (w, tun', data_seq')))"

section \<open>Receiving\<close>

text \<open>The round-trip estimate from an echoed timestamp.\<close>

definition rtt_update :: "mlvpn_tunnel_t \<Rightarrow> double \<Rightarrow> mlvpn_tunnel_t" where
  "rtt_update tun R =
     (if R < 5000
      then if \<not> t_rtt_hit tun then tun\<lparr>t_srtt := R, t_rttvar := R / 2, t_rtt_hit := True\<rparr>
           else tun\<lparr>t_rttvar := (1 - 1 / 4) * t_rttvar tun + 1 / 4 * \<bar>t_srtt tun - R\<bar>,
                    t_srtt := (1 - 1 / 8) * t_srtt tun + 1 / 8 * R\<rparr>
      else tun)"

definition proto_ntoh :: "mlvpn_proto_t \<Rightarrow> mlvpn_proto_t" where
  "proto_ntoh p = p\<lparr>proto_seq := bswap (proto_seq p), proto_timestamp := bswap (proto_timestamp p),
     proto_timestamp_reply := bswap (proto_timestamp_reply p), proto_flow_id := bswap (proto_flow_id p)\<rparr>"

text \<open>The tunnel after an accepted packet: loss window, saved timestamp and round-trip estimate.\<close>

definition read_tunnel :: "proto_env \<Rightarrow> u64 \<Rightarrow> mlvpn_proto_t \<Rightarrow> mlvpn_tunnel_t \<Rightarrow> mlvpn_tunnel_t" where
  "read_tunnel E now64 p tun =
     (let t1 = (if 1 \<le> proto_version p then mlvpn_loss_update (pe_shifts E) tun (proto_seq p) else tun);
          t2 = (if proto_timestamp p \<noteq> - 1
                then t1\<lparr>t_saved_timestamp := ucast (proto_timestamp p), t_saved_timestamp_received_at := now64\<rparr> else t1)
      in if proto_timestamp_reply p \<noteq> - 1
         then rtt_update t2 (of_nat (unat (mlvpn_timestamp16_diff (mlvpn_timestamp16 now64) (proto_timestamp_reply p))))
         else t2)"

text \<open>\<open>None\<close> is the return of \<open>-1\<close>, which leaves the tunnel alone.\<close>

definition mlvpn_protocol_read ::
  "proto_env \<Rightarrow> mlvpn_tunnel_t \<Rightarrow> mlvpn_pkt_t \<Rightarrow> (mlvpn_tunnel_t \<times> mlvpn_pkt_t) option" where
  "mlvpn_protocol_read E tun pkt =
     (let len = unat (pkt_len pkt); now64 = mlvpn_timestamp64 (pe_now E) in
      if len > DEFAULT_MTU \<or> len > PKTHDRSIZ + DEFAULT_MTU \<or> len < PKTHDRSIZ then None
      else let raw = proto_of_mem (zero_pad (PKTHDRSIZ + DEFAULT_MTU) (take len (pkt_data pkt)));
               rlen = bswap (proto_len raw)
           in if rlen = 0 \<or> unat rlen > DEFAULT_MTU then None
              else let p = proto_ntoh raw;
                       content = (if pe_cleartext E \<and> ucast (proto_flags p) = MLVPN_PKT_DATA
                          then Some (take (unat rlen) (proto_data p), rlen)
                          else map_option (\<lambda>m. (m, rlen - of_nat crypto_PADSIZE))
                            (crypto_decrypt (pe_sodium E) (pe_key E) (take (unat rlen) (proto_data p))
                               (mlvpn_nonce (proto_seq p) (proto_flow_id p))))
                   in map_option (\<lambda>(m, l).
                        (read_tunnel E now64 p tun,
                         \<lparr>pkt_len = l, pkt_type = ucast (proto_flags p),
                          pkt_reorder = (if 1 \<le> proto_version p then ucast (proto_reorder p) else 0),
                          pkt_seq = (if 1 \<le> proto_version p then bswap (proto_data_seq p) else 0),
                          pkt_data = zero_pad DEFAULT_MTU m\<rparr>)) content)"

section \<open>What travels on the wire\<close>

lemma zero_pad_wire:
  assumes "proto_data q = zero_pad DEFAULT_MTU c" and "length c \<le> DEFAULT_MTU"
  shows "zero_pad (PKTHDRSIZ + DEFAULT_MTU) (take (PKTHDRSIZ + length c) (proto_to_mem q)) = proto_to_mem q"
proof -
  obtain h where h: "proto_to_mem q = h @ zero_pad DEFAULT_MTU c" "length h = PKTHDRSIZ"
    using assms(1) by (simp add: proto_to_mem_def PKTHDRSIZ_def)
  then show ?thesis using assms(2) by (simp add: zero_pad_def)
qed

lemma hton_ntoh:
  "proto_ntoh (proto_hton p) = p\<lparr>proto_len := bswap (proto_len p), proto_data_seq := bswap (proto_data_seq p)\<rparr>"
  by (simp add: proto_ntoh_def proto_hton_def)

text \<open>What the receiver makes of a packet whose bytes are those of the header \<open>p\<close> and the content \<open>c\<close>.\<close>

lemma protocol_read_wire:
  assumes c: "proto_data p = zero_pad DEFAULT_MTU c" "length c = unat (proto_len p)" "0 < length c"
      "PKTHDRSIZ + length c \<le> DEFAULT_MTU"
    and r: "pkt_len r = of_nat (PKTHDRSIZ + length c)"
      "take (PKTHDRSIZ + length c) (pkt_data r) = take (PKTHDRSIZ + length c) (proto_to_mem (proto_hton p))"
  shows "mlvpn_protocol_read E tun r =
     map_option (\<lambda>(m, l). (read_tunnel E (mlvpn_timestamp64 (pe_now E)) p tun,
         \<lparr>pkt_len = l, pkt_type = ucast (proto_flags p),
          pkt_reorder = (if 1 \<le> proto_version p then ucast (proto_reorder p) else 0),
          pkt_seq = (if 1 \<le> proto_version p then proto_data_seq p else 0),
          pkt_data = zero_pad DEFAULT_MTU m\<rparr>))
       (if pe_cleartext E \<and> ucast (proto_flags p) = MLVPN_PKT_DATA then Some (c, proto_len p)
        else map_option (\<lambda>m. (m, proto_len p - of_nat crypto_PADSIZE))
          (crypto_decrypt (pe_sodium E) (pe_key E) c (mlvpn_nonce (proto_seq p) (proto_flow_id p))))"
proof -
  let ?n = "PKTHDRSIZ + length c"
  have len: "unat (pkt_len r) = ?n" using r(1) c(4) by (simp only: unat_of_nat) simp
  have raw: "proto_of_mem (zero_pad (PKTHDRSIZ + DEFAULT_MTU) (take ?n (pkt_data r))) = proto_hton p"
    using zero_pad_wire [of "proto_hton p" c] c r(2) by (simp add: proto_hton_def)
  have rl: "bswap (proto_len (proto_hton p)) = proto_len p" by (simp add: proto_hton_def)
  have ne: "proto_len p \<noteq> 0" using c(2,3) by (auto simp: word_unat_eq_iff)
  have data: "take (unat (proto_len p)) (zero_pad DEFAULT_MTU c) = c" using c(2) by (simp add: zero_pad_def)
  have rt: "read_tunnel E n (p\<lparr>proto_len := a, proto_data_seq := b\<rparr>) tun = read_tunnel E n p tun" for n a b
    by (simp add: read_tunnel_def)
  show ?thesis
    unfolding mlvpn_protocol_read_def Let_def len raw rl hton_ntoh rt
    using c ne data by simp
qed

lemma proto_header_spec:
  assumes "proto_header now64 tun data_seq (pkt\<lparr>pkt_reorder := 1\<rparr>) = (p, tun', data_seq')"
  shows "proto_len p = pkt_len pkt" and "proto_flags p = ucast (pkt_type pkt)" and "proto_version p = 1"
    and "proto_reorder p = 1" and "proto_seq p = t_seq tun" and "proto_flow_id p = t_flow_id tun"
    and "proto_data_seq p = (if pkt_type pkt = MLVPN_PKT_DATA then data_seq else 0)"
    and "t_seq tun' = t_seq tun + 1"
    and "data_seq' = (if pkt_type pkt = MLVPN_PKT_DATA then data_seq + 1 else data_seq)"
  using assms by (auto simp: proto_header_def Let_def proto_zero_def reply_timestamp_def split: if_splits)

lemma proto_payload_frame:
  "length c = n \<Longrightarrow> length (take (PKTHDRSIZ + n) (proto_to_mem (proto_hton (p\<lparr>proto_data := zero_pad DEFAULT_MTU c\<rparr>)))) =
     PKTHDRSIZ + n"
  by (simp add: proto_hton_def zero_pad_def)

lemma length_pkt_payload: "pkt_wf pkt \<Longrightarrow> length (pkt_payload pkt) = unat (pkt_len pkt)"
  by (simp add: pkt_wf_def pkt_payload_def)

lemma flags_of_type:
  assumes "pkt_type pkt < 64"
  shows "(ucast (ucast (pkt_type pkt) :: 6 word) :: u8) = pkt_type pkt"
proof -
  have "unat (pkt_type pkt) < 2 ^ 6" using assms by (simp add: word_less_nat_alt)
  then have "unat (take_bit 6 (pkt_type pkt)) = unat (pkt_type pkt)"
    by (simp only: unsigned_take_bit_eq take_bit_nat_eq_self)
  then have "unat (ucast (ucast (pkt_type pkt) :: 6 word) :: u8) = unat (pkt_type pkt)"
    by (simp add: unsigned_ucast_eq)
  then show ?thesis by (simp only: word_unat_eq_iff)
qed

text \<open>The two ends agree on the key and on whether data is encrypted.\<close>

definition same_keys :: "proto_env \<Rightarrow> proto_env \<Rightarrow> bool" where
  "same_keys E E' \<longleftrightarrow> pe_sodium E' = pe_sodium E \<and> pe_key E' = pe_key E \<and> pe_cleartext E' = pe_cleartext E"

lemma encap_read:
  assumes keys: "same_keys E E'" and S: "sodium_ok (pe_sodium E)"
    and pkt: "pkt_wf pkt" "pkt_type pkt < 64" "pe_cleartext E \<Longrightarrow> pkt_type pkt = MLVPN_PKT_DATA \<Longrightarrow> pkt_len pkt \<noteq> 0"
    and send: "rtun_encap E tun data_seq pkt = Ok (Some wire, tun', data_seq')" and fits: "length wire \<le> DEFAULT_MTU"
    and r: "pkt_len r = of_nat (length wire)" "take (length wire) (pkt_data r) = wire"
  shows "\<exists>rtun' d. mlvpn_protocol_read E' rtun r = Some (rtun', d) \<and>
     pkt_payload d = pkt_payload pkt \<and> pkt_len d = pkt_len pkt \<and> pkt_type d = pkt_type pkt \<and> pkt_reorder d = 1 \<and>
     pkt_seq d = (if pkt_type pkt = MLVPN_PKT_DATA then data_seq else 0)"
proof -
  let ?pkt = "pkt\<lparr>pkt_reorder := 1\<rparr>"
  obtain p where h: "proto_header (mlvpn_timestamp64 (pe_now E)) tun data_seq ?pkt = (p, tun', data_seq')"
    and w: "proto_payload E p ?pkt = Ok (Some wire)"
    using send by (auto simp: rtun_encap_def Let_def obind_eq_Ok_iff split: prod.splits)
  note hd = proto_header_spec [OF h]
  have pl: "pkt_payload ?pkt = pkt_payload pkt" by (simp add: pkt_payload_def)
  have len: "length (pkt_payload pkt) = unat (pkt_len pkt)" by (rule length_pkt_payload [OF pkt(1)])
  have ty: "(ucast (ucast (pkt_type pkt) :: 6 word) :: u8) = pkt_type pkt" by (rule flags_of_type [OF pkt(2)])
  have pay: "pkt_payload \<lparr>pkt_len = pkt_len pkt, pkt_type = t, pkt_reorder = o', pkt_seq = q,
      pkt_data = zero_pad DEFAULT_MTU (pkt_payload pkt)\<rparr> = pkt_payload pkt" for t o' q
    using len by (simp add: pkt_payload_def zero_pad_def)
  show ?thesis
  proof (cases "pe_cleartext E \<and> pkt_type pkt = MLVPN_PKT_DATA")
    case True
    let ?p = "p\<lparr>proto_data := zero_pad DEFAULT_MTU (pkt_payload pkt)\<rparr>"
    have wire: "wire = take (PKTHDRSIZ + length (pkt_payload pkt)) (proto_to_mem (proto_hton ?p))"
      using w True pkt(1) len by (simp add: proto_payload_def Let_def pl pkt_wf_def)
    then have lw: "length wire = PKTHDRSIZ + length (pkt_payload pkt)" using proto_payload_frame by simp
    have "mlvpn_protocol_read E' rtun r = Some (read_tunnel E' (mlvpn_timestamp64 (pe_now E')) ?p rtun,
        \<lparr>pkt_len = pkt_len pkt, pkt_type = pkt_type pkt, pkt_reorder = 1, pkt_seq = data_seq,
         pkt_data = zero_pad DEFAULT_MTU (pkt_payload pkt)\<rparr>)"
      using protocol_read_wire [of ?p "pkt_payload pkt" r E' rtun] hd len lw wire fits r True keys pkt(3) ty
      by (simp add: same_keys_def unat_gt_0)
    then show ?thesis using pay True by simp
  next
    case False
    obtain c where c: "crypto_encrypt (pe_sodium E) (pe_key E) (pkt_payload pkt)
        (mlvpn_nonce (proto_seq p) (proto_flow_id p)) = Some c" "length c = length (pkt_payload pkt) + 16"
      "crypto_decrypt (pe_sodium E) (pe_key E) c (mlvpn_nonce (proto_seq p) (proto_flow_id p)) = Some (pkt_payload pkt)"
      using encrypt_decrypt [OF S] by blast
    let ?p = "p\<lparr>proto_len := proto_len p + 16, proto_data := zero_pad DEFAULT_MTU c\<rparr>"
    have short: "PKTHDRSIZ + unat (pkt_len pkt) + 16 \<le> DEFAULT_MTU"
      and wire: "wire = take (PKTHDRSIZ + length c) (proto_to_mem (proto_hton ?p))"
      using w False c len by (auto simp: proto_payload_def Let_def pl add.assoc split: if_splits)
    have "unat (pkt_len pkt + 16) = unat (pkt_len pkt) + 16" using short by (simp add: unat_word_ariths)
    then have lc: "length c = unat (proto_len ?p)" using c(2) len hd(1) by simp
    have lw: "length wire = PKTHDRSIZ + length c"
      unfolding wire using short c(2) len by (simp add: proto_hton_def zero_pad_def)
    have "mlvpn_protocol_read E' rtun r = Some (read_tunnel E' (mlvpn_timestamp64 (pe_now E')) ?p rtun,
        \<lparr>pkt_len = pkt_len pkt, pkt_type = pkt_type pkt, pkt_reorder = 1,
         pkt_seq = (if pkt_type pkt = MLVPN_PKT_DATA then data_seq else 0),
         pkt_data = zero_pad DEFAULT_MTU (pkt_payload pkt)\<rparr>)"
      using protocol_read_wire [of ?p c r E' rtun] hd lc lw wire fits r False keys c ty
      by (simp add: same_keys_def)
    then show ?thesis using pay by simp
  qed
qed

lemma nonce_inject: "mlvpn_nonce s f = mlvpn_nonce s' f' \<longleftrightarrow> s = s' \<and> f = f'"
proof
  assume "mlvpn_nonce s f = mlvpn_nonce s' f'"
  then have "word_le s = word_le s'" "word_le f = word_le f'" by (simp_all add: mlvpn_nonce_def)
  then have "word_of_le (word_le s) = (word_of_le (word_le s') :: u64)"
    "word_of_le (word_le f) = (word_of_le (word_le f') :: u32)" by simp_all
  then show "s = s' \<and> f = f'" by simp
qed simp

text \<open>A sequence of sends, each at its own time: the tunnel and \<^verbatim>\<open>data_seq\<close> after them.\<close>

definition encap_all ::
  "mlvpn_tunnel_t \<times> u64 \<Rightarrow> (proto_env \<times> mlvpn_pkt_t) list \<Rightarrow> (mlvpn_tunnel_t \<times> u64) outcome" where
  "encap_all = ofold (\<lambda>(tun, ds) (E, pkt). obind (rtun_encap E tun ds pkt) (\<lambda>(w, tun', ds'). Ok (tun', ds')))"

lemma encap_seq:
  assumes "rtun_encap E tun ds pkt = Ok (w, tun', ds')"
  shows "t_seq tun' = t_seq tun + 1 \<and> t_flow_id tun' = t_flow_id tun"
  using assms by (auto simp: rtun_encap_def Let_def obind_eq_Ok_iff proto_header_def reply_timestamp_def
      split: prod.splits if_splits)

lemma encap_all_seq:
  "encap_all (tun, ds) xs = Ok (tun', ds') \<Longrightarrow>
   t_seq tun' = t_seq tun + of_nat (length xs) \<and> t_flow_id tun' = t_flow_id tun"
proof (induction xs arbitrary: tun ds)
  case (Cons x xs)
  then obtain tun1 ds1 w where 1: "rtun_encap (fst x) tun ds (snd x) = Ok (w, tun1, ds1)"
    and "encap_all (tun1, ds1) xs = Ok (tun', ds')"
    by (auto simp: encap_all_def obind_eq_Ok_iff split: prod.splits)
  with Cons.IH encap_seq [OF 1] show ?case by (simp add: add_ac)
qed (simp add: encap_all_def)

lemma encap_encrypts:
  assumes "sodium_ok (pe_sodium E)" and "pkt_wf pkt" and "\<not> (pe_cleartext E \<and> pkt_type pkt = MLVPN_PKT_DATA)"
    and "rtun_encap E tun ds pkt = Ok (Some wire, tun', ds')"
  shows "crypto_encrypt (pe_sodium E) (pe_key E) (pkt_payload pkt) (mlvpn_nonce (t_seq tun) (t_flow_id tun)) =
     Some (drop PKTHDRSIZ wire)"
proof -
  let ?pkt = "pkt\<lparr>pkt_reorder := 1\<rparr>"
  obtain p where h: "proto_header (mlvpn_timestamp64 (pe_now E)) tun ds ?pkt = (p, tun', ds')"
    and w: "proto_payload E p ?pkt = Ok (Some wire)"
    using assms(4) by (auto simp: rtun_encap_def Let_def obind_eq_Ok_iff split: prod.splits)
  note hd = proto_header_spec [OF h]
  have pl: "pkt_payload ?pkt = pkt_payload pkt" by (simp add: pkt_payload_def)
  obtain c where c: "crypto_encrypt (pe_sodium E) (pe_key E) (pkt_payload pkt) (mlvpn_nonce (t_seq tun) (t_flow_id tun)) = Some c"
    and lc: "length c = unat (pkt_len pkt) + 16"
    using encrypt_decrypt [OF assms(1)] length_pkt_payload [OF assms(2)] by metis
  let ?q = "p\<lparr>proto_len := proto_len p + of_nat crypto_PADSIZE, proto_data := zero_pad DEFAULT_MTU c\<rparr>"
  have wire: "wire = take (PKTHDRSIZ + length c) (proto_to_mem (proto_hton ?q))" and "length c \<le> DEFAULT_MTU"
    using w assms(3) c lc hd(5,6) by (auto simp: proto_payload_def Let_def pl add.assoc split: if_splits)
  obtain a where "proto_to_mem (proto_hton ?q) = a @ zero_pad DEFAULT_MTU c" "length a = PKTHDRSIZ"
    by (simp add: proto_to_mem_def proto_hton_def PKTHDRSIZ_def)
  then have "drop PKTHDRSIZ wire = c" using wire by (simp add: zero_pad_def)
  then show ?thesis using c by simp
qed

text \<open>An encrypted packet of two bytes on a fresh tunnel, for the examples below.\<close>

definition ex_env :: proto_env where
  "ex_env = \<lparr>pe_sodium = tag_box, pe_shifts = \<lparr>shl64 = id, shl_int = id\<rparr>, pe_key = [], pe_cleartext = False, pe_now = 5\<rparr>"

definition ex_pkt :: mlvpn_pkt_t where
  "ex_pkt = \<lparr>pkt_len = 2, pkt_type = MLVPN_PKT_DATA, pkt_reorder = 0, pkt_seq = 0, pkt_data = zero_pad DEFAULT_MTU [7, 8]\<rparr>"

lemma ex_facts:
  "pkt_wf ex_pkt" "pkt_payload ex_pkt = [7, 8]" "pkt_type ex_pkt = MLVPN_PKT_DATA" "pkt_len ex_pkt = 2"
  "\<not> pe_cleartext ex_env" "sodium_ok (pe_sodium ex_env)" "same_keys ex_env ex_env"
  using tag_box_ok by (simp_all add: ex_pkt_def ex_env_def pkt_wf_def zero_pad_def pkt_payload_def same_keys_def)

lemma ex_encap:
  obtains wire tun' ds' where "rtun_encap ex_env tun ds ex_pkt = Ok (Some wire, tun', ds')" and "length wire = 46"
proof -
  obtain p tun' ds' where "proto_header (mlvpn_timestamp64 5) tun ds (ex_pkt\<lparr>pkt_reorder := 1\<rparr>) = (p, tun', ds')"
    by (metis prod_cases3)
  then show ?thesis
    using that by (simp add: rtun_encap_def Let_def proto_payload_def PKTHDRSIZ_def crypto_encrypt_def tag_box_def
        pkt_payload_def zero_pad_def proto_hton_def ex_env_def ex_pkt_def)
qed

definition ex_raw :: "bytes \<Rightarrow> mlvpn_pkt_t" where
  "ex_raw wire = pkt_zero\<lparr>pkt_len := of_nat (length wire), pkt_data := wire\<rparr>"

lemma ex_raw_facts: "pkt_len (ex_raw wire) = of_nat (length wire)" "take (length wire) (pkt_data (ex_raw wire)) = wire"
  by (simp_all add: ex_raw_def)

section \<open>Properties\<close>

text \<open>
  C10: Whatever is sent is received: between two ends that share the key and the cleartext option, a packet that fits a
  datagram is read back with its payload, length and type, marked for reordering, and a data packet with the
  sequence number it was given. Encrypted or not, for every type of packet.
\<close>

theorem protocol_roundtrip:
  assumes "same_keys E E'" and "sodium_ok (pe_sodium E)"
    and "pkt_wf pkt" and "pkt_type pkt < 64"
    and "pe_cleartext E \<and> pkt_type pkt = MLVPN_PKT_DATA \<longrightarrow> pkt_len pkt \<noteq> 0"
    and "rtun_encap E tun data_seq pkt = Ok (Some wire, tun', data_seq')" and "length wire \<le> DEFAULT_MTU"
    and "pkt_len r = of_nat (length wire)" and "take (length wire) (pkt_data r) = wire"
  shows "\<exists>rtun' d. mlvpn_protocol_read E' rtun r = Some (rtun', d) \<and>
     pkt_payload d = pkt_payload pkt \<and> pkt_len d = pkt_len pkt \<and> pkt_type d = pkt_type pkt \<and> pkt_reorder d = 1 \<and>
     pkt_seq d = (if pkt_type pkt = MLVPN_PKT_DATA then data_seq else 0)"
  using encap_read [OF assms(1-4) _ assms(6-9)] assms(5) by blast

theorem protocol_roundtrip_witness:
  "\<exists>wire tun' ds' rtun' d. rtun_encap ex_env tunnel_zero 9 ex_pkt = Ok (Some wire, tun', ds') \<and>
     mlvpn_protocol_read ex_env tunnel_zero (ex_raw wire) = Some (rtun', d) \<and> pkt_payload d = [7, 8] \<and> pkt_seq d = 9"
proof -
  obtain wire tun' ds' where w: "rtun_encap ex_env tunnel_zero 9 ex_pkt = Ok (Some wire, tun', ds')" "length wire = 46"
    by (rule ex_encap)
  have "pkt_type ex_pkt < 64" "pe_cleartext ex_env \<and> pkt_type ex_pkt = MLVPN_PKT_DATA \<longrightarrow> pkt_len ex_pkt \<noteq> 0"
    "length wire \<le> DEFAULT_MTU" using w(2) by (simp_all add: ex_facts)
  from protocol_roundtrip [OF ex_facts(7,6,1) this(1,2) w(1) this(3) ex_raw_facts, of tunnel_zero] w(1) show ?thesis
    by (auto simp: ex_facts)
qed

lemma accepted_packet:
  assumes "sodium_ok (pe_sodium E)" and "mlvpn_protocol_read E tun pkt = Some (tun', d)"
  defines "p \<equiv> proto_ntoh (proto_of_mem (zero_pad (PKTHDRSIZ + DEFAULT_MTU) (take (unat (pkt_len pkt)) (pkt_data pkt))))"
  shows "28 \<le> unat (pkt_len pkt) \<and> unat (pkt_len pkt) \<le> 1500 \<and>
     0 < unat (bswap (proto_len p)) \<and> unat (bswap (proto_len p)) \<le> 1500 \<and> pkt_wf d \<and>
     (pe_cleartext E \<and> pkt_type d = MLVPN_PKT_DATA \<or>
      crypto_decrypt (pe_sodium E) (pe_key E) (take (unat (bswap (proto_len p))) (proto_data p))
        (mlvpn_nonce (proto_seq p) (proto_flow_id p)) = Some (pkt_payload d))"
proof -
  let ?raw = "proto_of_mem (zero_pad (PKTHDRSIZ + DEFAULT_MTU) (take (unat (pkt_len pkt)) (pkt_data pkt)))"
  let ?rlen = "bswap (proto_len ?raw)"
  have len: "proto_len p = proto_len ?raw" by (simp add: p_def proto_ntoh_def)
  have g: "28 \<le> unat (pkt_len pkt)" "unat (pkt_len pkt) \<le> 1500" "?rlen \<noteq> 0" "unat ?rlen \<le> 1500"
    using assms(2) by (auto simp: mlvpn_protocol_read_def Let_def PKTHDRSIZ_def split: if_splits)
  have pos: "0 < unat ?rlen" using g(3) by (simp add: unat_gt_0)
  show ?thesis
  proof (cases "pe_cleartext E \<and> ucast (proto_flags p) = MLVPN_PKT_DATA")
    case True
    then have "pkt_len d = ?rlen" "pkt_type d = MLVPN_PKT_DATA" "pkt_data d = zero_pad DEFAULT_MTU (take (unat ?rlen) (proto_data p))"
      using assms(2) g by (auto simp: mlvpn_protocol_read_def Let_def p_def [symmetric] split: if_splits)
    then show ?thesis using True g pos len by (simp add: pkt_wf_def zero_pad_def)
  next
    case False
    let ?c = "take (unat ?rlen) (proto_data p)"
    obtain m where m: "crypto_decrypt (pe_sodium E) (pe_key E) ?c (mlvpn_nonce (proto_seq p) (proto_flow_id p)) = Some m"
      and d: "pkt_len d = ?rlen - 16" "pkt_data d = zero_pad DEFAULT_MTU m"
      using assms(2) False g by (auto simp: mlvpn_protocol_read_def Let_def p_def [symmetric] split: if_splits)
    have "length (proto_data p) = 1500"
      using g(1,2) by (simp add: p_def proto_ntoh_def proto_of_mem_def Let_def zero_pad_def PKTHDRSIZ_def)
    then have "unat ?rlen = length m + 16" using decrypt_length [OF assms(1) m] g(4) by simp
    then have "unat (pkt_len d) = length m"
      unfolding d(1) by (subst unat_sub) (simp_all add: word_le_nat_alt)
    then have "pkt_payload d = m" "pkt_wf d"
      using d(2) g(4) \<open>unat ?rlen = length m + 16\<close> by (simp_all add: pkt_payload_def zero_pad_def pkt_wf_def)
    then show ?thesis using m g pos len by simp
  qed
qed

text \<open>An accepted packet changes the loss window, the saved timestamp and the round-trip estimate of the tunnel, nothing else.\<close>

lemma read_tunnel_frame:
  "(read_tunnel E n p t)\<lparr>t_seq_vect := v, t_seq_last := l, t_saved_timestamp := a, t_saved_timestamp_received_at := b,
      t_srtt := c, t_rttvar := d, t_rtt_hit := e\<rparr> =
   t\<lparr>t_seq_vect := v, t_seq_last := l, t_saved_timestamp := a, t_saved_timestamp_received_at := b,
      t_srtt := c, t_rttvar := d, t_rtt_hit := e\<rparr>"
  by (simp add: read_tunnel_def Let_def mlvpn_loss_update_def rtt_update_def)

lemma protocol_read_tunnel: "mlvpn_protocol_read E t pkt = Some (t', d) \<Longrightarrow> \<exists>p. t' = read_tunnel E (mlvpn_timestamp64 (pe_now E)) p t"
  by (auto simp: mlvpn_protocol_read_def Let_def split: if_splits)

text \<open>
  C11: A packet is accepted only if it has a whole header and a stated length between 1 and 1500 bytes, and, unless it is
  cleartext data where that is allowed, its content was opened with the shared key and the nonce of its
  header. Whatever is accepted fits the packet's array.
\<close>

theorem protocol_read_accepts_authentic:
  assumes "sodium_ok (pe_sodium E)" and "mlvpn_protocol_read E tun pkt = Some (tun', d)"
  defines "p \<equiv> proto_ntoh (proto_of_mem (zero_pad (PKTHDRSIZ + DEFAULT_MTU) (take (unat (pkt_len pkt)) (pkt_data pkt))))"
  shows "28 \<le> unat (pkt_len pkt) \<and> unat (pkt_len pkt) \<le> 1500 \<and>
     0 < unat (bswap (proto_len p)) \<and> unat (bswap (proto_len p)) \<le> 1500 \<and> pkt_wf d \<and>
     (pe_cleartext E \<and> pkt_type d = MLVPN_PKT_DATA \<or>
      crypto_decrypt (pe_sodium E) (pe_key E) (take (unat (bswap (proto_len p))) (proto_data p))
        (mlvpn_nonce (proto_seq p) (proto_flow_id p)) = Some (pkt_payload d))"
  using accepted_packet [OF assms(1,2)] unfolding p_def .

theorem protocol_read_accepts_authentic_witness:
  "\<exists>wire c n rtun' d. mlvpn_protocol_read ex_env tunnel_zero (ex_raw wire) = Some (rtun', d) \<and>
     crypto_decrypt (pe_sodium ex_env) (pe_key ex_env) c n = Some (pkt_payload d)"
proof -
  obtain wire tun' ds' where w: "rtun_encap ex_env tunnel_zero 9 ex_pkt = Ok (Some wire, tun', ds')" "length wire = 46"
    by (rule ex_encap)
  have "pkt_type ex_pkt < 64" "length wire \<le> DEFAULT_MTU" using w(2) by (simp_all add: ex_facts)
  from encap_read [OF ex_facts(7,6,1) this(1) _ w(1) this(2) ex_raw_facts, of tunnel_zero] obtain rtun' d where
    d: "mlvpn_protocol_read ex_env tunnel_zero (ex_raw wire) = Some (rtun', d)" using ex_facts by auto
  from protocol_read_accepts_authentic [OF ex_facts(6) d] ex_facts(5) d show ?thesis by blast
qed

text \<open>
  C12: No nonce is used twice on a tunnel: of two encrypted packets with fewer than \<open>2^64\<close> sends between them, whatever
  those sent and whether they succeeded, each is the encryption of its payload under a nonce of its own.
\<close>

theorem nonce_never_reused:
  assumes "sodium_ok (pe_sodium E1)" and "sodium_ok (pe_sodium E2)" and "pkt_wf p1" and "pkt_wf p2"
    and "\<not> (pe_cleartext E1 \<and> pkt_type p1 = MLVPN_PKT_DATA)" and "\<not> (pe_cleartext E2 \<and> pkt_type p2 = MLVPN_PKT_DATA)"
    and "rtun_encap E1 tun ds p1 = Ok (Some wire1, tun1, ds1)"
    and "encap_all (tun1, ds1) xs = Ok (tun2, ds2)" and "length xs < 2 ^ 64 - 1"
    and "rtun_encap E2 tun2 ds2 p2 = Ok (Some wire2, tun3, ds3)"
  shows "\<exists>n1 n2. n1 \<noteq> n2 \<and>
     crypto_encrypt (pe_sodium E1) (pe_key E1) (pkt_payload p1) n1 = Some (drop PKTHDRSIZ wire1) \<and>
     crypto_encrypt (pe_sodium E2) (pe_key E2) (pkt_payload p2) n2 = Some (drop PKTHDRSIZ wire2)"
proof -
  let ?k = "Suc (length xs)"
  have "t_seq tun2 = t_seq tun + of_nat ?k" using encap_seq [OF assms(7)] encap_all_seq [OF assms(8)] by simp
  moreover have "unat (of_nat ?k :: u64) = ?k" using assms(9) by (simp only: unat_of_nat) simp
  then have "(of_nat ?k :: u64) \<noteq> 0" by (metis Suc_neq_Zero unsigned_0)
  ultimately have "mlvpn_nonce (t_seq tun) (t_flow_id tun) \<noteq> mlvpn_nonce (t_seq tun2) (t_flow_id tun2)"
    by (simp only: nonce_inject) simp
  then show ?thesis
    using encap_encrypts [OF assms(1,3,5,7)] encap_encrypts [OF assms(2,4,6,10)] by blast
qed

theorem nonce_never_reused_witness:
  "\<exists>n1 n2 c1 c2. n1 \<noteq> n2 \<and> crypto_encrypt (pe_sodium ex_env) (pe_key ex_env) (pkt_payload ex_pkt) n1 = Some c1 \<and>
     crypto_encrypt (pe_sodium ex_env) (pe_key ex_env) (pkt_payload ex_pkt) n2 = Some c2"
proof -
  obtain w1 t1 d1 where 1: "rtun_encap ex_env tunnel_zero 9 ex_pkt = Ok (Some w1, t1, d1)" by (rule ex_encap)
  obtain w2 t2 d2 where 2: "rtun_encap ex_env t1 d1 ex_pkt = Ok (Some w2, t2, d2)" by (rule ex_encap)
  have c: "\<not> (pe_cleartext ex_env \<and> pkt_type ex_pkt = MLVPN_PKT_DATA)" by (simp add: ex_facts)
  have e: "encap_all (t1, d1) [] = Ok (t1, d1)" by (simp add: encap_all_def)
  from nonce_never_reused [OF ex_facts(6,6,1,1) c c 1 e _ 2] show ?thesis by auto
qed

end
