(* ===== verification/Reorder.thy ===== *)
theory Reorder
  imports Prelude
begin

text \<open>
  The reorder buffer of \<^verbatim>\<open>src/reorder.c\<close>: a ring of packet pointers indexed by sequence number
  (\<^verbatim>\<open>order_buf\<close>) and a ring of packets ready to be returned (\<^verbatim>\<open>ready_buf\<close>). Pointers are pool
  entries (\<open>nat\<close>), NULL is \<open>None\<close>; every access to a ring is checked against its memory.
  The abstraction is a window of optional packets starting at \<^verbatim>\<open>min_seqn\<close> together with the
  list of ready packets; each operation is shown to act on it as intended whenever the size is a
  power of two.
\<close>

unbundle bit_operations_syntax

record cir_buffer =
  cir_size :: u32
  cir_mask :: u32
  cir_head :: u32
  cir_tail :: u32
  cir_pkts :: "nat option list"

record mlvpn_reorder_buffer =
  ro_min_seqn :: u64
  ro_memsize :: u32
  ro_ready :: cir_buffer
  ro_order :: cir_buffer
  ro_initialized :: bool

section \<open>Creation\<close>

text \<open>
  \<^verbatim>\<open>sizeof(struct mlvpn_reorder_buffer)\<close> is 72 bytes and a pointer 8; the sum is computed in 64
  bits from the 32 bit product \<open>2 * size\<close> and stored in an \<^verbatim>\<open>unsigned int\<close>.
\<close>

definition reorder_bufsize :: "u32 \<Rightarrow> u32" where
  "reorder_bufsize sz = ucast (72 + (ucast (2 * sz) :: u64) * 8)"

text \<open>
  \<open>None\<close> is the NULL return. The two pointer arrays follow the struct in the \<open>bufsize\<close> bytes of
  memory: the ready ring takes the first \<open>size\<close> slots, the order ring the rest.
\<close>

definition mlvpn_reorder_init :: "u32 \<Rightarrow> u32 \<Rightarrow> mlvpn_reorder_buffer option" where
  "mlvpn_reorder_init bufsize sz =
     (if bufsize < reorder_bufsize sz then None
      else let slots = (unat bufsize - 72) div 8 in
        Some \<lparr>ro_min_seqn = 0, ro_memsize = bufsize,
          ro_ready = \<lparr>cir_size = sz, cir_mask = sz - 1, cir_head = 0, cir_tail = 0,
                      cir_pkts = replicate (min (unat sz) slots) None\<rparr>,
          ro_order = \<lparr>cir_size = sz, cir_mask = sz - 1, cir_head = 0, cir_tail = 0,
                      cir_pkts = replicate (slots - unat sz) None\<rparr>,
          ro_initialized = False\<rparr>)"

definition mlvpn_reorder_create :: "u32 \<Rightarrow> mlvpn_reorder_buffer option" where
  "mlvpn_reorder_create sz = mlvpn_reorder_init (reorder_bufsize sz) sz"

definition mlvpn_reorder_reset :: "mlvpn_reorder_buffer \<Rightarrow> mlvpn_reorder_buffer" where
  "mlvpn_reorder_reset b =
     (case mlvpn_reorder_init (ro_memsize b) (cir_size (ro_order b)) of
        None \<Rightarrow> b | Some b' \<Rightarrow> b')"

section \<open>Overflow handling\<close>

definition cir_next :: "cir_buffer \<Rightarrow> u32 \<Rightarrow> u32" where
  "cir_next c i = (i + 1) AND cir_mask c"

definition ready_full :: "mlvpn_reorder_buffer \<Rightarrow> bool" where
  "ready_full b \<longleftrightarrow> cir_next (ro_ready b) (cir_head (ro_ready b)) = cir_tail (ro_ready b)"

text \<open>The packet under the head of the order ring.\<close>

definition order_head :: "mlvpn_reorder_buffer \<Rightarrow> nat option outcome" where
  "order_head b = mem_rd (cir_pkts (ro_order b)) (unat (cir_head (ro_order b)))"

text \<open>Clear the head slot of the order ring and advance, or only advance.\<close>

definition order_pop :: "mlvpn_reorder_buffer \<Rightarrow> mlvpn_reorder_buffer" where
  "order_pop b = b\<lparr>ro_order := (ro_order b)
     \<lparr>cir_pkts := (cir_pkts (ro_order b))[unat (cir_head (ro_order b)) := None],
      cir_head := cir_next (ro_order b) (cir_head (ro_order b))\<rparr>\<rparr>"

definition order_skip :: "mlvpn_reorder_buffer \<Rightarrow> mlvpn_reorder_buffer" where
  "order_skip b = b\<lparr>ro_order := (ro_order b)\<lparr>cir_head := cir_next (ro_order b) (cir_head (ro_order b))\<rparr>\<rparr>"

text \<open>Store a packet in the head slot of the ready ring, and advance that head.\<close>

definition ready_store :: "mlvpn_reorder_buffer \<Rightarrow> nat \<Rightarrow> mlvpn_reorder_buffer outcome" where
  "ready_store b p =
     obind (mem_wr (cir_pkts (ro_ready b)) (unat (cir_head (ro_ready b))) (Some p)) (\<lambda>pkts.
       Ok (b\<lparr>ro_ready := (ro_ready b)\<lparr>cir_pkts := pkts\<rparr>\<rparr>))"

definition ready_advance :: "mlvpn_reorder_buffer \<Rightarrow> mlvpn_reorder_buffer" where
  "ready_advance b = b\<lparr>ro_ready := (ro_ready b)\<lparr>cir_head := cir_next (ro_ready b) (cir_head (ro_ready b))\<rparr>\<rparr>"

definition order_count :: "mlvpn_reorder_buffer \<Rightarrow> nat" where
  "order_count b = length (filter (\<lambda>e. e \<noteq> None) (cir_pkts (ro_order b)))"

lemma ready_store_order [simp]: "ready_store b p = Ok b' \<Longrightarrow> ro_order b' = ro_order b"
  by (auto simp: ready_store_def obind_eq_Ok_iff)

lemma order_count_pop_less:
  "order_head b = Ok (Some p) \<Longrightarrow> ready_store b p = Ok b1 \<Longrightarrow> order_count (order_pop b1) < order_count b"
  by (auto simp: order_head_def order_count_def order_pop_def mem_rd_def filter_length_update_less
      split: if_splits)

lemma order_count_advance [simp]: "order_count (ready_advance b) = order_count b"
  by (simp add: order_count_def ready_advance_def)

lemma order_count_skip [simp]: "order_count (order_skip b) = order_count b"
  by (simp add: order_count_def order_skip_def)

text \<open>The inner loop: move all ready packets that fit to the ready ring.\<close>

function fill_move :: "mlvpn_reorder_buffer \<Rightarrow> u32 \<Rightarrow> (mlvpn_reorder_buffer \<times> u32) outcome" where
  "fill_move b adv =
     obind (order_head b) (\<lambda>e. case e of
         None \<Rightarrow> Ok (b, adv)
       | Some p \<Rightarrow> obind (ready_store b p) (\<lambda>b1.
           let b2 = order_pop b1 in
           if ready_full b2 then Ok (b2, adv + 1)
           else fill_move (ready_advance b2) (adv + 1)))"
  by pat_completeness auto
termination
  by (relation "measure (\<lambda>(b, adv). order_count b)") (auto intro: order_count_pop_less)

declare fill_move.simps [simp del]

lemma fill_move_count:
  "fill_move b adv = Ok (b', adv') \<Longrightarrow>
   order_count b' < order_count b \<or> order_head b = Ok None \<and> b' = b \<and> adv' = adv"
proof (induction b adv rule: fill_move.induct)
  case (1 b adv)
  from "1.prems" obtain e where e: "order_head b = Ok e"
    by (subst (asm) fill_move.simps) (auto simp: obind_eq_Ok_iff)
  show ?case
  proof (cases e)
    case None
    then show ?thesis using "1.prems" e by (subst (asm) fill_move.simps) simp
  next
    case (Some p)
    then obtain b1 where b1: "ready_store b p = Ok b1"
      using "1.prems" e by (subst (asm) fill_move.simps) (auto simp: obind_eq_Ok_iff)
    have less: "order_count (order_pop b1) < order_count b"
      using e Some b1 by (intro order_count_pop_less) auto
    show ?thesis
    proof (cases "ready_full (order_pop b1)")
      case True
      then show ?thesis using "1.prems" e Some b1 less by (subst (asm) fill_move.simps) auto
    next
      case False
      then have "fill_move (ready_advance (order_pop b1)) (adv + 1) = Ok (b', adv')"
        using "1.prems" e Some b1 by (subst (asm) fill_move.simps) simp
      from "1.IH" [OF e Some b1 refl False this] less show ?thesis by auto
    qed
  qed
qed

text \<open>
  The outer loop: while fewer than \<open>n\<close> positions were passed and the ready ring has room, skip a gap and
  move what follows it.
\<close>

function fill_loop :: "mlvpn_reorder_buffer \<Rightarrow> u32 \<Rightarrow> u32 \<Rightarrow> (mlvpn_reorder_buffer \<times> u32) outcome" where
  "fill_loop b n adv =
     (if adv < n \<and> \<not> ready_full b
      then obind (order_head b) (\<lambda>e.
           obind (case e of None \<Rightarrow> fill_move (order_skip b) (adv + 1) | Some _ \<Rightarrow> fill_move b adv)
             (\<lambda>r. fill_loop (fst r) n (snd r)))
      else Ok (b, adv))"
  by pat_completeness auto
termination
proof (relation "measures [\<lambda>(b, n, adv). order_count b, \<lambda>(b, n, adv). unat n - unat adv]", goal_cases)
  case (2 b n adv e r)
  obtain b' adv' where r: "r = (b', adv')" by (cases r)
  show ?case
  proof (cases e)
    case None
    then have "fill_move (order_skip b) (adv + 1) = Ok (b', adv')" using 2 r by simp
    from fill_move_count [OF this] show ?thesis
    proof
      assume "order_head (order_skip b) = Ok None \<and> b' = order_skip b \<and> adv' = adv + 1"
      moreover have "unat (adv + 1) = Suc (unat adv)" using 2(1) by (auto intro: unat_add_1_less)
      moreover have "unat adv < unat n" using 2(1) by (simp add: word_less_nat_alt)
      ultimately show ?thesis using r by simp
    qed (simp add: r)
  next
    case (Some p)
    then have "fill_move b adv = Ok (b', adv')" using 2 r by simp
    from fill_move_count [OF this] show ?thesis using 2 Some r by auto
  qed
qed simp

declare fill_loop.simps [simp del]

definition mlvpn_reorder_fill_overflow ::
  "mlvpn_reorder_buffer \<Rightarrow> u32 \<Rightarrow> (mlvpn_reorder_buffer \<times> u32) outcome" where
  "mlvpn_reorder_fill_overflow b n =
     obind (fill_loop b n 0) (\<lambda>(b', adv).
       Ok (b'\<lparr>ro_min_seqn := ro_min_seqn b' + ucast adv\<rparr>, adv))"

section \<open>Insertion\<close>

text \<open>Store the packet \<open>offset\<close> slots after the head of the order ring.\<close>

definition order_place :: "mlvpn_reorder_buffer \<Rightarrow> u64 \<Rightarrow> nat \<Rightarrow> mlvpn_reorder_buffer outcome" where
  "order_place b offset p =
     (let ob = ro_order b;
          position = (ucast ((ucast (cir_head ob) + offset) AND ucast (cir_mask ob)) :: u32)
      in obind (mem_wr (cir_pkts ob) (unat position) (Some p)) (\<lambda>pkts.
           Ok (b\<lparr>ro_order := ob\<lparr>cir_pkts := pkts\<rparr>\<rparr>)))"

text \<open>\<open>p\<close> is the pointer to the packet, \<open>seq\<close> its \<^verbatim>\<open>seq\<close> field; the \<open>int\<close> is the return value.\<close>

definition mlvpn_reorder_insert ::
  "mlvpn_reorder_buffer \<Rightarrow> nat \<Rightarrow> u64 \<Rightarrow> (int \<times> mlvpn_reorder_buffer) outcome" where
  "mlvpn_reorder_insert b0 p seq =
     (let b = (if ro_initialized b0 then b0 else b0\<lparr>ro_min_seqn := seq, ro_initialized := True\<rparr>);
          offset = seq - ro_min_seqn b;
          size = cir_size (ro_order b)
      in if offset < ucast size then
           obind (order_place b offset p) (\<lambda>b'. Ok (0, b'))
         else if offset < ucast (2 * size) then
           obind (mlvpn_reorder_fill_overflow b (ucast (offset + 1 - ucast size))) (\<lambda>(b1, adv).
             if (ucast adv :: u64) < offset + 1 - ucast size then Ok (- 1, b1)
             else obind (order_place b1 (seq - ro_min_seqn b1) p) (\<lambda>b'. Ok (0, b')))
         else Ok (- 2, b))"

section \<open>Draining\<close>

text \<open>
  The two loops of \<^verbatim>\<open>mlvpn_reorder_drain\<close>; \<open>n\<close> is \<^verbatim>\<open>max_pkts - drain_cnt\<close>, the result the pointers
  written to \<^verbatim>\<open>pkts\<close> and what is left of \<open>n\<close>.
\<close>

fun drain_ready :: "nat \<Rightarrow> mlvpn_reorder_buffer \<Rightarrow> (nat option list \<times> nat \<times> mlvpn_reorder_buffer) outcome" where
  "drain_ready 0 b = Ok ([], 0, b)"
| "drain_ready (Suc n) b =
     (let rb = ro_ready b in
      if cir_tail rb \<noteq> cir_head rb
      then obind (mem_rd (cir_pkts rb) (unat (cir_tail rb))) (\<lambda>e.
           obind (drain_ready n (b\<lparr>ro_ready := rb\<lparr>cir_tail := cir_next rb (cir_tail rb)\<rparr>\<rparr>)) (\<lambda>(es, m, b').
           Ok (e # es, m, b')))
      else Ok ([], Suc n, b))"

fun drain_order :: "nat \<Rightarrow> mlvpn_reorder_buffer \<Rightarrow> (nat option list \<times> mlvpn_reorder_buffer) outcome" where
  "drain_order 0 b = Ok ([], b)"
| "drain_order (Suc n) b =
     obind (order_head b) (\<lambda>e.
       if e \<noteq> None
       then obind (drain_order n ((order_pop b)\<lparr>ro_min_seqn := ro_min_seqn b + 1\<rparr>)) (\<lambda>(es, b').
            Ok (e # es, b'))
       else Ok ([], b))"

definition mlvpn_reorder_drain ::
  "mlvpn_reorder_buffer \<Rightarrow> nat \<Rightarrow> (nat option list \<times> mlvpn_reorder_buffer) outcome" where
  "mlvpn_reorder_drain b max_pkts =
     obind (drain_ready max_pkts b) (\<lambda>(es1, n, b1).
     obind (drain_order n b1) (\<lambda>(es2, b2). Ok (es1 @ es2, b2)))"

section \<open>Abstraction: a window and a list of ready packets\<close>

definition cir_wf :: "nat \<Rightarrow> cir_buffer \<Rightarrow> bool" where
  "cir_wf k c \<longleftrightarrow> cir_size c = 2 ^ k \<and> cir_mask c = 2 ^ k - 1 \<and> length (cir_pkts c) = 2 ^ k \<and>
     unat (cir_head c) < 2 ^ k \<and> unat (cir_tail c) < 2 ^ k"

definition ro_wf :: "nat \<Rightarrow> mlvpn_reorder_buffer \<Rightarrow> bool" where
  "ro_wf k b \<longleftrightarrow> 0 < k \<and> k \<le> 27 \<and> ro_memsize b = reorder_bufsize (2 ^ k) \<and> cir_wf k (ro_ready b) \<and> cir_wf k (ro_order b)"

definition window :: "mlvpn_reorder_buffer \<Rightarrow> nat option list" where
  "window b = ring_slice (cir_pkts (ro_order b)) (unat (cir_head (ro_order b))) (length (cir_pkts (ro_order b)))"

definition ready_list :: "mlvpn_reorder_buffer \<Rightarrow> nat option list" where
  "ready_list b = (let rb = ro_ready b in
     ring_slice (cir_pkts rb) (unat (cir_tail rb))
       (ring_count (length (cir_pkts rb)) (unat (cir_tail rb)) (unat (cir_head rb))))"

lemma ro_wf_facts:
  assumes "ro_wf k b"
  shows "0 < k" and "k < 32" and "length (window b) = 2 ^ k" and "length (ready_list b) < 2 ^ k"
    and "length (cir_pkts (ro_order b)) = 2 ^ k" and "unat (cir_head (ro_order b)) < 2 ^ k"
    and "length (cir_pkts (ro_ready b)) = 2 ^ k" and "unat (cir_head (ro_ready b)) < 2 ^ k"
    and "unat (cir_tail (ro_ready b)) < 2 ^ k"
  using assms by (auto simp: ro_wf_def cir_wf_def window_def ready_list_def Let_def ring_count_less)

lemma unat_and_mask:
  fixes x :: "'a::len word"
  shows "unat (x AND (2 ^ k - 1)) = unat x mod 2 ^ k"
proof -
  have "x AND (2 ^ k - 1) = take_bit k x" by (simp add: take_bit_eq_mask mask_eq_exp_minus_1)
  then show ?thesis by (simp only: unsigned_take_bit_eq) (simp only: take_bit_eq_mod)
qed

lemma unat_cir_next:
  assumes "cir_wf k c" and "k < 32"
  shows "unat (cir_next c i) = Suc (unat i) mod 2 ^ k"
proof -
  have "unat (i + 1) mod 2 ^ k = Suc (unat i) mod 2 ^ k"
    using assms(2) mod_mod_cancel [of "2 ^ k" "2 ^ 32" "Suc (unat i)"]
    by (simp add: unat_word_ariths(1) le_imp_power_dvd [of k 32 "2::nat", simplified])
  then show ?thesis using assms(1) by (simp add: cir_next_def cir_wf_def unat_and_mask)
qed

lemma order_head_window:
  "ro_wf k b \<Longrightarrow> order_head b = Ok (hd (window b))"
proof -
  assume wf: "ro_wf k b"
  obtain m where m: "(2::nat) ^ k = Suc m" by (metis gr0_implies_Suc zero_less_numeral zero_less_power)
  show ?thesis using ro_wf_facts [OF wf] m
    by (simp add: order_head_def window_def ring_slice_Cons_less)
qed

lemma ring_slice_pop:
  assumes "h < length xs"
  shows "ring_slice (xs[h := v]) (Suc h mod length xs) (length xs) =
     tl (ring_slice xs h (length xs)) @ [v]"
proof -
  obtain m where m: "length xs = Suc m" using assms by (cases xs) auto
  have h: "(Suc h + m) mod Suc m = h"
    using assms m by (metis add_Suc_shift mod_add_self2 mod_less)
  have "ring_slice (xs[h := v]) (Suc h) m = ring_slice xs (Suc h) m"
    using ring_slice_update_outside [of m m xs "Suc h" v] m h by simp
  moreover have "ring_slice (xs[h := v]) (Suc h mod length xs) (length xs) =
      ring_slice (xs[h := v]) (Suc h) (Suc m)"
    using ring_slice_mod [of "xs[h := v]" "Suc h" "Suc m"] m by simp
  moreover have "ring_slice xs h (length xs) = xs ! h # ring_slice xs (Suc h) m"
    using ring_slice_Cons_less [OF assms, of m] m by simp
  ultimately show ?thesis using m h assms by (simp add: ring_slice_Suc)
qed

lemma order_pop_spec:
  assumes "ro_wf k b"
  shows "ro_wf k (order_pop b)" and "window (order_pop b) = tl (window b) @ [None]"
    and "ready_list (order_pop b) = ready_list b" and "ro_min_seqn (order_pop b) = ro_min_seqn b"
    and "ro_initialized (order_pop b) = ro_initialized b"
proof -
  have w: "cir_wf k (ro_order b)" "k < 32" using assms by (auto simp: ro_wf_def)
  show "ro_wf k (order_pop b)"
    using assms unat_cir_next [OF w] by (simp add: ro_wf_def order_pop_def cir_wf_def)
  show "window (order_pop b) = tl (window b) @ [None]"
    using unat_cir_next [OF w] ro_wf_facts [OF assms]
      ring_slice_pop [of "unat (cir_head (ro_order b))" "cir_pkts (ro_order b)" None]
    by (simp add: window_def order_pop_def)
qed (simp_all add: ready_list_def order_pop_def Let_def)

lemma order_skip_gap:
  assumes "ro_wf k b" and "hd (window b) = None"
  shows "order_skip b = order_pop b"
proof -
  have "cir_pkts (ro_order b) ! unat (cir_head (ro_order b)) = None"
    using order_head_window [OF assms(1)] assms(2) ro_wf_facts [OF assms(1)]
    by (simp add: order_head_def)
  then have "(cir_pkts (ro_order b))[unat (cir_head (ro_order b)) := None] = cir_pkts (ro_order b)"
    by (metis list_update_id)
  then show ?thesis by (simp add: order_skip_def order_pop_def)
qed

lemma ring_slice_push:
  assumes "s < length xs" and "e < length xs" and "Suc e mod length xs \<noteq> s"
  shows "ring_slice (xs[e := v]) s (ring_count (length xs) s (Suc e mod length xs)) =
     ring_slice xs s (ring_count (length xs) s e) @ [v]"
proof -
  let ?n = "length xs" and ?c = "ring_count (length xs) s e"
  have e: "(s + ?c) mod ?n = e" by (rule ring_count_end [OF assms(1,2)])
  have "?c < ?n" using assms by (intro ring_count_less) auto
  then have "ring_slice (xs[e := v]) s ?c = ring_slice xs s ?c"
    using ring_slice_update_outside [of ?c ?c xs s v] e by simp
  then show ?thesis
    using ring_count_Suc_end [OF assms] e assms by (simp add: ring_slice_Suc)
qed

lemma ready_full_iff:
  assumes "ro_wf k b"
  shows "ready_full b \<longleftrightarrow> length (ready_list b) = 2 ^ k - 1"
proof -
  let ?h = "unat (cir_head (ro_ready b))" and ?t = "unat (cir_tail (ro_ready b))"
  have w: "cir_wf k (ro_ready b)" "k < 32" using assms by (auto simp: ro_wf_def)
  note f = ro_wf_facts [OF assms]
  have len: "length (ready_list b) = ring_count (2 ^ k) ?t ?h" using f by (simp add: ready_list_def Let_def)
  have "ready_full b \<longleftrightarrow> Suc ?h mod 2 ^ k = ?t"
    by (simp add: ready_full_def word_unat_eq_iff unat_cir_next [OF w])
  also have "\<dots> \<longleftrightarrow> ring_count (2 ^ k) ?t ?h = 2 ^ k - 1"
  proof
    assume "ring_count (2 ^ k) ?t ?h = 2 ^ k - 1"
    then have "Suc ?h mod 2 ^ k = Suc (?t + (2 ^ k - 1)) mod 2 ^ k"
      using ring_count_end [OF f(9,8)] by (metis mod_Suc_eq)
    then show "Suc ?h mod 2 ^ k = ?t" using f(9) by simp
  qed (use ring_count_full f in blast)
  finally show ?thesis by (simp add: len)
qed

definition ready_put :: "mlvpn_reorder_buffer \<Rightarrow> nat \<Rightarrow> mlvpn_reorder_buffer" where
  "ready_put b p = b\<lparr>ro_ready := (ro_ready b)\<lparr>cir_pkts :=
     (cir_pkts (ro_ready b))[unat (cir_head (ro_ready b)) := Some p]\<rparr>\<rparr>"

lemma ready_store_put: "ro_wf k b \<Longrightarrow> ready_store b p = Ok (ready_put b p)"
  by (simp add: ready_store_def ready_put_def ro_wf_facts)

lemma ready_put_spec:
  assumes "ro_wf k b" and "length (ready_list b) + 1 < 2 ^ k"
  shows "\<not> ready_full (ready_put b p)" and "ro_wf k (ready_advance (ready_put b p))"
    and "ready_list (ready_advance (ready_put b p)) = ready_list b @ [Some p]"
    and "window (ready_advance (ready_put b p)) = window b"
    and "ro_min_seqn (ready_advance (ready_put b p)) = ro_min_seqn b"
    and "ro_initialized (ready_advance (ready_put b p)) = ro_initialized b"
proof -
  have w: "cir_wf k (ro_ready b)" "k < 32" using assms by (auto simp: ro_wf_def)
  have nf: "\<not> ready_full b" using assms ready_full_iff [OF assms(1)] by simp
  then show "\<not> ready_full (ready_put b p)" by (simp add: ready_full_def ready_put_def cir_next_def)
  show "ro_wf k (ready_advance (ready_put b p))"
    using assms(1) unat_cir_next [OF w]
    by (simp add: ro_wf_def ready_advance_def ready_put_def cir_wf_def cir_next_def)
  have "cir_next (ro_ready (ready_put b p)) i = cir_next (ro_ready b) i" for i
    by (simp add: cir_next_def ready_put_def)
  moreover have "Suc (unat (cir_head (ro_ready b))) mod 2 ^ k \<noteq> unat (cir_tail (ro_ready b))"
    using nf by (simp add: ready_full_def word_unat_eq_iff unat_cir_next [OF w])
  ultimately show "ready_list (ready_advance (ready_put b p)) = ready_list b @ [Some p]"
    using ro_wf_facts [OF assms(1)] unat_cir_next [OF w]
      ring_slice_push [of "unat (cir_tail (ro_ready b))" "cir_pkts (ro_ready b)" "unat (cir_head (ro_ready b))" "Some p"]
    by (simp add: ready_list_def Let_def ready_advance_def) (simp add: ready_put_def)
qed (simp_all add: window_def ready_advance_def ready_put_def)

section \<open>Advancing the window\<close>

abbreviation some_of :: "'a option list \<Rightarrow> 'a option list" where
  "some_of xs \<equiv> filter (\<lambda>e. e \<noteq> None) xs"

abbreviation run_of :: "'a option list \<Rightarrow> nat" where
  "run_of xs \<equiv> length (takeWhile (\<lambda>e. e \<noteq> None) xs)"

text \<open>\<open>advanced k b a b'\<close>: \<open>b'\<close> is \<open>b\<close> after its window moved by \<open>a\<close> with what it passed now ready.\<close>

definition advanced :: "nat \<Rightarrow> mlvpn_reorder_buffer \<Rightarrow> nat \<Rightarrow> mlvpn_reorder_buffer \<Rightarrow> bool" where
  "advanced k b a b' \<longleftrightarrow> ro_wf k b' \<and> window b' = drop a (window b) @ replicate a None \<and>
     ready_list b' = ready_list b @ some_of (take a (window b)) \<and>
     ro_min_seqn b' = ro_min_seqn b \<and> ro_initialized b' = ro_initialized b"

lemma advanced_0: "ro_wf k b \<Longrightarrow> advanced k b 0 b"
  by (simp add: advanced_def)

lemma advanced_trans:
  assumes "advanced k b a b'" and "advanced k b' c b''" and "a + c \<le> length (window b)"
  shows "advanced k b (a + c) b''"
proof -
  have "c - (length (window b) - a) = 0" using assms(3) by simp
  moreover have "replicate a None @ replicate c None = replicate (a + c) None" by (simp add: replicate_add)
  ultimately show ?thesis using assms by (simp add: advanced_def take_add add.commute)
qed

lemma some_of_split: "length (some_of (take a xs)) + length (some_of (drop a xs)) = length (some_of xs)"
  by (metis append_take_drop_id filter_append length_append)

lemma some_of_replicate [simp]: "some_of (replicate a None) = []"
  by (induction a) auto

lemma advanced_total:
  "advanced k b a b' \<Longrightarrow> length (ready_list b') + length (some_of (window b')) =
     length (ready_list b) + length (some_of (window b))"
  using some_of_split [of a "window b"] by (simp add: advanced_def)

lemma advanced_skip:
  assumes "ro_wf k b" and "window b = None # ws"
  shows "advanced k b 1 (order_skip b)"
  using assms order_pop_spec [OF assms(1)] by (simp add: order_skip_gap advanced_def)

definition move_one :: "mlvpn_reorder_buffer \<Rightarrow> nat \<Rightarrow> mlvpn_reorder_buffer" where
  "move_one b p = order_pop (ready_advance (ready_put b p))"

lemma advanced_move:
  assumes "ro_wf k b" and "window b = Some p # ws" and "length (ready_list b) + 1 < 2 ^ k"
  shows "advanced k b 1 (move_one b p)"
  using assms ready_put_spec [OF assms(1,3), of p]
    order_pop_spec [of k "ready_advance (ready_put b p)"]
  by (simp add: advanced_def move_one_def)

lemma fill_move_Some:
  assumes "ro_wf k b" and "window b = Some p # ws" and "length (ready_list b) + 1 < 2 ^ k"
  shows "fill_move b adv = fill_move (move_one b p) (adv + 1)"
proof -
  have "ready_full (order_pop b1) = ready_full b1" for b1 by (simp add: ready_full_def order_pop_def)
  moreover have "ready_advance (order_pop b1) = order_pop (ready_advance b1)" for b1
    by (simp add: ready_advance_def order_pop_def)
  ultimately show ?thesis
    using assms order_head_window [OF assms(1)] ready_store_put [OF assms(1)] ready_put_spec [OF assms(1,3)]
    by (subst fill_move.simps) (simp add: Let_def move_one_def)
qed

lemma fill_move_None:
  "ro_wf k b \<Longrightarrow> hd (window b) = None \<Longrightarrow> fill_move b adv = Ok (b, adv)"
  using order_head_window [of k b] by (subst fill_move.simps) simp

lemma fill_move_spec:
  assumes "ro_wf k b" and "length (ready_list b) + length (some_of (window b)) < 2 ^ k"
  shows "\<exists>b'. fill_move b adv = Ok (b', adv + of_nat (run_of (window b))) \<and>
     advanced k b (run_of (window b)) b'"
  using assms
proof (induction "run_of (window b)" arbitrary: b adv)
  case 0
  have "window b \<noteq> []" using ro_wf_facts(3) [OF "0.prems"(1)] by auto
  with 0(1) have "hd (window b) = None" by (cases "window b") (auto split: if_splits)
  then show ?case using "0.prems"(1) 0(1) fill_move_None [OF "0.prems"(1)] advanced_0 by simp
next
  case (Suc m)
  from Suc(2) obtain p ws where w: "window b = Some p # ws" and m: "run_of ws = m"
    by (cases "window b") (auto split: if_splits)
  have room: "length (ready_list b) + 1 < 2 ^ k" using Suc.prems(2) w by simp
  let ?b1 = "move_one b p"
  have adv1: "advanced k b 1 ?b1" using Suc.prems(1) w room by (rule advanced_move)
  then have wf1: "ro_wf k ?b1" and w1: "window ?b1 = ws @ [None]" using w by (simp_all add: advanced_def)
  have run: "run_of (window ?b1) = m" using w1 m by (simp add: takeWhile_append2 takeWhile_tail)
  have tot: "length (ready_list ?b1) + length (some_of (window ?b1)) < 2 ^ k"
    using advanced_total [OF adv1] Suc.prems(2) by simp
  from Suc(1) [OF run [symmetric] wf1 tot, of "adv + 1"] obtain b' where
    b': "fill_move ?b1 (adv + 1) = Ok (b', adv + 1 + of_nat m)" "advanced k ?b1 m b'"
    using run by auto
  have "m \<le> length ws" using m length_takeWhile_le [of "\<lambda>e. e \<noteq> None" ws] by simp
  then have "advanced k b (Suc m) b'" using advanced_trans [OF adv1 b'(2)] w by simp
  moreover have "fill_move b adv = Ok (b', adv + of_nat (Suc m))"
    using fill_move_Some [OF Suc.prems(1) w room] b'(1) by (simp add: add.assoc)
  ultimately show ?case using w m by auto
qed

text \<open>Nothing is ready and the next expected packet is missing: the state after a full drain.\<close>

definition ro_drained :: "mlvpn_reorder_buffer \<Rightarrow> bool" where
  "ro_drained b \<longleftrightarrow> ready_list b = [] \<and> hd (window b) = None"

text \<open>Where the window ends up when it has to move by at least \<open>n\<close>.\<close>

definition fill_adv :: "'a option list \<Rightarrow> nat \<Rightarrow> nat" where
  "fill_adv w n = n + run_of (drop n w)"

lemma takeWhile_append_replicate:
  "run_of (xs @ replicate a None) = run_of xs"
  by (induction xs) (auto simp: takeWhile_replicate)

lemma run_of_drop: "j \<le> run_of xs \<Longrightarrow> run_of (drop j xs) = run_of xs - j"
proof (induction xs arbitrary: j)
  case (Cons x xs)
  then show ?case by (cases j) (auto split: if_splits)
qed simp

lemma fill_adv_run:
  assumes "s \<le> n" and "n \<le> s + run_of (drop s w)"
  shows "fill_adv w n = s + run_of (drop s w)"
proof -
  have "drop n w = drop (n - s) (drop s w)" using assms(1) by simp
  then show ?thesis using assms run_of_drop [of "n - s" "drop s w"] by (simp add: fill_adv_def)
qed

lemma fill_adv_bound: "n \<le> length w \<Longrightarrow> fill_adv w n \<le> length w"
  using length_takeWhile_le [of "\<lambda>e. e \<noteq> None" "drop n w"] by (simp add: fill_adv_def)

lemma run_of_le: "run_of xs \<le> length xs"
  by (rule length_takeWhile_le)

lemma some_of_less:
  assumes "hd w = None" and "0 < c" and "c \<le> length w"
  shows "length (some_of (take c w)) < c"
proof -
  obtain ws c' where "w = None # ws" "c = Suc c'" using assms by (cases w; cases c) auto
  then show ?thesis using length_filter_le [of "\<lambda>e. e \<noteq> None" "take c' ws"] by simp
qed

lemma fill_round:
  assumes b0: "ro_wf k b0" "ro_drained b0" and adv: "advanced k b0 c b" and c: "c < 2 ^ k"
  shows "\<exists>s b'. (case hd (window b) of None \<Rightarrow> fill_move (order_skip b) (of_nat c + 1)
                  | Some _ \<Rightarrow> fill_move b (of_nat c)) = Ok (b', of_nat (s + run_of (drop s (window b0)))) \<and>
     (s = c \<and> 0 < run_of (drop s (window b0)) \<or> s = Suc c) \<and>
     advanced k b0 (s + run_of (drop s (window b0))) b'"
proof -
  let ?w = "window b0"
  have len: "length ?w = 2 ^ k" by (rule ro_wf_facts(3) [OF b0(1)])
  obtain e ws where ws: "drop c ?w = e # ws" using c len by (metis Cons_nth_drop_Suc)
  have w: "window b = e # ws @ replicate c None" and wf: "ro_wf k b"
    using adv ws by (simp_all add: advanced_def)
  have "ready_list b0 = []" and hd0: "hd ?w = None" using b0(2) by (auto simp: ro_drained_def)
  have "length (some_of ?w) < 2 ^ k" using some_of_less [of ?w "length ?w"] hd0 len by simp
  with \<open>ready_list b0 = []\<close> have tot: "length (ready_list b) + length (some_of (window b)) < 2 ^ k"
    using advanced_total [OF adv] by simp
  show ?thesis
  proof (cases e)
    case None
    have a1: "advanced k b 1 (order_skip b)" using wf w None by (intro advanced_skip) auto
    have w1: "window (order_skip b) = ws @ replicate (Suc c) None" and wf1: "ro_wf k (order_skip b)"
      using a1 w by (simp_all add: advanced_def replicate_append_same)
    have ws': "ws = drop (Suc c) ?w" using ws by (metis drop_Suc list.sel(3) tl_drop)
    have run: "run_of (window (order_skip b)) = run_of (drop (Suc c) ?w)"
      using w1 ws' takeWhile_append_replicate by metis
    have tot1: "length (ready_list (order_skip b)) + length (some_of (window (order_skip b))) < 2 ^ k"
      using advanced_total [OF a1] tot by simp
    obtain b' where b': "fill_move (order_skip b) (of_nat c + 1) =
         Ok (b', of_nat c + 1 + of_nat (run_of (drop (Suc c) ?w)))"
      "advanced k (order_skip b) (run_of (drop (Suc c) ?w)) b'"
      using fill_move_spec [OF wf1 tot1, of "of_nat c + 1"] run by auto
    have "advanced k b0 (Suc c) (order_skip b)" using advanced_trans [OF adv a1] c len by simp
    then have "advanced k b0 (Suc c + run_of (drop (Suc c) ?w)) b'"
      using b'(2) run_of_le [of "drop (Suc c) ?w"] c len by (intro advanced_trans) auto
    then show ?thesis using w None b'(1) by (intro exI [of _ "Suc c"] exI [of _ b']) (simp add: add_ac)
  next
    case (Some p)
    have run: "run_of (window b) = run_of (drop c ?w)"
      using w ws takeWhile_append_replicate [of "e # ws" c] by simp
    obtain b' where b': "fill_move b (of_nat c) = Ok (b', of_nat c + of_nat (run_of (drop c ?w)))"
      "advanced k b (run_of (drop c ?w)) b'"
      using fill_move_spec [OF wf tot, of "of_nat c"] run by auto
    have "advanced k b0 (c + run_of (drop c ?w)) b'"
      using adv b'(2) run_of_le [of "drop c ?w"] c len by (intro advanced_trans) auto
    moreover have "0 < run_of (drop c ?w)" using ws Some by simp
    ultimately show ?thesis using w Some b'(1) by (intro exI [of _ c] exI [of _ b']) simp
  qed
qed

lemma unat_of_nat_less: "c < 2 ^ 32 \<Longrightarrow> unat (of_nat c :: u32) = c"
  by (simp only: unat_of_nat) simp

lemma fill_loop_spec:
  assumes b0: "ro_wf k b0" "ro_drained b0" and n: "unat n \<le> 2 ^ k"
    and "advanced k b0 c b" and "c < unat n"
  shows "\<exists>b'. fill_loop b n (of_nat c) = Ok (b', of_nat (fill_adv (window b0) (unat n))) \<and>
     advanced k b0 (fill_adv (window b0) (unat n)) b'"
  using assms(4,5)
proof (induction "unat n - c" arbitrary: b c rule: less_induct)
  case less
  let ?w = "window b0"
  have len: "length ?w = 2 ^ k" by (rule ro_wf_facts(3) [OF b0(1)])
  have k: "(2::nat) ^ k < 2 ^ 32" using ro_wf_facts(2) [OF b0(1)] by (intro power_strict_increasing) auto
  have c: "c < 2 ^ k" using less.prems n by simp
  have wf: "ro_wf k b" using less.prems(1) by (simp add: advanced_def)
  have "length (ready_list b) = length (some_of (take c ?w))"
    using less.prems(1) b0(2) by (simp add: advanced_def ro_drained_def)
  moreover have "length (some_of (take c ?w)) < 2 ^ k - 1"
  proof (cases "c = 0")
    case True
    then show ?thesis using one_less_power [of "2::nat" k] ro_wf_facts(1) [OF b0(1)] by simp
  next
    case False
    then show ?thesis using some_of_less [of ?w c] b0(2) c len by (simp add: ro_drained_def)
  qed
  ultimately have nf: "\<not> ready_full b" using ready_full_iff [OF wf] by simp
  have lt: "(of_nat c :: u32) < n"
    using less.prems(2) c k by (simp add: word_less_nat_alt unat_of_nat_less)
  obtain s b' where r: "(case hd (window b) of None \<Rightarrow> fill_move (order_skip b) (of_nat c + 1)
                  | Some _ \<Rightarrow> fill_move b (of_nat c)) = Ok (b', of_nat (s + run_of (drop s ?w)))"
    and s: "s = c \<and> 0 < run_of (drop s ?w) \<or> s = Suc c" and a: "advanced k b0 (s + run_of (drop s ?w)) b'"
    using fill_round [OF b0 less.prems(1) c] by blast
  let ?c = "s + run_of (drop s ?w)"
  have step: "fill_loop b n (of_nat c) = fill_loop b' n (of_nat ?c)"
    using nf lt r order_head_window [OF wf] by (subst fill_loop.simps) simp
  have "?c \<le> 2 ^ k" using s c len run_of_le [of "drop s ?w"] by auto
  then have u: "unat (of_nat ?c :: u32) = ?c" using k by (intro unat_of_nat_less) simp
  show ?case
  proof (cases "?c < unat n")
    case True
    moreover have "c < ?c" using s by linarith
    then have "unat n - ?c < unat n - c" using less.prems(2) by (rule diff_less_mono2)
    ultimately show ?thesis using less.hyps [OF _ a True] step by simp
  next
    case False
    then have "\<not> of_nat ?c < n" using u by (simp only: word_less_nat_alt) simp
    then have "fill_loop b' n (of_nat ?c) = Ok (b', of_nat ?c)" by (subst fill_loop.simps) simp
    moreover have "fill_adv ?w (unat n) = ?c"
      using s less.prems(2) False by (intro fill_adv_run) auto
    ultimately show ?thesis using step a by simp
  qed
qed

text \<open>The buffer with another \<^verbatim>\<open>min_seqn\<close> has the same contents.\<close>

lemma min_seqn_frame [simp, frame]:
  "window (b\<lparr>ro_min_seqn := m\<rparr>) = window b" "ready_list (b\<lparr>ro_min_seqn := m\<rparr>) = ready_list b"
  "ro_wf k (b\<lparr>ro_min_seqn := m\<rparr>) = ro_wf k b" "window (b\<lparr>ro_initialized := i\<rparr>) = window b"
  "ready_list (b\<lparr>ro_initialized := i\<rparr>) = ready_list b" "ro_wf k (b\<lparr>ro_initialized := i\<rparr>) = ro_wf k b"
  by (simp_all add: window_def ready_list_def ro_wf_def)

lemma ucast_of_nat_u64: "a < 2 ^ 32 \<Longrightarrow> (ucast (of_nat a :: u32) :: u64) = of_nat a"
  by (simp add: unsigned_of_nat take_bit_nat_eq_self)

lemma fill_overflow_spec:
  assumes "ro_wf k b" and "ro_drained b" and "0 < unat n" and "unat n \<le> 2 ^ k"
  defines "a \<equiv> fill_adv (window b) (unat n)"
  shows "\<exists>b'. mlvpn_reorder_fill_overflow b n = Ok (b', of_nat a) \<and> ro_wf k b' \<and>
     window b' = drop a (window b) @ replicate a None \<and> ready_list b' = some_of (take a (window b)) \<and>
     ro_min_seqn b' = ro_min_seqn b + of_nat a \<and> ro_initialized b' = ro_initialized b"
proof -
  obtain b' where b': "fill_loop b n 0 = Ok (b', of_nat a)" "advanced k b a b'"
    using fill_loop_spec [OF assms(1,2,4) advanced_0 [OF assms(1)] assms(3)] a_def by auto
  have "a \<le> 2 ^ k" using fill_adv_bound [of "unat n" "window b"] assms(4) ro_wf_facts(3) [OF assms(1)]
    by (simp add: a_def)
  moreover have "(2::nat) ^ k < 2 ^ 32"
    using ro_wf_facts(2) [OF assms(1)] by (intro power_strict_increasing) auto
  ultimately have "a < 2 ^ 32" by (rule le_less_trans)
  then show ?thesis
    using b' assms(2) ucast_of_nat_u64 [of a]
    by (simp add: mlvpn_reorder_fill_overflow_def advanced_def ro_drained_def)
qed

lemma ring_slice_update:
  assumes "j < length xs"
  shows "ring_slice (xs[(h + j) mod length xs := v]) h (length xs) =
     (ring_slice xs h (length xs))[j := v]"
proof (rule nth_equalityI)
  fix i
  assume "i < length (ring_slice (xs[(h + j) mod length xs := v]) h (length xs))"
  then have i: "i < length xs" by simp
  then have "(h + j) mod length xs = (h + i) mod length xs \<longleftrightarrow> j = i"
    using rotate_index_inj [OF assms i] by auto
  moreover have "(h + i) mod length xs < length xs" "(h + j) mod length xs < length xs"
    using i by (auto intro: mod_less_divisor)
  ultimately show "ring_slice (xs[(h + j) mod length xs := v]) h (length xs) ! i =
      (ring_slice xs h (length xs))[j := v] ! i"
    using i assms by (cases "j = i") (simp_all add: ring_slice_def)
qed simp

lemma ucast_mask_32_64: "k < 32 \<Longrightarrow> (ucast (2 ^ k - 1 :: u32) :: u64) = 2 ^ k - 1"
  by (rule bit_word_eqI) (auto simp: mask_eq_exp_minus_1 [symmetric] bit_simps)

lemma order_position:
  fixes h :: u32 and offset :: u64
  assumes "k < 32"
  shows "unat (ucast ((ucast h + offset) AND ucast (2 ^ k - 1 :: u32)) :: u32) =
     (unat h + unat offset) mod 2 ^ k"
proof -
  have 32: "(2::nat) ^ k < 2 ^ 32" using assms by (intro power_strict_increasing) auto
  have "unat ((ucast h + offset) AND (2 ^ k - 1)) = unat (ucast h + offset) mod 2 ^ k"
    by (rule unat_and_mask)
  also have "\<dots> = (unat h + unat offset) mod 2 ^ k"
    using assms mod_mod_cancel [of "2 ^ k" "2 ^ 64" "unat h + unat offset"]
    by (simp add: unat_word_ariths(1) unat_ucast_32_64 le_imp_power_dvd [of k 64 "2::nat", simplified])
  finally have u: "unat ((ucast h + offset) AND (2 ^ k - 1)) = (unat h + unat offset) mod 2 ^ k" .
  then have "unat ((ucast h + offset) AND (2 ^ k - 1)) < 2 ^ 32"
    using 32 by (metis less_trans mod_less_divisor zero_less_numeral zero_less_power)
  then show ?thesis
    using u assms by (simp add: ucast_mask_32_64 unsigned_ucast_eq take_bit_nat_eq_self)
qed

lemma order_place_spec:
  assumes "ro_wf k b" and "unat offset < 2 ^ k"
  shows "\<exists>b'. order_place b offset p = Ok b' \<and> ro_wf k b' \<and>
     window b' = (window b)[unat offset := Some p] \<and> ready_list b' = ready_list b \<and>
     ro_min_seqn b' = ro_min_seqn b \<and> ro_initialized b' = ro_initialized b"
proof -
  let ?ob = "ro_order b"
  note f = ro_wf_facts [OF assms(1)]
  have m: "cir_mask ?ob = 2 ^ k - 1" using assms(1) by (simp add: ro_wf_def cir_wf_def)
  let ?pos = "(unat (cir_head ?ob) + unat offset) mod 2 ^ k"
  have "order_place b offset p = Ok (b\<lparr>ro_order := ?ob\<lparr>cir_pkts := (cir_pkts ?ob)[?pos := Some p]\<rparr>\<rparr>)"
    using f by (simp add: order_place_def Let_def m order_position del: unsigned_ucast_eq)
  then show ?thesis
    using assms f ring_slice_update [of "unat offset" "cir_pkts ?ob" "unat (cir_head ?ob)" "Some p"]
    by (simp add: ro_wf_def cir_wf_def window_def ready_list_def)
qed

section \<open>What the operations do to the abstraction\<close>

lemma ready_list_Cons:
  assumes "ro_wf k b" and "cir_tail (ro_ready b) \<noteq> cir_head (ro_ready b)"
  defines "b1 \<equiv> b\<lparr>ro_ready := (ro_ready b)\<lparr>cir_tail := cir_next (ro_ready b) (cir_tail (ro_ready b))\<rparr>\<rparr>"
  shows "ready_list b = cir_pkts (ro_ready b) ! unat (cir_tail (ro_ready b)) # ready_list b1"
    and "ro_wf k b1" and "window b1 = window b"
proof -
  let ?rb = "ro_ready b"
  let ?t = "unat (cir_tail ?rb)" and ?h = "unat (cir_head ?rb)"
  note f = ro_wf_facts [OF assms(1)]
  have w: "cir_wf k ?rb" "k < 32" using assms(1) by (auto simp: ro_wf_def)
  have ne: "?h \<noteq> ?t" using assms(2) by (simp add: word_unat_eq_iff)
  have c: "ring_count (2 ^ k) (Suc ?t mod 2 ^ k) ?h = ring_count (2 ^ k) ?t ?h - 1"
    using ring_count_Suc_start [OF f(9,8) ne] .
  obtain n where n: "ring_count (2 ^ k) ?t ?h = Suc n"
    using ring_count_0_iff [OF f(9,8)] ne by (cases "ring_count (2 ^ k) ?t ?h") auto
  show "ready_list b = cir_pkts ?rb ! ?t # ready_list b1"
    using f c n ring_slice_mod [of "cir_pkts ?rb" "Suc ?t" n]
    by (simp add: ready_list_def Let_def b1_def unat_cir_next [OF w] ring_slice_Cons_less)
  show "ro_wf k b1"
    using assms(1) unat_cir_next [OF w] by (simp add: ro_wf_def cir_wf_def b1_def)
  show "window b1 = window b" by (simp add: window_def b1_def)
qed

lemma ready_list_Nil_iff:
  assumes "ro_wf k b"
  shows "ready_list b = [] \<longleftrightarrow> cir_tail (ro_ready b) = cir_head (ro_ready b)"
proof (cases "cir_tail (ro_ready b) = cir_head (ro_ready b)")
  case True
  then show ?thesis by (simp add: ready_list_def Let_def)
qed (use ready_list_Cons(1) [OF assms] in simp)

lemma drain_ready_spec:
  assumes "ro_wf k b"
  shows "\<exists>b'. drain_ready n b = Ok (take n (ready_list b), n - length (ready_list b), b') \<and>
     ro_wf k b' \<and> ready_list b' = drop n (ready_list b) \<and> window b' = window b \<and>
     ro_min_seqn b' = ro_min_seqn b \<and> ro_initialized b' = ro_initialized b"
  using assms
proof (induction n arbitrary: b)
  case (Suc n)
  show ?case
  proof (cases "cir_tail (ro_ready b) = cir_head (ro_ready b)")
    case True
    then show ?thesis using Suc.prems ready_list_Nil_iff [OF Suc.prems] by simp
  next
    case False
    note c = ready_list_Cons [OF Suc.prems False]
    from Suc.IH [OF c(2)] c ro_wf_facts [OF Suc.prems] False
    show ?thesis by (auto simp: Let_def)
  qed
qed simp

lemma drain_order_spec:
  assumes "ro_wf k b" and "j = min n (run_of (window b))"
  shows "\<exists>b'. drain_order n b = Ok (take j (window b), b') \<and> ro_wf k b' \<and>
     window b' = drop j (window b) @ replicate j None \<and> ready_list b' = ready_list b \<and>
     ro_min_seqn b' = ro_min_seqn b + of_nat j \<and> ro_initialized b' = ro_initialized b"
  using assms
proof (induction n arbitrary: b j)
  case (Suc n)
  note oh = order_head_window [OF Suc.prems(1)]
  obtain e ws where w: "window b = e # ws" using ro_wf_facts(3) [OF Suc.prems(1)]
    by (metis length_0_conv neq_Nil_conv power_not_zero zero_neq_numeral)
  show ?case
  proof (cases e)
    case None
    then show ?thesis using w oh Suc.prems by (simp add: Suc.prems(2))
  next
    case (Some p)
    let ?b1 = "(order_pop b)\<lparr>ro_min_seqn := ro_min_seqn b + 1\<rparr>"
    note pop = order_pop_spec [OF Suc.prems(1)]
    have wf1: "ro_wf k ?b1" and w1: "window ?b1 = ws @ [None]" using pop w by simp_all
    have run: "run_of (ws @ [None]) = run_of ws" using takeWhile_append_replicate [of ws 1] by simp
    let ?j = "min n (run_of ws)"
    have le: "?j \<le> length ws" using run_of_le [of ws] by simp
    from Suc.IH [OF wf1 refl] run obtain b' where
      b': "drain_order n ?b1 = Ok (take ?j (ws @ [None]), b')" "ro_wf k b'"
        "window b' = drop ?j (ws @ [None]) @ replicate ?j None" "ready_list b' = ready_list ?b1"
        "ro_min_seqn b' = ro_min_seqn ?b1 + of_nat ?j" "ro_initialized b' = ro_initialized ?b1"
      unfolding w1 by auto
    have "j = Suc ?j" using Suc.prems(2) w Some by simp
    then show ?thesis using b' le oh w Some pop by (simp add: add_ac)
  qed
qed simp

lemma drain_spec:
  fixes m :: nat
  assumes "ro_wf k b"
  defines "j \<equiv> min (m - length (ready_list b)) (run_of (window b))"
  shows "\<exists>b'. mlvpn_reorder_drain b m = Ok (take m (ready_list b) @ take j (window b), b') \<and>
     ro_wf k b' \<and> window b' = drop j (window b) @ replicate j None \<and>
     ready_list b' = drop m (ready_list b) \<and> ro_min_seqn b' = ro_min_seqn b + of_nat j \<and>
     ro_initialized b' = ro_initialized b"
proof -
  from drain_ready_spec [OF assms(1), of m] obtain b1 where
    b1: "drain_ready m b = Ok (take m (ready_list b), m - length (ready_list b), b1)"
      "ro_wf k b1" "ready_list b1 = drop m (ready_list b)" "window b1 = window b"
      "ro_min_seqn b1 = ro_min_seqn b" "ro_initialized b1 = ro_initialized b" by blast
  from drain_order_spec [OF b1(2) refl, of "m - length (ready_list b)"] b1 show ?thesis
    by (auto simp: mlvpn_reorder_drain_def j_def)
qed

text \<open>A drain that is allowed enough packets empties everything that may be delivered.\<close>

lemma drain_all_spec:
  assumes "ro_wf k b" and "length (ready_list b) + run_of (window b) \<le> m"
  defines "j \<equiv> run_of (window b)"
  shows "\<exists>b'. mlvpn_reorder_drain b m = Ok (ready_list b @ take j (window b), b') \<and>
     ro_wf k b' \<and> ro_drained b' \<and> window b' = drop j (window b) @ replicate j None \<and>
     ro_min_seqn b' = ro_min_seqn b + of_nat j \<and> ro_initialized b' = ro_initialized b"
proof -
  have "hd (drop (run_of xs) xs @ replicate (run_of xs) None) = None" if "xs \<noteq> []" for xs :: "nat option list"
  proof (cases "run_of xs < length xs")
    case True
    then show ?thesis using nth_length_takeWhile [OF True] by (simp add: hd_append hd_drop_conv_nth)
  next
    case False
    then have "run_of xs = length xs" using run_of_le [of xs] by simp
    then show ?thesis using that by (cases "length xs") auto
  qed
  moreover have "window b \<noteq> []" using ro_wf_facts(3) [OF assms(1)] by auto
  moreover have "min (m - length (ready_list b)) (run_of (window b)) = j" using assms(2) by (simp add: j_def)
  ultimately show ?thesis using drain_spec [OF assms(1), of m] assms(2) by (auto simp: ro_drained_def j_def)
qed

text \<open>
  The window after a packet with sequence number \<open>seq\<close> arrived: the return value, the packets that became
  ready, the new first sequence number and the new window.
\<close>

definition window_insert ::
  "u64 \<Rightarrow> nat option list \<Rightarrow> nat \<Rightarrow> u64 \<Rightarrow> int \<times> nat option list \<times> u64 \<times> nat option list" where
  "window_insert m w p seq =
     (let off = unat (seq - m); n = length w in
      if off < n then (0, [], m, w[off := Some p])
      else if off < 2 * n then
        let a = fill_adv w (off + 1 - n) in
        (0, some_of (take a w), m + of_nat a, (drop a w @ replicate a None)[off - a := Some p])
      else (- 2, [], m, w))"

lemma window_insert_length:
  "window_insert m w p seq = (r, es, m', w') \<Longrightarrow> length w' = length w"
  using fill_adv_bound [of "unat (seq - m) + 1 - length w" w]
  by (auto simp: window_insert_def Let_def split: if_splits)

lemma size_words:
  assumes "ro_wf k b"
  shows "unat (ucast (cir_size (ro_order b)) :: u64) = 2 ^ k"
    and "unat (ucast (2 * cir_size (ro_order b)) :: u64) = 2 * 2 ^ k"
    and "(2::nat) ^ k < 2 ^ 31"
proof -
  have s: "cir_size (ro_order b) = of_nat (2 ^ k)" and "k < 31" using assms by (auto simp: ro_wf_def cir_wf_def)
  then show k: "(2::nat) ^ k < 2 ^ 31" by (intro power_strict_increasing) auto
  have "unat (of_nat (2 ^ k) :: u32) = 2 ^ k" "unat (of_nat (2 * 2 ^ k) :: u32) = 2 * 2 ^ k"
    using k by (intro unat_of_nat_less; simp)+
  then show "unat (ucast (cir_size (ro_order b)) :: u64) = 2 ^ k"
    and "unat (ucast (2 * cir_size (ro_order b)) :: u64) = 2 * 2 ^ k"
    by (simp_all only: s unat_ucast_32_64 of_nat_mult of_nat_numeral)
qed

lemma insert_spec_initialized:
  assumes wf: "ro_wf k b" and d: "ro_drained b" and i: "ro_initialized b"
    and ins: "window_insert (ro_min_seqn b) (window b) p seq = (r, es, m, w)"
  shows "\<exists>b'. mlvpn_reorder_insert b p seq = Ok (r, b') \<and> ro_wf k b' \<and> ready_list b' = es \<and>
     ro_min_seqn b' = m \<and> window b' = w \<and> ro_initialized b'"
proof -
  let ?off = "seq - ro_min_seqn b" and ?sz = "cir_size (ro_order b)"
  note sz = size_words [OF wf] and len = ro_wf_facts(3) [OF wf]
  have lt: "?off < ucast ?sz \<longleftrightarrow> unat ?off < 2 ^ k" "?off < ucast (2 * ?sz) \<longleftrightarrow> unat ?off < 2 * 2 ^ k"
    by (simp_all only: word_less_nat_alt sz)
  have rl: "ready_list b = []" using d by (simp add: ro_drained_def)
  consider "unat ?off < 2 ^ k" | "2 ^ k \<le> unat ?off" "unat ?off < 2 * 2 ^ k" | "2 * 2 ^ k \<le> unat ?off"
    by linarith
  then show ?thesis
  proof cases
    case 1
    then show ?thesis
      using order_place_spec [OF wf 1, of p] ins i lt rl len
      by (auto simp: mlvpn_reorder_insert_def window_insert_def Let_def)
  next
    case 2
    let ?n = "unat ?off + 1 - 2 ^ k" and ?w64 = "?off + 1 - ucast ?sz"
    have "unat (?off + 1) = Suc (unat ?off)"
      using 2 lt(2) by (intro unat_add_1_less [of _ "ucast (2 * ?sz)"]) simp
    then have n64: "unat ?w64 = ?n"
      using 2 sz(1) by (simp add: unat_sub word_le_nat_alt)
    then have n32: "unat (ucast ?w64 :: u32) = ?n"
      using 2 sz(3) by (simp add: unsigned_ucast_eq take_bit_nat_eq_self)
    have n: "0 < ?n" "?n \<le> 2 ^ k" using 2 by linarith+
    let ?a = "fill_adv (window b) ?n"
    have a: "?n \<le> ?a" "?a \<le> 2 ^ k" using fill_adv_bound [of ?n "window b"] len 2 by (auto simp: fill_adv_def)
    obtain b1 where b1: "mlvpn_reorder_fill_overflow b (ucast ?w64) = Ok (b1, of_nat ?a)" "ro_wf k b1"
      "window b1 = drop ?a (window b) @ replicate ?a None" "ready_list b1 = some_of (take ?a (window b))"
      "ro_min_seqn b1 = ro_min_seqn b + of_nat ?a" "ro_initialized b1 = ro_initialized b"
      using fill_overflow_spec [OF wf d, of "ucast ?w64", unfolded n32, OF n] by blast
    have ua: "unat (of_nat ?a :: u64) = ?a"
      using a sz(3) by (simp only: unat_of_nat) simp
    have a32: "(ucast (of_nat ?a :: u32) :: u64) = of_nat ?a"
      using a(2) sz(3) by (intro ucast_of_nat_u64) simp
    have ge: "\<not> (ucast (of_nat ?a :: u32) :: u64) < ?w64"
      using a(1) by (simp only: a32 word_less_nat_alt ua n64 not_less)
    have "seq - ro_min_seqn b1 = ?off - of_nat ?a" using b1(5) by simp
    moreover have "unat (?off - of_nat ?a) = unat ?off - ?a"
      using a 2 ua by (subst unat_sub) (auto simp: word_le_nat_alt)
    ultimately have off: "unat (seq - ro_min_seqn b1) = unat ?off - ?a" by (simp only:)
    then have "unat (seq - ro_min_seqn b1) < 2 ^ k" using a 2 by linarith
    from order_place_spec [OF b1(2) this, of p] show ?thesis
      using ins i lt len 2 ge b1 off by (auto simp: mlvpn_reorder_insert_def window_insert_def Let_def)
  next
    case 3
    then show ?thesis using ins i lt len wf rl by (auto simp: mlvpn_reorder_insert_def window_insert_def Let_def)
  qed
qed

lemma insert_spec:
  assumes wf: "ro_wf k b" and d: "ro_drained b"
    and ins: "window_insert (if ro_initialized b then ro_min_seqn b else seq) (window b) p seq = (r, es, m, w)"
  shows "\<exists>b'. mlvpn_reorder_insert b p seq = Ok (r, b') \<and> ro_wf k b' \<and> ready_list b' = es \<and>
     ro_min_seqn b' = m \<and> window b' = w \<and> ro_initialized b'"
proof (cases "ro_initialized b")
  case True
  then show ?thesis using insert_spec_initialized [OF wf d True] ins by simp
next
  case False
  let ?b = "b\<lparr>ro_min_seqn := seq, ro_initialized := True\<rparr>"
  have "mlvpn_reorder_insert b p seq = mlvpn_reorder_insert ?b p seq"
    using False by (simp add: mlvpn_reorder_insert_def)
  then show ?thesis using insert_spec_initialized [of k ?b p seq r es m w] wf d ins False
    by (simp add: ro_drained_def)
qed

section \<open>Sequence order\<close>

text \<open>\<open>lab f s xs\<close>: the packets in \<open>xs\<close> sit at the places their numbers \<open>f\<close> say, counted from \<open>s\<close>.\<close>

definition lab :: "('a \<Rightarrow> nat) \<Rightarrow> nat \<Rightarrow> 'a option list \<Rightarrow> bool" where
  "lab f s xs \<longleftrightarrow> (\<forall>i<length xs. \<forall>q. xs ! i = Some q \<longrightarrow> f q = s + i)"

lemma lab_Cons: "lab f s (x # xs) \<longleftrightarrow> (\<forall>q. x = Some q \<longrightarrow> f q = s) \<and> lab f (Suc s) xs"
  by (auto simp: lab_def nth_Cons less_Suc_eq_0_disj split: nat.splits)

lemma lab_Nil [simp]: "lab f s []"
  by (simp add: lab_def)

lemma lab_append: "lab f s (xs @ ys) \<longleftrightarrow> lab f s xs \<and> lab f (s + length xs) ys"
  by (induction xs arbitrary: s) (auto simp: lab_Cons)

lemma lab_replicate_None [simp]: "lab f s (replicate n None)"
  by (simp add: lab_def)

lemma lab_take: "lab f s xs \<Longrightarrow> lab f s (take n xs)"
  by (simp add: lab_def)

lemma lab_drop: "lab f s xs \<Longrightarrow> lab f (s + n) (drop n xs)"
  by (cases "n \<le> length xs") (metis append_take_drop_id lab_append length_take min.absorb2, simp)

lemma lab_update: "lab f s xs \<Longrightarrow> f p = s + i \<Longrightarrow> lab f s (xs[i := Some p])"
  by (cases "i < length xs") (auto simp: lab_def nth_list_update split: if_splits)

lemma lab_some_of:
  "lab f s xs \<Longrightarrow> sorted_wrt (<) (map (\<lambda>e. f (the e)) (some_of xs)) \<and>
     (\<forall>e \<in> set (some_of xs). s \<le> f (the e) \<and> f (the e) < s + length xs)"
proof (induction xs arbitrary: s)
  case (Cons x xs)
  then have IH: "sorted_wrt (<) (map (\<lambda>e. f (the e)) (some_of xs))"
    "\<forall>e \<in> set (some_of xs). Suc s \<le> f (the e) \<and> f (the e) < Suc s + length xs"
    using Cons.IH [of "Suc s"] by (simp_all add: lab_Cons)
  show ?case
  proof (cases x)
    case None
    then show ?thesis using IH by auto
  next
    case (Some q)
    then have "f q = s" using Cons.prems by (simp add: lab_Cons)
    then show ?thesis using IH Some by fastforce
  qed
qed simp

text \<open>Every packet of the window is at the distance from \<^verbatim>\<open>min_seqn\<close> its sequence number says.\<close>

definition labelled :: "(nat \<Rightarrow> u64) \<Rightarrow> mlvpn_reorder_buffer \<Rightarrow> bool" where
  "labelled sq b \<longleftrightarrow> lab (\<lambda>q. unat (sq q - ro_min_seqn b)) 0 (window b)"

lemma lab_shift:
  fixes sq :: "nat \<Rightarrow> u64"
  assumes "lab (\<lambda>q. unat (sq q - m)) d w" and "d + length w \<le> 2 ^ 64"
  shows "lab (\<lambda>q. unat (sq q - (m + of_nat d))) 0 w"
  unfolding lab_def
proof (intro allI impI)
  fix i q
  assume i: "i < length w" and q: "w ! i = Some q"
  then have u: "unat (sq q - m) = d + i" using assms(1) by (simp add: lab_def)
  have "sq q - m = of_nat (unat (sq q - m))" by simp
  then have "sq q - m = of_nat (d + i)" by (simp only: u)
  then have "sq q - (m + of_nat d) = of_nat i" by (simp add: algebra_simps)
  then show "unat (sq q - (m + of_nat d)) = 0 + i"
    using i assms(2) by (simp only: unat_of_nat) simp
qed

lemma some_of_update: "length (some_of (xs[i := Some p])) \<le> Suc (length (some_of xs))"
proof (induction xs arbitrary: i)
  case (Cons x xs)
  then show ?case by (cases i) simp_all
qed simp

lemma lab_update_keeps:
  assumes "lab f s xs" and "Some q \<in> set xs" and "f q \<noteq> s + i"
  shows "Some q \<in> set (xs[i := Some p])"
proof -
  obtain j where j: "j < length xs" "xs ! j = Some q" using assms(2) by (auto simp: in_set_conv_nth)
  then have "j \<noteq> i" using assms(1,3) by (auto simp: lab_def)
  then have "xs[i := Some p] ! j = Some q" using j by simp
  then show ?thesis using j by (metis length_list_update nth_mem)
qed

lemma window_insert_lab:
  assumes ins: "window_insert m0 w0 p seq = (r, es, m, w)"
    and lab: "lab f 0 w0" and fp: "f p = unat (seq - m0)"
  shows "\<exists>a. a \<le> length w0 \<and> m = m0 + of_nat a \<and> lab f a w \<and> None \<notin> set es \<and>
     sorted_wrt (<) (map (\<lambda>e. f (the e)) es) \<and> (\<forall>e \<in> set es. f (the e) < a) \<and>
     set es \<union> set (some_of w) \<subseteq> insert (Some p) (set (some_of w0)) \<and>
     length es + length (some_of w) \<le> Suc (length (some_of w0)) \<and>
     (\<forall>q. Some q \<in> set w0 \<and> f q \<noteq> f p \<longrightarrow> Some q \<in> set es \<union> set w) \<and>
     (r = 0 \<and> Some p \<in> set w \<or> r = - 2 \<and> m = m0 \<and> es = [] \<and> w = w0)"
proof -
  let ?off = "unat (seq - m0)" and ?n = "length w0"
  consider "?off < ?n" | "?n \<le> ?off" "?off < 2 * ?n" | "2 * ?n \<le> ?off" by linarith
  then show ?thesis
  proof cases
    case 1
    then have "es = []" "m = m0" "w = w0[?off := Some p]" using ins by (auto simp: window_insert_def Let_def)
    moreover have "lab f 0 (w0[?off := Some p])" using lab fp by (intro lab_update) auto
    moreover have "set (w0[?off := Some p]) \<subseteq> insert (Some p) (set w0)" by (rule set_update_subset_insert)
    moreover have "\<forall>q. Some q \<in> set w0 \<and> f q \<noteq> f p \<longrightarrow> Some q \<in> set (w0[?off := Some p])"
      using lab_update_keeps [OF lab] fp by simp
    moreover have "r = 0" "Some p \<in> set (w0[?off := Some p])"
      using ins 1 by (auto simp: window_insert_def set_update_memI)
    ultimately show ?thesis using some_of_update [of w0 ?off p] by (intro exI [of _ 0]) auto
  next
    case 2
    let ?a = "fill_adv w0 (?off + 1 - ?n)" and ?w = "drop (fill_adv w0 (?off + 1 - ?n)) w0 @ replicate (fill_adv w0 (?off + 1 - ?n)) None"
    have a: "?a \<le> ?n" using 2 by (intro fill_adv_bound) simp
    have eq: "es = some_of (take ?a w0)" "m = m0 + of_nat ?a" "w = ?w[?off - ?a := Some p]"
      using ins 2 by (auto simp: window_insert_def Let_def)
    have lw: "lab f ?a ?w" using lab_drop [OF lab, of ?a] by (simp add: lab_append)
    have off: "?off = ?a + (?off - ?a)" "?off - ?a < length ?w" using a 2 by (auto simp: fill_adv_def)
    have "lab f ?a w" unfolding eq(3) using fp off by (intro lab_update [OF lw]) simp
    moreover have "Some p \<in> set w" "r = 0"
      unfolding eq(3) using off(2) ins 2 by (auto simp: window_insert_def Let_def intro!: set_update_memI)
    moreover have "Some q \<in> set es \<union> set w" if q: "Some q \<in> set w0" "f q \<noteq> f p" for q
    proof -
      have "Some q \<in> set (take ?a w0) \<or> Some q \<in> set ?w"
        using q(1) by (metis Un_iff append_take_drop_id set_append)
      then show ?thesis unfolding eq(1,3) using lab_update_keeps [OF lw, of q "?off - ?a" p] q(2) fp off(1) by auto
    qed
    moreover have "set w \<subseteq> insert (Some p) (set ?w)" unfolding eq(3) by (rule set_update_subset_insert)
    moreover have "length (some_of w) \<le> Suc (length (some_of ?w))" unfolding eq(3) by (rule some_of_update)
    ultimately show ?thesis
      using a eq(1,2) lab_some_of [OF lab_take [OF lab], of ?a] some_of_split [of ?a w0]
        set_take_subset [of ?a w0] set_drop_subset [of ?a w0]
      by (intro exI [of _ ?a]) (auto dest: subsetD)
  next
    case 3
    then show ?thesis using ins lab by (intro exI [of _ 0]) (auto simp: window_insert_def Let_def)
  qed
qed

text \<open>What holds between two packets: the buffer is drained and its packets sit where they belong.\<close>

definition ro_inv :: "nat \<Rightarrow> (nat \<Rightarrow> u64) \<Rightarrow> mlvpn_reorder_buffer \<Rightarrow> bool" where
  "ro_inv k sq b \<longleftrightarrow> ro_wf k b \<and> ro_drained b \<and> labelled sq b \<and>
     (\<not> ro_initialized b \<longrightarrow> some_of (window b) = [])"

text \<open>The sequence number the window starts at when a packet with number \<open>seq\<close> comes in.\<close>

definition first_seq :: "mlvpn_reorder_buffer \<Rightarrow> u64 \<Rightarrow> u64" where
  "first_seq b seq = (if ro_initialized b then ro_min_seqn b else seq)"

lemma ro_inv_lab:
  "ro_inv k sq b \<Longrightarrow> lab (\<lambda>q. unat (sq q - first_seq b seq)) 0 (window b)"
proof (cases "ro_initialized b")
  case False
  assume inv: "ro_inv k sq b"
  then have "set (window b) \<subseteq> {None}" using False by (auto simp: ro_inv_def filter_empty_conv)
  then show ?thesis by (auto simp: lab_def dest!: nth_mem subsetD)
qed (simp add: ro_inv_def labelled_def first_seq_def)

lemma run_of_some_of: "run_of w \<le> length (some_of w)"
  by (induction w) auto

lemma some_of_run: "some_of (take (run_of w) w) = take (run_of w) w"
  by (metis filter_True set_takeWhileD takeWhile_eq_take)

lemma run_Some: "None \<notin> set (take (run_of w) w)"
proof
  assume "None \<in> set (take (run_of w) w)"
  then have "None \<in> set (some_of (take (run_of w) w))" by (simp only: some_of_run)
  then show False by simp
qed

lemma run_subset: "set (take (run_of w) w) \<subseteq> set (some_of w)"
proof
  fix x assume x: "x \<in> set (take (run_of w) w)"
  have "x \<noteq> None" using x run_Some by metis
  then show "x \<in> set (some_of w)" using in_set_takeD [OF x] by simp
qed

text \<open>The window after its first \<open>j\<close> entries were taken out.\<close>

lemma advance_subset: "set (some_of (drop j w @ replicate j None)) \<subseteq> set (some_of w)"
  using set_drop_subset [of j w] by auto

lemma advance_split: "set w \<subseteq> set (take j w) \<union> set (drop j w @ replicate j None)"
  by (metis Un_assoc Un_upper1 append_take_drop_id set_append)

text \<open>Draining a buffer whose packets sit where their numbers, counted from \<open>m\<close>, say.\<close>

lemma drain_lab:
  assumes b1: "ro_wf k b1" "ro_initialized b1" "ro_min_seqn b1 = m + of_nat a" "lab f a (window b1)" "a \<le> 2 ^ k"
    and es: "None \<notin> set (ready_list b1)" "sorted_wrt (<) (map (\<lambda>e. f (the e)) (ready_list b1))" "\<forall>e \<in> set (ready_list b1). f (the e) < a"
    and room: "length (ready_list b1) + run_of (window b1) \<le> mx" and f: "f = (\<lambda>q. unat (sq q - m))"
  shows "\<exists>out b2 d. mlvpn_reorder_drain b1 mx = Ok (out, b2) \<and> ro_inv k sq b2 \<and> ro_initialized b2 \<and> None \<notin> set out \<and>
     d \<le> 2 * 2 ^ k \<and> ro_min_seqn b2 = m + of_nat d \<and>
     sorted_wrt (<) (map (\<lambda>e. f (the e)) out) \<and> (\<forall>e \<in> set out. f (the e) < d) \<and> lab f d (window b2) \<and>
     set out \<union> set (some_of (window b2)) \<subseteq> set (ready_list b1) \<union> set (some_of (window b1)) \<and>
     set (ready_list b1) \<union> set (window b1) \<subseteq> set out \<union> set (window b2) \<and> (ro_drained b1 \<longrightarrow> out = [])"
proof -
  define w where "w = window b1"
  define es where "es = ready_list b1"
  let ?j = "run_of w" and ?out = "es @ take (run_of w) w"
  obtain b2 where b2: "mlvpn_reorder_drain b1 mx = Ok (?out, b2)" "ro_wf k b2" "ro_drained b2"
      "window b2 = drop ?j w @ replicate ?j None" "ro_min_seqn b2 = m + of_nat a + of_nat ?j" "ro_initialized b2"
    using drain_all_spec [OF b1(1) room] b1(2) unfolding b1(3) w_def es_def by auto
  have len: "length w = 2 ^ k" unfolding w_def by (rule ro_wf_facts(3) [OF b1(1)])
  have j: "lab f a (take ?j w)" "lab f (a + ?j) (window b2)"
    using lab_take [OF b1(4), of ?j] lab_drop [OF b1(4), of ?j] b2(4) run_of_le [of w] by (auto simp: lab_append w_def)
  note so = lab_some_of [OF j(1), unfolded some_of_run]
  have min: "ro_min_seqn b2 = m + of_nat (a + ?j)" using b2(5) by simp
  have d: "a + ?j \<le> 2 * 2 ^ k" using b1(5) len run_of_le [of w] by simp
  have "labelled sq b2"
    unfolding labelled_def min
    using j(2) d len b2(4) size_words(3) [OF b1(1)] run_of_le [of w] unfolding f by (intro lab_shift) auto
  with b2 have inv2: "ro_inv k sq b2" by (simp add: ro_inv_def)
  have sorted: "sorted_wrt (<) (map (\<lambda>e. f (the e)) ?out)" "\<forall>e \<in> set ?out. f (the e) < a + ?j"
    using es(2,3) so by (auto simp: sorted_wrt_append es_def intro: less_le_trans order.strict_trans)
  have sub: "set ?out \<union> set (some_of (window b2)) \<subseteq> set es \<union> set (some_of w)"
    using run_subset [of w] advance_subset [of ?j w, folded b2(4)] unfolding set_append by blast
  have "set w \<subseteq> set (take ?j w) \<union> set (window b2)" unfolding b2(4) by (rule advance_split)
  then have keep: "set es \<union> set w \<subseteq> set ?out \<union> set (window b2)" by auto
  have "?j = 0" if "hd w = None" using that by (cases w) auto
  then have out: "ro_drained b1 \<longrightarrow> ?out = []" by (simp add: ro_drained_def es_def w_def)
  have none: "None \<notin> set ?out" using es(1) run_Some [of w] unfolding es_def by simp
  show ?thesis unfolding w_def [symmetric] es_def [symmetric]
    by (intro exI conjI) (rule b2(1) inv2 b2(6) none d min sorted j(2) sub keep out)+
qed

lemma insert_drain:
  assumes inv: "ro_inv k sq b" and p: "sq p = seq" and room: "length (some_of (window b)) < mx"
  defines "f \<equiv> \<lambda>q. unat (sq q - first_seq b seq)"
  shows "\<exists>r b1 out b2 d. mlvpn_reorder_insert b p seq = Ok (r, b1) \<and>
     mlvpn_reorder_drain b1 mx = Ok (out, b2) \<and> ro_inv k sq b2 \<and> ro_initialized b2 \<and> None \<notin> set out \<and>
     d \<le> 2 * 2 ^ k \<and> ro_min_seqn b2 = first_seq b seq + of_nat d \<and>
     sorted_wrt (<) (map (\<lambda>e. f (the e)) out) \<and> (\<forall>e \<in> set out. f (the e) < d) \<and> lab f d (window b2) \<and>
     set out \<union> set (some_of (window b2)) \<subseteq> insert (Some p) (set (some_of (window b))) \<and>
     (\<forall>q. Some q \<in> set (window b) \<and> sq q \<noteq> seq \<longrightarrow> Some q \<in> set out \<union> set (window b2)) \<and>
     (r = 0 \<and> Some p \<in> set out \<union> set (window b2) \<or> r = - 2 \<and> out = [] \<and> window b1 = window b \<and> ro_inv k sq b1)"
proof -
  obtain r es m w where ins: "window_insert (first_seq b seq) (window b) p seq = (r, es, m, w)"
    by (metis prod_cases4)
  have wf: "ro_wf k b" "ro_drained b" using inv by (auto simp: ro_inv_def)
  have lab0: "lab f 0 (window b)" unfolding f_def using inv by (rule ro_inv_lab)
  obtain b1 where b1: "mlvpn_reorder_insert b p seq = Ok (r, b1)" "ro_wf k b1" "ready_list b1 = es"
    "ro_min_seqn b1 = m" "window b1 = w" "ro_initialized b1"
    using insert_spec [OF wf, of seq p r es m w] ins by (auto simp: first_seq_def)
  obtain a where a: "a \<le> length (window b)" "m = first_seq b seq + of_nat a" "lab f a w" "None \<notin> set es"
    "sorted_wrt (<) (map (\<lambda>e. f (the e)) es)" "\<forall>e \<in> set es. f (the e) < a"
    "set es \<union> set (some_of w) \<subseteq> insert (Some p) (set (some_of (window b)))"
    "length es + length (some_of w) \<le> Suc (length (some_of (window b)))"
    "\<forall>q. Some q \<in> set (window b) \<and> f q \<noteq> f p \<longrightarrow> Some q \<in> set es \<union> set w"
    "r = 0 \<and> Some p \<in> set w \<or> r = - 2 \<and> m = first_seq b seq \<and> es = [] \<and> w = window b"
    using window_insert_lab [OF ins lab0] p unfolding f_def by blast
  have len: "length (window b) = 2 ^ k" by (rule ro_wf_facts(3) [OF wf(1)])
  have room': "length (ready_list b1) + run_of (window b1) \<le> mx" using a(8) room run_of_some_of [of w] b1 by simp
  obtain out b2 d where dr: "mlvpn_reorder_drain b1 mx = Ok (out, b2)" "ro_inv k sq b2" "ro_initialized b2" "None \<notin> set out"
    "d \<le> 2 * 2 ^ k" "ro_min_seqn b2 = first_seq b seq + of_nat d" "sorted_wrt (<) (map (\<lambda>e. f (the e)) out)"
    "\<forall>e \<in> set out. f (the e) < d" "lab f d (window b2)"
    "set out \<union> set (some_of (window b2)) \<subseteq> set es \<union> set (some_of w)" "set es \<union> set w \<subseteq> set out \<union> set (window b2)"
    and out: "ro_drained b1 \<longrightarrow> out = []"
    using drain_lab [OF b1(2,6) _ _ _ _ _ _ room', of "first_seq b seq" a f sq] a(1-6) b1(3-5) len by (auto simp: f_def)
  have sub: "set out \<union> set (some_of (window b2)) \<subseteq> insert (Some p) (set (some_of (window b)))" using dr(10) a(7) by (rule subset_trans)
  have keep: "\<forall>q. Some q \<in> set (window b) \<and> sq q \<noteq> seq \<longrightarrow> Some q \<in> set out \<union> set (window b2)"
  proof (intro allI impI)
    fix q assume q: "Some q \<in> set (window b) \<and> sq q \<noteq> seq"
    then have "f q \<noteq> f p" using p by (simp add: f_def word_unat_eq_iff [symmetric])
    then show "Some q \<in> set out \<union> set (window b2)" using q a(9) dr(11) by blast
  qed
  have ret: "r = 0 \<and> Some p \<in> set out \<union> set (window b2) \<or>
      r = - 2 \<and> out = [] \<and> window b1 = window b \<and> ro_inv k sq b1"
    using a(10)
  proof
    assume "r = 0 \<and> Some p \<in> set w"
    then show ?thesis using dr(11) by blast
  next
    assume r: "r = - 2 \<and> m = first_seq b seq \<and> es = [] \<and> w = window b"
    then have "ro_drained b1" using wf(2) b1(3,5) by (simp add: ro_drained_def)
    moreover have "labelled sq b1" using lab0 r b1(4,5) by (simp add: labelled_def f_def)
    ultimately show ?thesis using r b1 out by (simp add: ro_inv_def)
  qed
  show ?thesis by (intro exI conjI) (rule b1(1) dr(1-9) sub keep ret)+
qed

lemma unat_bufsize:
  assumes "k \<le> 27"
  shows "unat (reorder_bufsize (2 ^ k)) = 72 + 16 * 2 ^ k"
proof -
  have k: "(2::nat) ^ k \<le> 2 ^ 27" using assms by (intro power_increasing) auto
  have "unat (2 * 2 ^ k :: u32) = 2 * 2 ^ k"
    using unat_of_nat_less [of "2 * 2 ^ k"] k by simp
  then have "unat (72 + ucast (2 * 2 ^ k :: u32) * 8 :: u64) = 72 + 16 * 2 ^ k"
    using k by (simp add: unat_word_ariths)
  then show ?thesis
    using k by (simp add: reorder_bufsize_def unsigned_ucast_eq take_bit_nat_eq_self)
qed

lemma create_spec:
  assumes "0 < k" and "k \<le> 27"
  shows "\<exists>b. mlvpn_reorder_create (2 ^ k) = Some b \<and> ro_inv k sq b \<and> \<not> ro_initialized b"
proof -
  have k: "(2::nat) ^ k \<le> 2 ^ 27" using assms by (intro power_increasing) auto
  have u: "unat (2 ^ k :: u32) = 2 ^ k" using unat_of_nat_less [of "2 ^ k"] k by simp
  have "window b = replicate (2 ^ k) None" if "cir_pkts (ro_order b) = replicate (2 ^ k) None" for b
    using that by (intro nth_equalityI) (auto simp: window_def ring_slice_def)
  moreover have "hd (replicate (2 ^ k) None) = (None :: nat option)" by (cases "2 ^ k :: nat") auto
  ultimately show ?thesis
    using assms unat_bufsize [OF assms(2)] u
    by (simp add: mlvpn_reorder_create_def mlvpn_reorder_init_def ro_inv_def ro_wf_def cir_wf_def
        ro_drained_def labelled_def ready_list_def)
qed

lemma reset_spec:
  assumes "ro_wf k b"
  shows "ro_inv k sq (mlvpn_reorder_reset b)" and "\<not> ro_initialized (mlvpn_reorder_reset b)"
  using assms create_spec [of k sq]
  by (auto simp: ro_wf_def cir_wf_def mlvpn_reorder_create_def mlvpn_reorder_reset_def)

section \<open>Properties\<close>

text \<open>
  C28: inserting a packet into a drained buffer and draining it never touches memory outside of the rings and
  never fails with \<open>-1\<close>; the packets it returns are in strictly increasing sequence order, all of them before
  the new start of the window, no packet with another sequence number is lost, and a packet
  that is accepted is either returned or waiting in the window. The buffer is again drained and every packet
  in it sits where its sequence number says.
\<close>

theorem reorder_in_order_no_loss:
  assumes "ro_inv k sq b" and "sq p = seq" and "length (some_of (window b)) < mx"
  shows "\<exists>r b1 out b2 d. mlvpn_reorder_insert b p seq = Ok (r, b1) \<and>
     mlvpn_reorder_drain b1 mx = Ok (map Some out, b2) \<and> ro_inv k sq b2 \<and>
     ro_min_seqn b2 = first_seq b seq + of_nat d \<and> d \<le> 2 * 2 ^ k \<and>
     sorted_wrt (<) (map (\<lambda>q. unat (sq q - first_seq b seq)) out) \<and>
     (\<forall>q. q \<in> set out \<longrightarrow> unat (sq q - first_seq b seq) < d) \<and>
     (\<forall>q. Some q \<in> set (window b) \<and> sq q \<noteq> seq \<longrightarrow> q \<in> set out \<or> Some q \<in> set (window b2)) \<and>
     (r = 0 \<and> (p \<in> set out \<or> Some p \<in> set (window b2)) \<or> r = - 2 \<and> out = [] \<and> window b1 = window b)"
proof -
  obtain r b1 out b2 d where *: "mlvpn_reorder_insert b p seq = Ok (r, b1)"
    "mlvpn_reorder_drain b1 mx = Ok (out, b2)" "ro_inv k sq b2" "None \<notin> set out"
    "d \<le> 2 * 2 ^ k" "ro_min_seqn b2 = first_seq b seq + of_nat d"
    "sorted_wrt (<) (map (\<lambda>e. unat (sq (the e) - first_seq b seq)) out)"
    "\<forall>e \<in> set out. unat (sq (the e) - first_seq b seq) < d"
    "\<forall>q. Some q \<in> set (window b) \<and> sq q \<noteq> seq \<longrightarrow> Some q \<in> set out \<union> set (window b2)"
    "r = 0 \<and> Some p \<in> set out \<union> set (window b2) \<or> r = - 2 \<and> out = [] \<and> window b1 = window b \<and> ro_inv k sq b1"
    using insert_drain [OF assms] by blast
  define ps where "ps = map the out"
  have out: "out = map Some ps" using *(4) unfolding ps_def by (induction out) auto
  show ?thesis
    using * unfolding out by (intro exI [of _ r] exI [of _ b1] exI [of _ ps] exI [of _ b2] exI [of _ d])
      (auto simp: comp_def)
qed

theorem reorder_in_order_no_loss_witness:
  "\<exists>b r b1 out b2. mlvpn_reorder_create 4 = Some b \<and> mlvpn_reorder_insert b 3 7 = Ok (r, b1) \<and>
     mlvpn_reorder_drain b1 1024 = Ok (map Some out, b2) \<and> ro_inv 2 (\<lambda>_. 7) b2"
proof -
  obtain b where b: "mlvpn_reorder_create (2 ^ 2) = Some b" "ro_inv 2 (\<lambda>_. 7) b" "\<not> ro_initialized b"
    using create_spec [of 2 "\<lambda>_. 7"] by auto
  then have "length (some_of (window b)) < 1024" by (simp add: ro_inv_def)
  from reorder_in_order_no_loss [OF b(2) refl this, of 3] b(1) show ?thesis by auto
qed

text \<open>
  C29: on a drained buffer \<^verbatim>\<open>mlvpn_reorder_insert\<close> acts on the window exactly as specified: a packet inside the
  window is stored at its offset, one less than a window beyond moves the window just far enough
  (past the run that follows) with everything it passed made ready in order, and any other packet is refused
  with \<open>-2\<close> and no change.
\<close>

theorem reorder_insert_refines_window:
  assumes "ro_wf k b" and "ro_drained b"
    and "window_insert (first_seq b seq) (window b) p seq = (r, es, m, w)"
  shows "\<exists>b'. mlvpn_reorder_insert b p seq = Ok (r, b') \<and> ro_wf k b' \<and>
     ready_list b' = es \<and> ro_min_seqn b' = m \<and> window b' = w"
  using insert_spec [OF assms(1,2), of seq p r es m w] assms(3) by (auto simp: first_seq_def)

theorem reorder_insert_refines_window_witness:
  "\<exists>b b'. mlvpn_reorder_create 4 = Some b \<and> mlvpn_reorder_insert b 3 7 = Ok (0, b') \<and>
     ready_list b' = [] \<and> ro_min_seqn b' = 7 \<and> window b' = (window b)[0 := Some 3]"
proof -
  obtain b where b: "mlvpn_reorder_create (2 ^ 2) = Some b" "ro_inv 2 (\<lambda>_. 7) b" "\<not> ro_initialized b"
    using create_spec [of 2 "\<lambda>_. 7"] by auto
  then have wf: "ro_wf 2 b" "ro_drained b" by (auto simp: ro_inv_def)
  have "window_insert (first_seq b 7) (window b) 3 7 = (0, [], 7, (window b)[0 := Some 3])"
    using b(3) ro_wf_facts(3) [OF wf(1)] by (simp add: window_insert_def first_seq_def)
  from reorder_insert_refines_window [OF wf this] b(1) show ?thesis by auto
qed


end
