(* ===== verification/Freebuffer.thy ===== *)
theory Freebuffer
  imports Packet
begin

text \<open>
  The packet pool of \<^verbatim>\<open>src/buffer.c\<close> (\<^verbatim>\<open>mlvpn_freebuffer_*\<close>), whose entries hold the packets
  waiting in the reorder buffer. An entry is the index of its packet in \<open>fb_pool\<close>; the two
  \<^verbatim>\<open>TAILQ\<close>s are lists of entries, first element first.
\<close>

record freebuffer_t =
  fb_size :: nat
  fb_used :: nat
  fb_free_head :: "nat list"
  fb_used_head :: "nat list"
  fb_pool :: "mlvpn_pkt_t list"

text \<open>\<^verbatim>\<open>TAILQ_INSERT_HEAD\<close> of the freshly allocated entries, one after the other.\<close>

definition mlvpn_freebuffer_init :: "nat \<Rightarrow> freebuffer_t" where
  "mlvpn_freebuffer_init sz = \<lparr>fb_size = sz, fb_used = 0,
     fb_free_head = fold (\<lambda>entry free. entry # free) [0..<sz] [], fb_used_head = [],
     fb_pool = replicate sz pkt_zero\<rparr>"

text \<open>\<^verbatim>\<open>while (!TAILQ_EMPTY(&used_head))\<close>: move the first used entry to the front of the free ones.\<close>

fun freebuffer_reset_loop :: "nat list \<Rightarrow> nat list \<Rightarrow> nat list" where
  "freebuffer_reset_loop [] free = free"
| "freebuffer_reset_loop (entry # used) free = freebuffer_reset_loop used (entry # free)"

definition mlvpn_freebuffer_reset :: "freebuffer_t \<Rightarrow> freebuffer_t" where
  "mlvpn_freebuffer_reset fb =
     fb\<lparr>fb_free_head := freebuffer_reset_loop (fb_used_head fb) (fb_free_head fb),
        fb_used_head := [], fb_used := 0\<rparr>"

definition mlvpn_freebuffer_get :: "freebuffer_t \<Rightarrow> (nat \<times> freebuffer_t) option" where
  "mlvpn_freebuffer_get fb =
     (case fb_free_head fb of
        entry # free \<Rightarrow> Some (entry, fb\<lparr>fb_free_head := free,
          fb_used_head := fb_used_head fb @ [entry], fb_used := fb_used fb + 1\<rparr>)
      | [] \<Rightarrow> None)"

definition mlvpn_freebuffer_drain_used :: "freebuffer_t \<Rightarrow> (nat \<times> freebuffer_t) option" where
  "mlvpn_freebuffer_drain_used fb =
     (case fb_used_head fb of
        entry # used \<Rightarrow> Some (entry, fb\<lparr>fb_used_head := used,
          fb_free_head := entry # fb_free_head fb, fb_used := fb_used fb - 1\<rparr>)
      | [] \<Rightarrow> None)"

definition mlvpn_freebuffer_free :: "freebuffer_t \<Rightarrow> nat \<Rightarrow> freebuffer_t outcome" where
  "mlvpn_freebuffer_free fb pkt =
     (case find (\<lambda>entry. entry = pkt) (fb_used_head fb) of
        Some entry \<Rightarrow> Ok (fb\<lparr>fb_used_head := remove1 entry (fb_used_head fb),
          fb_free_head := entry # fb_free_head fb, fb_used := fb_used fb - 1\<rparr>)
      | None \<Rightarrow> Fatal ''freebuffer_free could not find the packet you gave me.'')"

text \<open>Writing the packet behind an entry.\<close>

definition freebuffer_store :: "freebuffer_t \<Rightarrow> nat \<Rightarrow> mlvpn_pkt_t \<Rightarrow> freebuffer_t" where
  "freebuffer_store fb entry p = fb\<lparr>fb_pool := (fb_pool fb)[entry := p]\<rparr>"

section \<open>Invariant\<close>

text \<open>The free and the used entries partition the pool and the counter is right.\<close>

definition fb_wf :: "freebuffer_t \<Rightarrow> bool" where
  "fb_wf fb \<longleftrightarrow> distinct (fb_free_head fb @ fb_used_head fb) \<and>
     set (fb_free_head fb) \<union> set (fb_used_head fb) = {0..<fb_size fb} \<and>
     fb_used fb = length (fb_used_head fb) \<and> length (fb_pool fb) = fb_size fb"

lemmas fb_defs = mlvpn_freebuffer_reset_def mlvpn_freebuffer_get_def mlvpn_freebuffer_drain_used_def
  freebuffer_store_def

lemma freebuffer_reset_loop_eq [simp]: "freebuffer_reset_loop used free = rev used @ free"
  by (induction used free rule: freebuffer_reset_loop.induct) auto

lemma fold_Cons_rev: "fold (\<lambda>x xs. x # xs) ys zs = rev ys @ zs"
  by (induction ys arbitrary: zs) auto

lemma fb_wf_init [simp]: "fb_wf (mlvpn_freebuffer_init sz)"
  by (simp add: fb_wf_def mlvpn_freebuffer_init_def fold_Cons_rev)

lemma fb_init_simps [simp]:
  "fb_size (mlvpn_freebuffer_init sz) = sz" "fb_used (mlvpn_freebuffer_init sz) = 0"
  "fb_used_head (mlvpn_freebuffer_init sz) = []" "fb_free_head (mlvpn_freebuffer_init sz) = rev [0..<sz]"
  by (simp_all add: mlvpn_freebuffer_init_def fold_Cons_rev)

lemma fb_wf_reset [simp]: "fb_wf fb \<Longrightarrow> fb_wf (mlvpn_freebuffer_reset fb)"
  by (auto simp: fb_wf_def fb_defs)

lemma fb_wf_store [simp]: "fb_wf fb \<Longrightarrow> fb_wf (freebuffer_store fb i p)"
  by (auto simp: fb_wf_def fb_defs)

lemma freebuffer_get_Some:
  assumes "fb_wf fb" and "mlvpn_freebuffer_get fb = Some (i, fb')"
  shows "fb_wf fb'" and "i \<notin> set (fb_used_head fb)" and "fb_used_head fb' = fb_used_head fb @ [i]"
    and "i < fb_size fb" and "fb_pool fb' = fb_pool fb" and "fb_size fb' = fb_size fb"
  using assms by (auto simp: fb_wf_def fb_defs split: list.splits)

lemma freebuffer_get_None_iff:
  assumes "fb_wf fb"
  shows "mlvpn_freebuffer_get fb = None \<longleftrightarrow> length (fb_used_head fb) = fb_size fb"
proof -
  have "length (fb_free_head fb) + length (fb_used_head fb) = fb_size fb"
    using assms distinct_card [of "fb_free_head fb @ fb_used_head fb"] by (auto simp: fb_wf_def)
  then show ?thesis by (auto simp: fb_defs split: list.splits)
qed

lemma freebuffer_drain_used_cases:
  assumes "fb_wf fb"
  shows "mlvpn_freebuffer_drain_used fb = None \<longleftrightarrow> fb_used_head fb = []"
    and "mlvpn_freebuffer_drain_used fb = Some (i, fb') \<Longrightarrow>
         fb_wf fb' \<and> fb_used_head fb = i # fb_used_head fb' \<and> fb_pool fb' = fb_pool fb \<and>
         fb_size fb' = fb_size fb"
  using assms by (auto simp: fb_wf_def fb_defs split: list.splits)

lemma find_eq_mem: "find (\<lambda>e. e = x) xs = (if x \<in> set xs then Some x else None)"
  by (induction xs) auto

lemma freebuffer_free_Ok:
  assumes "fb_wf fb" and "i \<in> set (fb_used_head fb)"
  obtains fb' where "mlvpn_freebuffer_free fb i = Ok fb'" and "fb_wf fb'"
    and "fb_used_head fb' = filter (\<lambda>e. e \<noteq> i) (fb_used_head fb)"
    and "fb_pool fb' = fb_pool fb" and "fb_size fb' = fb_size fb"
proof -
  have d: "distinct (fb_used_head fb)" using assms(1) by (simp add: fb_wf_def)
  then have r: "remove1 i (fb_used_head fb) = filter (\<lambda>e. e \<noteq> i) (fb_used_head fb)"
    by (simp add: distinct_remove1_removeAll removeAll_filter_not_eq eq_commute)
  let ?fb = "fb\<lparr>fb_used_head := remove1 i (fb_used_head fb), fb_free_head := i # fb_free_head fb,
    fb_used := fb_used fb - 1\<rparr>"
  have "fb_wf ?fb"
    using assms d by (auto simp: fb_wf_def set_remove1_eq length_remove1)
  moreover have "mlvpn_freebuffer_free fb i = Ok ?fb"
    using assms(2) by (simp add: mlvpn_freebuffer_free_def find_eq_mem)
  ultimately show ?thesis using r that by simp
qed

section \<open>The interface of a packet pool\<close>

locale packet_pool =
  fixes invar :: "'f \<Rightarrow> bool"
    and live :: "'f \<Rightarrow> nat list"
    and get :: "'f \<Rightarrow> (nat \<times> 'f) option"
    and release :: "'f \<Rightarrow> nat \<Rightarrow> 'f outcome"
    and drain :: "'f \<Rightarrow> (nat \<times> 'f) option"
  assumes live_distinct: "invar f \<Longrightarrow> distinct (live f)"
    and get_law: "invar f \<Longrightarrow> get f = Some (i, f') \<Longrightarrow>
      invar f' \<and> i \<notin> set (live f) \<and> live f' = live f @ [i]"
    and release_law: "invar f \<Longrightarrow> i \<in> set (live f) \<Longrightarrow>
      \<exists>f'. release f i = Ok f' \<and> invar f' \<and> live f' = filter (\<lambda>e. e \<noteq> i) (live f)"
    and drain_None: "invar f \<Longrightarrow> drain f = None \<longleftrightarrow> live f = []"
    and drain_law: "invar f \<Longrightarrow> drain f = Some (i, f') \<Longrightarrow> invar f' \<and> live f = i # live f'"
begin

text \<open>Releasing distinct live packets one after the other never fails and leaves the others.\<close>

lemma release_all:
  "invar f \<Longrightarrow> distinct is \<Longrightarrow> set is \<subseteq> set (live f) \<Longrightarrow>
   \<exists>f'. ofold release f is = Ok f' \<and> invar f' \<and> live f' = filter (\<lambda>e. e \<notin> set is) (live f)"
proof (induction "is" arbitrary: f)
  case (Cons i "is")
  obtain f1 where f1: "release f i = Ok f1" "invar f1" "live f1 = filter (\<lambda>e. e \<noteq> i) (live f)"
    using release_law [of f i] Cons.prems by auto
  then have "set is \<subseteq> set (live f1)" using Cons.prems by auto
  with Cons f1 obtain f' where "ofold release f1 is = Ok f'" "invar f'"
    "live f' = filter (\<lambda>e. e \<notin> set is) (live f1)"
    by (metis distinct.simps(2))
  with f1 show ?case by (auto simp: conj_commute intro!: filter_cong)
qed simp

end

interpretation pool: packet_pool fb_wf fb_used_head mlvpn_freebuffer_get mlvpn_freebuffer_free
  mlvpn_freebuffer_drain_used
proof (unfold_locales, goal_cases)
  case (1 f)
  then show ?case by (simp add: fb_wf_def)
next
  case (2 f i f')
  then show ?case using freebuffer_get_Some by blast
next
  case (3 f i)
  then show ?case by (metis freebuffer_free_Ok)
next
  case (4 f)
  then show ?case by (rule freebuffer_drain_used_cases)
next
  case (5 f i f')
  then show ?case using freebuffer_drain_used_cases(2) by blast
qed

text \<open>
  C34: The reordering pool never hands out a packet that is still in use and never loses one: from a
  well-formed pool (free and used entries partition it) taking an entry succeeds exactly when fewer than
  all entries are used, and the entry was not in use; giving back an entry in use always succeeds; giving
  back any other pointer ends the daemon with a fatal error.
\<close>

theorem freebuffer_ownership:
  assumes "fb_wf fb"
  shows "(mlvpn_freebuffer_get fb = None \<longleftrightarrow> fb_used fb = fb_size fb) \<and>
    (\<forall>i fb'. mlvpn_freebuffer_get fb = Some (i, fb') \<longrightarrow>
       fb_wf fb' \<and> i \<notin> set (fb_used_head fb) \<and> i < length (fb_pool fb) \<and>
       fb_used_head fb' = fb_used_head fb @ [i]) \<and>
    (\<forall>i. i \<in> set (fb_used_head fb) \<longrightarrow> (\<exists>fb'. mlvpn_freebuffer_free fb i = Ok fb' \<and> fb_wf fb' \<and>
       fb_used_head fb' = filter (\<lambda>e. e \<noteq> i) (fb_used_head fb))) \<and>
    (\<forall>i. i \<notin> set (fb_used_head fb) \<longrightarrow> (\<exists>m. mlvpn_freebuffer_free fb i = Fatal m))"
proof (intro conjI allI impI)
  show "mlvpn_freebuffer_get fb = None \<longleftrightarrow> fb_used fb = fb_size fb"
    using assms freebuffer_get_None_iff [OF assms] by (simp add: fb_wf_def)
  fix i
  show "i \<in> set (fb_used_head fb) \<Longrightarrow> \<exists>fb'. mlvpn_freebuffer_free fb i = Ok fb' \<and> fb_wf fb' \<and>
       fb_used_head fb' = filter (\<lambda>e. e \<noteq> i) (fb_used_head fb)"
    using pool.release_law [OF assms] by blast
  show "i \<notin> set (fb_used_head fb) \<Longrightarrow> \<exists>m. mlvpn_freebuffer_free fb i = Fatal m"
    by (simp add: mlvpn_freebuffer_free_def find_eq_mem)
next
  fix i fb'
  assume "mlvpn_freebuffer_get fb = Some (i, fb')"
  note get = freebuffer_get_Some [OF assms this]
  show "fb_wf fb'" and "i \<notin> set (fb_used_head fb)" and "fb_used_head fb' = fb_used_head fb @ [i]"
    by (fact get)+
  show "i < length (fb_pool fb)" using get(4) assms by (simp add: fb_wf_def)
qed

theorem freebuffer_ownership_witness:
  "fb_wf (mlvpn_freebuffer_init 2) \<and> mlvpn_freebuffer_get (mlvpn_freebuffer_init 2) \<noteq> None"
  using freebuffer_ownership [of "mlvpn_freebuffer_init 2"] by simp

text \<open>\<^verbatim>\<open>while ((pkt = mlvpn_freebuffer_drain_used(freebuf)) != NULL)\<close>: the entries in the order they come out.\<close>

function freebuffer_drain_all :: "freebuffer_t \<Rightarrow> nat list \<times> freebuffer_t" where
  "freebuffer_drain_all fb =
     (case mlvpn_freebuffer_drain_used fb of
        None \<Rightarrow> ([], fb)
      | Some (i, fb1) \<Rightarrow> (let (is, fb2) = freebuffer_drain_all fb1 in (i # is, fb2)))"
  by pat_completeness auto
termination
  by (relation "measure (\<lambda>fb. length (fb_used_head fb))")
    (auto simp: mlvpn_freebuffer_drain_used_def split: list.splits)

declare freebuffer_drain_all.simps [simp del]

lemma freebuffer_drain_all_spec:
  "fb_wf fb \<Longrightarrow> fst (freebuffer_drain_all fb) = fb_used_head fb \<and>
   fb_wf (snd (freebuffer_drain_all fb)) \<and> fb_used_head (snd (freebuffer_drain_all fb)) = [] \<and>
   fb_pool (snd (freebuffer_drain_all fb)) = fb_pool fb \<and>
   fb_size (snd (freebuffer_drain_all fb)) = fb_size fb"
proof (induction fb rule: freebuffer_drain_all.induct)
  case (1 fb)
  show ?case
  proof (cases "mlvpn_freebuffer_drain_used fb")
    case None
    then have "freebuffer_drain_all fb = ([], fb)" by (simp add: freebuffer_drain_all.simps [of fb])
    then show ?thesis
      using "1.prems" None freebuffer_drain_used_cases(1) [OF "1.prems"] by simp
  next
    case (Some x)
    obtain i fb1 where x: "x = (i, fb1)" by (cases x)
    have fb1: "fb_wf fb1" "fb_used_head fb = i # fb_used_head fb1" "fb_pool fb1 = fb_pool fb"
      "fb_size fb1 = fb_size fb"
      using freebuffer_drain_used_cases(2) [OF "1.prems", of i fb1] Some x by auto
    have eq: "freebuffer_drain_all fb = (i # fst (freebuffer_drain_all fb1), snd (freebuffer_drain_all fb1))"
      by (subst freebuffer_drain_all.simps) (simp add: Some x split_beta)
    show ?thesis
      using "1.IH" [OF Some x [symmetric] fb1(1)] fb1 by (simp add: eq)
  qed
qed

text \<open>
  A forced drain takes the packets of the pool out in the order they arrived: each newly stored packet
  comes out after all the packets stored before it.
\<close>

lemma freebuffer_drains_in_arrival_order:
  assumes "fb_wf fb" and "mlvpn_freebuffer_get fb = Some (i, fb')"
  shows "fst (freebuffer_drain_all fb') = fst (freebuffer_drain_all fb) @ [i] \<and>
    fb_used (snd (freebuffer_drain_all fb')) = 0"
proof -
  note get = freebuffer_get_Some [OF assms]
  have "fb_wf (snd (freebuffer_drain_all fb'))" "fb_used_head (snd (freebuffer_drain_all fb')) = []"
    using freebuffer_drain_all_spec [OF get(1)] by auto
  then have "fb_used (snd (freebuffer_drain_all fb')) = 0" by (simp add: fb_wf_def)
  then show ?thesis
    using freebuffer_drain_all_spec [OF get(1)] freebuffer_drain_all_spec [OF assms(1)] get(3) by simp
qed

end
