(* ===== verification/Daemon.thy ===== *)
theory Daemon
  imports Wrr Protocol Reorder Freebuffer
begin

text \<open>
  The state of the daemon (the globals of \<^verbatim>\<open>src/mlvpn.c\<close>, \<^verbatim>\<open>src/wrr.c\<close> and \<^verbatim>\<open>src/filters.c\<close>) and the
  operations that do not depend on the network: delivery to the tun device, reordering, status
  changes and process title. An operation takes the state and gives the new one, or the
  error that ends the process. Answers of the operating system to one event are the fields of \<open>env\<close>.
\<close>

section \<open>State and environment\<close>

text \<open>What the process does to the outside, in order.\<close>

datatype effect =
    SendTo int bytes bytes
  | RunScript "string list" "string list"
  | TunWrite bytes

record daemon =
  d_tunnels :: "nat \<Rightarrow> mlvpn_tunnel_t"
  d_rtuns :: "nat list"
  d_next :: nat
  d_wrr :: mlvpn_wrr
  d_filters :: "(string \<times> nat) list"
  d_options :: mlvpn_options_s
  d_status :: mlvpn_status_s
  d_key :: bytes
  d_data_seq :: u64
  d_reorder :: "mlvpn_reorder_buffer option"
  d_freebuf :: freebuffer_t
  d_drain_active :: bool
  d_drain_repeat :: double
  d_devname :: string
  d_maxmtu :: nat
  d_tun_sbuf :: circular_buffer_t
  d_tun_io_write :: bool
  d_process_title :: "string option"
  d_title :: string
  d_out :: "effect list"

text \<open>
  A tunnel is an index into \<open>d_tunnels\<close> (the structures are never freed), \<open>d_rtuns\<close> is the list \<^verbatim>\<open>rtuns\<close> and \<open>d_next\<close>
  the next index. A filter is its expression and its tunnel. \<open>d_title\<close> is the last title
  given to \<^verbatim>\<open>setproctitle\<close>, \<open>d_out\<close> the effects so far.

  The environment of an event: the time, the answers to system calls (a negative return, whether \<^verbatim>\<open>errno\<close> says to try again),
  the addresses a name resolves to (none is a failure; the flag is \<^verbatim>\<open>AI_PASSIVE\<close>), the parameters of the model.
\<close>

record env =
  en_now :: double
  en_sodium :: sodium
  en_shifts :: c_shifts
  en_sendto :: "int \<Rightarrow> bytes \<Rightarrow> bytes \<Rightarrow> int"
  en_again :: bool
  en_getaddrinfo :: "bool \<Rightarrow> string \<Rightarrow> string \<Rightarrow> addrinfo list"
  en_socket :: "nat \<Rightarrow> int"
  en_reuseaddr :: "int \<Rightarrow> int"
  en_bind :: "int \<Rightarrow> bytes \<Rightarrow> int"
  en_getnameinfo :: "bytes \<Rightarrow> int"
  en_random :: u32
  en_filter :: "string \<Rightarrow> bytes \<Rightarrow> bool"

abbreviation tun :: "daemon \<Rightarrow> nat \<Rightarrow> mlvpn_tunnel_t" where
  "tun s i \<equiv> d_tunnels s i"

definition upd :: "nat \<Rightarrow> (mlvpn_tunnel_t \<Rightarrow> mlvpn_tunnel_t) \<Rightarrow> daemon \<Rightarrow> daemon" where
  "upd i f s = s\<lparr>d_tunnels := (d_tunnels s)(i := f (d_tunnels s i))\<rparr>"

definition emit :: "effect \<Rightarrow> daemon \<Rightarrow> daemon" where
  "emit e s = s\<lparr>d_out := d_out s @ [e]\<rparr>"

definition penv :: "env \<Rightarrow> daemon \<Rightarrow> proto_env" where
  "penv E s = \<lparr>pe_sodium = en_sodium E, pe_shifts = en_shifts E, pe_key = d_key s,
     pe_cleartext = opt_cleartext_data (d_options s), pe_now = en_now E\<rparr>"

definition mlvpn_rtun_tick :: "env \<Rightarrow> nat \<Rightarrow> daemon \<Rightarrow> daemon" where
  "mlvpn_rtun_tick E i = upd i (\<lambda>t. t\<lparr>t_last_activity := en_now E\<rparr>)"

section \<open>Delivery to the tun device\<close>

definition mlvpn_rtun_inject_tuntap :: "mlvpn_pkt_t \<Rightarrow> daemon \<Rightarrow> daemon outcome" where
  "mlvpn_rtun_inject_tuntap pkt s =
     (if unat (pkt_len pkt) > DEFAULT_MTU then Fault OutOfBounds
      else Ok (s\<lparr>d_tun_sbuf := pktbuffer_put (\<lambda>p. p\<lparr>pkt_len := pkt_len pkt,
                   pkt_data := patch (pkt_data p) 0 (pkt_payload pkt)\<rparr>) (d_tun_sbuf s),
                 d_tun_io_write := True\<rparr>))"

section \<open>Reordering\<close>

text \<open>The loop over the packets the reorder buffer returned: inject each and give its entry back.\<close>

definition drain_one :: "daemon \<Rightarrow> nat option \<Rightarrow> daemon outcome" where
  "drain_one s e =
     (case e of None \<Rightarrow> Fault NullDeref
      | Some i \<Rightarrow> obind (mlvpn_rtun_inject_tuntap (fb_pool (d_freebuf s) ! i) s) (\<lambda>s1.
                  obind (mlvpn_freebuffer_free (d_freebuf s1) i) (\<lambda>fb. Ok (s1\<lparr>d_freebuf := fb\<rparr>))))"

text \<open>The loop of a forced drain: inject every packet of the pool, oldest first.\<close>

function drain_used_loop :: "daemon \<Rightarrow> daemon outcome" where
  "drain_used_loop s =
     (case mlvpn_freebuffer_drain_used (d_freebuf s) of
        None \<Rightarrow> Ok s
      | Some (i, fb) \<Rightarrow> (case mlvpn_rtun_inject_tuntap (fb_pool fb ! i) (s\<lparr>d_freebuf := fb\<rparr>) of
            Ok s' \<Rightarrow> drain_used_loop s' | Fatal m \<Rightarrow> Fatal m | Fault e \<Rightarrow> Fault e))"
  by pat_completeness auto
termination
  by (relation "measure (\<lambda>s. length (fb_used_head (d_freebuf s)))")
    (auto simp: mlvpn_freebuffer_drain_used_def mlvpn_rtun_inject_tuntap_def split: list.splits if_splits)

declare drain_used_loop.simps [simp del]

definition stop_drain_if_empty :: "daemon \<Rightarrow> daemon" where
  "stop_drain_if_empty s = (if fb_used (d_freebuf s) = 0 then s\<lparr>d_drain_active := False\<rparr> else s)"

definition reorder_reset :: "daemon \<Rightarrow> daemon outcome" where
  "reorder_reset s = (case d_reorder s of None \<Rightarrow> Fault NullDeref
     | Some b \<Rightarrow> Ok (s\<lparr>d_reorder := Some (mlvpn_reorder_reset b)\<rparr>))"

definition mlvpn_rtun_reorder_drain :: "bool \<Rightarrow> daemon \<Rightarrow> daemon outcome" where
  "mlvpn_rtun_reorder_drain reorder s =
     obind (if reorder
            then (case d_reorder s of None \<Rightarrow> Fault NullDeref
                  | Some b \<Rightarrow> obind (mlvpn_reorder_drain b 1024) (\<lambda>(es, b').
                      ofold drain_one (s\<lparr>d_reorder := Some b'\<rparr>) es))
            else obind (drain_used_loop s) (\<lambda>s1.
                 reorder_reset (s1\<lparr>d_freebuf := mlvpn_freebuffer_reset (d_freebuf s1)\<rparr>)))
       (\<lambda>s2. Ok (stop_drain_if_empty s2))"

definition mlvpn_rtun_reorder_drain_timeout :: "daemon \<Rightarrow> daemon outcome" where
  "mlvpn_rtun_reorder_drain_timeout s =
     obind (mlvpn_rtun_reorder_drain False s) (\<lambda>s'. Ok (stop_drain_if_empty s'))"

text \<open>\<^verbatim>\<open>ev_timer_again\<close> on the drain timer: without a repeat value it stops the timer.\<close>

definition drain_timer_again :: "daemon \<Rightarrow> daemon" where
  "drain_timer_again s = s\<lparr>d_drain_active := (0 < d_drain_repeat s)\<rparr>"

definition mlvpn_rtun_recv_data :: "mlvpn_pkt_t \<Rightarrow> daemon \<Rightarrow> daemon outcome" where
  "mlvpn_rtun_recv_data inpkt s =
     (case d_reorder s of
        None \<Rightarrow> mlvpn_rtun_inject_tuntap inpkt s
      | Some b \<Rightarrow>
          if pkt_reorder inpkt = 0 then mlvpn_rtun_inject_tuntap inpkt s
          else (case mlvpn_freebuffer_get (d_freebuf s) of
              None \<Rightarrow> mlvpn_rtun_inject_tuntap inpkt s
            | Some (i, fb) \<Rightarrow>
                obind (mlvpn_reorder_insert b i (pkt_seq inpkt)) (\<lambda>(ret, b').
                let s1 = s\<lparr>d_freebuf := freebuffer_store fb i inpkt, d_reorder := Some b'\<rparr> in
                if ret = - 2 then mlvpn_rtun_inject_tuntap inpkt s1
                else obind (if ret = - 1
                            then obind (reorder_reset s1) (mlvpn_rtun_reorder_drain False)
                            else mlvpn_rtun_reorder_drain True s1)
                  (\<lambda>s2. Ok (if 0 < fb_used (d_freebuf s2) then drain_timer_again s2 else s2)))))"

section \<open>Process title\<close>

definition status_mark :: "chap_status \<Rightarrow> char" where
  "status_mark st = (case st of
       MLVPN_AUTHOK \<Rightarrow> CHR ''@''
     | MLVPN_HIGH_LATENCY \<Rightarrow> CHR ''~''
     | MLVPN_LOSSY \<Rightarrow> CHR ''~''
     | _ \<Rightarrow> CHR ''!'')"

text \<open>
  The part of a tunnel: \<^verbatim>\<open>snprintf\<close> into \<^verbatim>\<open>status[32]\<close> with a size of 31 returns the length it wanted, which then is used as an
  index to terminate the string.
\<close>

definition title_part :: "mlvpn_tunnel_t \<Rightarrow> string outcome" where
  "title_part t =
     (let text = '' '' @ [status_mark (t_status t)] @ (case t_name t of Some n \<Rightarrow> n | None \<Rightarrow> ''(null)'');
          len = length text
      in if 32 \<le> len then Fault OutOfBounds else Ok (fit 31 text))"

definition update_process_title :: "daemon \<Rightarrow> daemon outcome" where
  "update_process_title s =
     (case d_process_title s of
        None \<Rightarrow> Ok s
      | Some pt \<Rightarrow>
          obind (ofold (\<lambda>title i. obind (title_part (tun s i)) (\<lambda>part. Ok (fit 1024 (title @ part))))
                   (fit 1024 pt) (d_rtuns s))
            (\<lambda>title. Ok (s\<lparr>d_title := title\<rparr>)))"

section \<open>Scripts\<close>

fun show_nat :: "nat \<Rightarrow> string" where
  "show_nat n = (if n < 10 then [char_of (48 + n)] else show_nat (n div 10) @ [char_of (48 + n mod 10)])"

declare show_nat.simps [simp del]

definition show_int :: "int \<Rightarrow> string" where
  "show_int i = (if i < 0 then CHR ''-'' # show_nat (nat (- i)) else show_nat (nat i))"

text \<open>\<open>fit\<close> is what \<^verbatim>\<open>snprintf\<close> leaves of a string in the given size.\<close>

definition mlvpn_script_get_env :: "daemon \<Rightarrow> string list" where
  "mlvpn_script_get_env s =
     (let o1 = d_options s in
      [fit (24 + 4) (''IP4='' @ opt_ip4 o1),
       fit (128 + 4) (''IP6='' @ opt_ip6 o1),
       fit (16 + 12) (''IP4_GATEWAY='' @ opt_ip4_gateway o1),
       fit (128 + 12) (''IP6_GATEWAY='' @ opt_ip6_gateway o1),
       fit (4096 + 11) (''IP4_ROUTES='' @ opt_ip4_routes o1),
       fit (8192 + 11) (''IP6_ROUTES='' @ opt_ip6_routes o1),
       fit (16 + 7) (''DEVICE='' @ d_devname s),
       fit 15 (''MTU='' @ show_int (opt_mtu o1))])"

text \<open>Running the status script for a tunnel and for the device.\<close>

definition run_rtun_script :: "string \<Rightarrow> nat \<Rightarrow> daemon \<Rightarrow> daemon outcome" where
  "run_rtun_script what i s =
     (case t_name (tun s i) of
        None \<Rightarrow> Fault NullDeref
      | Some name \<Rightarrow> Ok (emit (RunScript [d_devname s, what, name] (mlvpn_script_get_env s)) s))"

definition run_tun_script :: "string \<Rightarrow> daemon \<Rightarrow> daemon" where
  "run_tun_script what s = emit (RunScript [d_devname s, what] (mlvpn_script_get_env s)) s"

section \<open>Status of the tunnels\<close>

definition mlvpn_update_status :: "daemon \<Rightarrow> daemon" where
  "mlvpn_update_status s =
     s\<lparr>d_status := foldl (\<lambda>st i.
         if MLVPN_AUTHOK \<le> t_status (tun s i)
         then (if t_fallback_only (tun s i) = 0 then st\<lparr>st_fallback_mode := 0\<rparr> else st)
                \<lparr>st_connected := st_connected st + 1\<rparr>
         else st)
       ((d_status s)\<lparr>st_fallback_mode := int (unat (opt_fallback_available (d_options s))), st_connected := 0\<rparr>)
       (d_rtuns s)\<rparr>"

definition wrr_reset :: "daemon \<Rightarrow> daemon outcome" where
  "wrr_reset s =
     obind (mlvpn_rtun_wrr_reset (d_tunnels s) (d_rtuns s) (st_fallback_mode (d_status s)))
       (\<lambda>w. Ok (s\<lparr>d_wrr := w\<rparr>))"

definition drain_and_reset :: "daemon \<Rightarrow> daemon outcome" where
  "drain_and_reset s =
     (if d_reorder s \<noteq> None then obind (mlvpn_rtun_reorder_drain False s) reorder_reset else Ok s)"

definition mlvpn_rtun_status_up :: "env \<Rightarrow> nat \<Rightarrow> daemon \<Rightarrow> daemon outcome" where
  "mlvpn_rtun_status_up E i s =
     (let s1 = mlvpn_update_status (upd i (\<lambda>t. t\<lparr>t_status := MLVPN_AUTHOK, t_next_keepalive := en_now E + 1,
                 t_last_activity := en_now E, t_last_keepalive_ack := en_now E,
                 t_last_keepalive_ack_sent := en_now E\<rparr>) s)
      in obind (wrr_reset s1) (\<lambda>s2.
         obind (run_rtun_script ''rtun_up'' i s2) (\<lambda>s3.
         obind (if 0 < st_connected (d_status s3) \<and> st_initialized (d_status s3) = 0
                then drain_and_reset ((run_tun_script ''tuntap_up'' s3)
                       \<lparr>d_status := (d_status s3)\<lparr>st_initialized := 1\<rparr>\<rparr>)
                else Ok s3)
           update_process_title)))"

definition mlvpn_rtun_status_down :: "nat \<Rightarrow> daemon \<Rightarrow> daemon outcome" where
  "mlvpn_rtun_status_down i s =
     (let old_status = t_status (tun s i);
          s1 = mlvpn_update_status (upd i (\<lambda>t. t\<lparr>t_status := MLVPN_DISCONNECTED,
                 t_disconnects := t_disconnects t + 1, t_sbuf := mlvpn_pktbuffer_reset (t_sbuf t),
                 t_hpsbuf := mlvpn_pktbuffer_reset (t_hpsbuf t), t_io_write := False\<rparr>) s)
      in obind (if MLVPN_AUTHOK \<le> old_status
                then obind (run_rtun_script ''rtun_down'' i s1) (\<lambda>s2.
                     obind (wrr_reset s2) (\<lambda>s3.
                     drain_and_reset
                       (if st_connected (d_status s3) = 0 \<and> st_initialized (d_status s3) = 1
                        then (run_tun_script ''tuntap_down'' s3)\<lparr>d_status := (d_status s3)\<lparr>st_initialized := 0\<rparr>\<rparr>
                        else s3)))
                else Ok s1)
           update_process_title)"

end
