(* ===== verification/Rtun.thy ===== *)
theory Rtun
  imports Daemon
begin

text \<open>
  The handlers of \<^verbatim>\<open>src/mlvpn.c\<close> that talk to the network, with those of \<^verbatim>\<open>src/tuntap_generic.c\<close>,
  \<^verbatim>\<open>src/tuntap_linux.c\<close> and \<^verbatim>\<open>src/filters.c\<close>: sending and receiving on a tunnel, authentication, keepalive,
  timeouts, connection attempts, loss and latency checks, creation and removal of tunnels.
\<close>

section \<open>Sending\<close>

text \<open>The buffer a send takes its packet from: the high priority one or the other.\<close>

definition get_buf :: "bool \<Rightarrow> mlvpn_tunnel_t \<Rightarrow> circular_buffer_t" where
  "get_buf hp t = (if hp then t_hpsbuf t else t_sbuf t)"

definition set_buf :: "bool \<Rightarrow> circular_buffer_t \<Rightarrow> mlvpn_tunnel_t \<Rightarrow> mlvpn_tunnel_t" where
  "set_buf hp b t = (if hp then t\<lparr>t_hpsbuf := b\<rparr> else t\<lparr>t_sbuf := b\<rparr>)"

definition stop_write_if_empty :: "bool \<Rightarrow> nat \<Rightarrow> daemon \<Rightarrow> daemon" where
  "stop_write_if_empty hp i s =
     (if t_io_write (tun s i) \<and> mlvpn_cb_is_empty (get_buf hp (tun s i))
      then upd i (\<lambda>t. t\<lparr>t_io_write := False\<rparr>) s else s)"

definition mlvpn_rtun_send :: "env \<Rightarrow> nat \<Rightarrow> bool \<Rightarrow> daemon \<Rightarrow> daemon outcome" where
  "mlvpn_rtun_send E i hp s =
     (let (slot, buf1) = mlvpn_pktbuffer_read (get_buf hp (tun s i));
          buf = pktbuffer_modify buf1 slot (\<lambda>p. p\<lparr>pkt_reorder := 1\<rparr>);
          pkt = cb_pkts buf ! slot;
          t0 = set_buf hp buf (tun s i)
      in obind (rtun_encap (penv E s) t0 (d_data_seq s) pkt) (\<lambda>(w, t1, data_seq).
           let s1 = (upd i (\<lambda>_. t1) s)\<lparr>d_data_seq := data_seq\<rparr> in
           case w of
             None \<Rightarrow> Ok s1
           | Some wire \<Rightarrow>
               (case t_addrinfo t1 of
                  [] \<Rightarrow> Fault NullDeref
                | ai # _ \<Rightarrow>
                    let ret = en_sendto E (t_fd t1) wire (ai_addr ai);
                        s2 = emit (SendTo (t_fd t1) wire (ai_addr ai)) s1
                    in obind (if ret < 0
                              then (if en_again E then Ok s2 else mlvpn_rtun_status_down i s2)
                              else Ok (upd i (\<lambda>t. t\<lparr>t_sentpackets := t_sentpackets t + 1,
                                     t_sentbytes := t_sentbytes t + of_int ret\<rparr>) s2))
                         (\<lambda>s3. Ok (stop_write_if_empty hp i s3)))))"

definition mlvpn_rtun_write :: "env \<Rightarrow> nat \<Rightarrow> daemon \<Rightarrow> daemon outcome" where
  "mlvpn_rtun_write E i s =
     obind (if \<not> mlvpn_cb_is_empty (t_hpsbuf (tun s i)) then mlvpn_rtun_send E i True s else Ok s) (\<lambda>s1.
       if \<not> mlvpn_cb_is_empty (t_sbuf (tun s1 i)) then mlvpn_rtun_send E i False s1 else Ok s1)"

section \<open>Control packets\<close>

text \<open>The first two bytes of the data are set; nothing else of the array changes.\<close>

definition put_auth :: "char \<Rightarrow> char \<Rightarrow> u8 \<Rightarrow> mlvpn_pkt_t \<Rightarrow> mlvpn_pkt_t" where
  "put_auth a b ty p = p\<lparr>pkt_data := (pkt_data p)[0 := of_char a, 1 := of_char b], pkt_len := 2, pkt_type := ty\<rparr>"

definition mlvpn_rtun_challenge_send :: "nat \<Rightarrow> daemon \<Rightarrow> daemon" where
  "mlvpn_rtun_challenge_send i =
     upd i (\<lambda>t. t\<lparr>t_hpsbuf := pktbuffer_put (put_auth (CHR ''A'') (CHR ''U'') MLVPN_PKT_AUTH) (t_hpsbuf t),
                 t_status := MLVPN_AUTHSENT\<rparr>)"

definition mlvpn_rtun_send_auth :: "env \<Rightarrow> nat \<Rightarrow> daemon \<Rightarrow> daemon outcome" where
  "mlvpn_rtun_send_auth E i s =
     (let t = tun s i in
      if t_server_mode t then
        if t_status t = MLVPN_DISCONNECTED \<or> MLVPN_AUTHOK \<le> t_status t then
          let hps = (if mlvpn_cb_is_full (t_hpsbuf t) then mlvpn_cb_reset (t_hpsbuf t) else t_hpsbuf t);
              s1 = upd i (\<lambda>t. t\<lparr>t_hpsbuf := pktbuffer_put (put_auth (CHR ''O'') (CHR ''K'') MLVPN_PKT_AUTH_OK) hps,
                     t_status := (if t_status t < MLVPN_AUTHOK then MLVPN_AUTHSENT else t_status t)\<rparr>) s
          in obind (mlvpn_rtun_status_up E i (mlvpn_rtun_tick E i s1)) (\<lambda>s2.
               Ok (upd i (\<lambda>t. t\<lparr>t_io_write := True\<rparr>) s2))
        else Ok s
      else if t_status t = MLVPN_AUTHSENT then mlvpn_rtun_status_up E i (mlvpn_rtun_tick E i s)
      else Ok s)"

definition mlvpn_rtun_send_keepalive :: "double \<Rightarrow> nat \<Rightarrow> daemon \<Rightarrow> daemon" where
  "mlvpn_rtun_send_keepalive now i =
     upd i (\<lambda>t. (if mlvpn_cb_is_full (t_hpsbuf t) then t
                 else t\<lparr>t_hpsbuf := pktbuffer_put (\<lambda>p. p\<lparr>pkt_type := MLVPN_PKT_KEEPALIVE\<rparr>) (t_hpsbuf t)\<rparr>)
                \<lparr>t_next_keepalive := now + 1\<rparr>)"

definition mlvpn_rtun_send_disconnect :: "env \<Rightarrow> nat \<Rightarrow> daemon \<Rightarrow> daemon outcome" where
  "mlvpn_rtun_send_disconnect E i s =
     mlvpn_rtun_send E i True
       (upd i (\<lambda>t. if mlvpn_cb_is_full (t_hpsbuf t) then t
                   else t\<lparr>t_hpsbuf := pktbuffer_put (\<lambda>p. p\<lparr>pkt_type := MLVPN_PKT_DISCONNECT\<rparr>) (t_hpsbuf t)\<rparr>) s)"

section \<open>Receiving\<close>

datatype recv_result =
    RecvError
  | RecvClosed
  | RecvData bytes bytes

text \<open>
  The packet came from another address than the peer's: \<^verbatim>\<open>! tun->status >= MLVPN_AUTHOK\<close> compares the negated status, 0 or 1, with 2.
  The address is copied over the old one in place.
\<close>

definition change_peer :: "env \<Rightarrow> bytes \<Rightarrow> nat \<Rightarrow> daemon \<Rightarrow> (bool \<times> daemon) outcome" where
  "change_peer E addr i s =
     (case t_addrinfo (tun s i) of
        [] \<Rightarrow> Fatal ''tun->addrinfo is NULL!''
      | ai # ais \<Rightarrow>
          if length (ai_addr ai) \<noteq> length addr \<or> ai_addr ai \<noteq> addr then
            if chap_value MLVPN_AUTHOK \<le> (if t_status (tun s i) = MLVPN_DISCONNECTED then 1 else 0) then Ok (False, s)
            else if en_getnameinfo E addr < 0 then Ok (True, s)
            else if length (ai_addr ai) < length addr then Fault OutOfBounds
            else Ok (True, upd i (\<lambda>t. t\<lparr>t_addrinfo := ai\<lparr>ai_addr := patch (ai_addr ai) 0 addr\<rparr> # ais\<rparr>) s)
          else Ok (True, s))"

definition mlvpn_rtun_dispatch :: "env \<Rightarrow> mlvpn_pkt_t \<Rightarrow> nat \<Rightarrow> daemon \<Rightarrow> daemon outcome" where
  "mlvpn_rtun_dispatch E d i s =
     (if pkt_type d = MLVPN_PKT_DATA then
        if MLVPN_AUTHOK \<le> t_status (tun s i) then mlvpn_rtun_recv_data d (mlvpn_rtun_tick E i s) else Ok s
      else if pkt_type d = MLVPN_PKT_KEEPALIVE \<and> MLVPN_AUTHOK \<le> t_status (tun s i) then
        let s1 = upd i (\<lambda>t. t\<lparr>t_last_keepalive_ack := en_now E\<rparr>) (mlvpn_rtun_tick E i s) in
        if t_last_keepalive_ack_sent (tun s1 i) + 1 < t_last_keepalive_ack (tun s1 i)
        then Ok (mlvpn_rtun_send_keepalive (t_last_keepalive_ack (tun s1 i)) i
               (upd i (\<lambda>t. t\<lparr>t_last_keepalive_ack_sent := t_last_keepalive_ack t\<rparr>) s1))
        else Ok s1
      else if pkt_type d = MLVPN_PKT_DISCONNECT \<and> MLVPN_AUTHOK \<le> t_status (tun s i) then mlvpn_rtun_status_down i s
      else if pkt_type d = MLVPN_PKT_AUTH \<or> pkt_type d = MLVPN_PKT_AUTH_OK then mlvpn_rtun_send_auth E i s
      else Ok s)"

definition mlvpn_rtun_read :: "env \<Rightarrow> recv_result \<Rightarrow> nat \<Rightarrow> daemon \<Rightarrow> daemon outcome" where
  "mlvpn_rtun_read E r i s =
     (case r of
        RecvError \<Rightarrow> if en_again E then Ok s else mlvpn_rtun_status_down i s
      | RecvClosed \<Rightarrow> Ok s
      | RecvData bs addr \<Rightarrow>
          (case mlvpn_protocol_read (penv E s) (tun s i)
                  (pkt_zero\<lparr>pkt_len := of_nat (length bs), pkt_data := patch (replicate DEFAULT_MTU 0) 0 bs\<rparr>) of
             None \<Rightarrow> Ok s
           | Some (t1, d) \<Rightarrow>
               let s1 = upd i (\<lambda>_. t1\<lparr>t_recvbytes := t_recvbytes t1 + of_nat (length bs),
                          t_recvpackets := t_recvpackets t1 + 1\<rparr>) s
               in obind (change_peer E addr i s1) (\<lambda>(go, s2).
                    if go then mlvpn_rtun_dispatch E d i s2 else Ok s2)))"

section \<open>Connecting\<close>

definition mlvpn_rtun_bind :: "env \<Rightarrow> mlvpn_tunnel_t \<Rightarrow> bool" where
  "mlvpn_rtun_bind E t =
     (case en_getaddrinfo E True (t_bindaddr t) (t_bindport t) of
        [] \<Rightarrow> False
      | ai # _ \<Rightarrow> 0 \<le> en_bind E (t_fd t) (ai_addr ai))"

text \<open>The loop over the addresses: one attempt per address until a socket is created; the last return.\<close>

fun try_sockets :: "env \<Rightarrow> nat \<Rightarrow> addrinfo list \<Rightarrow> int" where
  "try_sockets E k [] = - 1"
| "try_sockets E k (ai # ais) =
     (if en_socket E k < 0 then (if ais = [] then en_socket E k else try_sockets E (Suc k) ais) else en_socket E k)"

text \<open>The label \<^verbatim>\<open>error\<close>: close the socket and wait twice as long before the next attempt.\<close>

definition start_error :: "mlvpn_tunnel_t \<Rightarrow> mlvpn_tunnel_t" where
  "start_error t =
     (let t1 = (if 0 < t_fd t then t\<lparr>t_fd := - 1\<rparr> else t) in
      if t_io_timeout_repeat t1 < MLVPN_IO_TIMEOUT_MAXIMUM
      then t1\<lparr>t_io_timeout_repeat := t_io_timeout_repeat t1 * MLVPN_IO_TIMEOUT_INCREMENT\<rparr> else t1)"

definition rtun_start_tunnel :: "env \<Rightarrow> mlvpn_tunnel_t \<Rightarrow> bool \<times> mlvpn_tunnel_t" where
  "rtun_start_tunnel E t =
     (let (addr, port) = (if t_server_mode t then (t_bindaddr t, t_bindport t) else (t_destaddr t, t_destport t));
          ais = en_getaddrinfo E False addr port
      in if ais = [] then (False, t)
         else let t1 = t\<lparr>t_addrinfo := ais\<rparr>;
                  fd = try_sockets E 0 ais;
                  t2 = (if fd < 0 then t1 else t1\<lparr>t_fd := fd\<rparr>)
              in if fd < 0 \<or> en_reuseaddr E fd < 0 \<or> (t_bindaddr t2 \<noteq> '''' \<and> \<not> mlvpn_rtun_bind E t2)
                 then (False, start_error t2)
                 else (True, t2\<lparr>t_last_activity := en_now E, t_io_read := True,
                             t_io_timeout_repeat := MLVPN_IO_TIMEOUT_DEFAULT\<rparr>))"

definition mlvpn_rtun_start :: "env \<Rightarrow> nat \<Rightarrow> daemon \<Rightarrow> bool \<times> daemon" where
  "mlvpn_rtun_start E i s =
     (let (ok, t) = rtun_start_tunnel E (tun s i) in (ok, upd i (\<lambda>_. t) s))"

definition mlvpn_rtun_tick_connect :: "env \<Rightarrow> nat \<Rightarrow> daemon \<Rightarrow> daemon" where
  "mlvpn_rtun_tick_connect E i s =
     (if t_server_mode (tun s i) then
        if t_fd (tun s i) < 0 then
          let (ok, s1) = mlvpn_rtun_start E i s in
          if ok then upd i (\<lambda>t. t\<lparr>t_conn_attempts := 0\<rparr>) s1 else s1
        else s
      else if t_status (tun s i) < MLVPN_AUTHOK then
        let s1 = upd i (\<lambda>t. t\<lparr>t_conn_attempts := t_conn_attempts t + 1, t_last_connection_attempt := en_now E\<rparr>) s in
        if t_fd (tun s1 i) < 0 then
          let (ok, s2) = mlvpn_rtun_start E i s1 in
          if ok then mlvpn_rtun_challenge_send i (upd i (\<lambda>t. t\<lparr>t_conn_attempts := 0\<rparr>) s2) else s2
        else mlvpn_rtun_challenge_send i s1
      else mlvpn_rtun_challenge_send i s)"

section \<open>Link quality\<close>

definition usable :: "mlvpn_tunnel_t \<Rightarrow> bool" where
  "usable t \<longleftrightarrow> t_fallback_only t = 0 \<and> t_status t \<noteq> MLVPN_HIGH_LATENCY \<and> t_status t \<noteq> MLVPN_LOSSY"

definition switch_to_fallback_if_necessary :: "daemon \<Rightarrow> daemon outcome" where
  "switch_to_fallback_if_necessary s =
     (if \<exists>i \<in> set (d_rtuns s). usable (tun s i)
      then wrr_reset (s\<lparr>d_status := (d_status s)\<lparr>st_fallback_mode := 0\<rparr>\<rparr>)
      else if opt_fallback_available (d_options s) \<noteq> 0
      then wrr_reset (s\<lparr>d_status := (d_status s)\<lparr>st_fallback_mode := 1\<rparr>\<rparr>)
      else Ok s)"

text \<open>The comparison \<^verbatim>\<open>loss >= tun->loss_tolerence\<close> is one of unsigned numbers; the loss ratio is not negative.\<close>

definition mlvpn_rtun_check_lossy :: "nat \<Rightarrow> daemon \<Rightarrow> daemon outcome" where
  "mlvpn_rtun_check_lossy i s =
     (let loss = nat (mlvpn_loss_ratio (tun s i)); tol = unat (t_loss_tolerence (tun s i)) in
      if tol \<le> loss \<and> t_status (tun s i) = MLVPN_AUTHOK then
        switch_to_fallback_if_necessary (upd i (\<lambda>t. t\<lparr>t_status := MLVPN_LOSSY\<rparr>) s)
      else if loss < tol \<and> t_status (tun s i) = MLVPN_LOSSY then
        switch_to_fallback_if_necessary (upd i (\<lambda>t. t\<lparr>t_status := MLVPN_AUTHOK\<rparr>) s)
      else Ok s)"

definition mlvpn_rtun_check_slow :: "nat \<Rightarrow> daemon \<Rightarrow> daemon outcome" where
  "mlvpn_rtun_check_slow i s =
     (let t = tun s i; tol = (of_nat (unat (t_latency_tolerence t)) :: rat) in
      if t_latency_tolerence t = 1000 then Ok s
      else if tol \<le> t_srtt t \<and> t_status t = MLVPN_AUTHOK then
        switch_to_fallback_if_necessary (upd i (\<lambda>t. t\<lparr>t_status := MLVPN_HIGH_LATENCY\<rparr>) s)
      else if t_srtt t < tol \<and> t_status t = MLVPN_HIGH_LATENCY then
        switch_to_fallback_if_necessary (upd i (\<lambda>t. t\<lparr>t_status := MLVPN_AUTHOK\<rparr>) s)
      else Ok s)"

section \<open>Timers\<close>

definition start_write_if_queued :: "nat \<Rightarrow> daemon \<Rightarrow> daemon" where
  "start_write_if_queued i s =
     (if \<not> t_io_write (tun s i) \<and> \<not> mlvpn_cb_is_empty (t_hpsbuf (tun s i))
      then upd i (\<lambda>t. t\<lparr>t_io_write := True\<rparr>) s else s)"

definition check_alive :: "env \<Rightarrow> nat \<Rightarrow> daemon \<Rightarrow> daemon outcome" where
  "check_alive E i s =
     (let t = tun s i in
      if MLVPN_AUTHOK \<le> t_status t \<and> 0 < t_timeout t then
        if t_last_keepalive_ack t \<noteq> 0 \<and> t_last_keepalive_ack t + of_nat (unat (t_timeout t)) < en_now E
        then mlvpn_rtun_status_down i s
        else Ok (if t_next_keepalive t < en_now E then mlvpn_rtun_send_keepalive (en_now E) i s else s)
      else if t_status t < MLVPN_AUTHOK then Ok (mlvpn_rtun_tick_connect E i s)
      else Ok s)"

definition mlvpn_rtun_check_timeout :: "env \<Rightarrow> nat \<Rightarrow> daemon \<Rightarrow> daemon outcome" where
  "mlvpn_rtun_check_timeout E i s =
     obind (check_alive E i s) (\<lambda>s1.
     obind (mlvpn_rtun_check_lossy i (start_write_if_queued i s1)) (mlvpn_rtun_check_slow i))"

definition mlvpn_rtun_adjust_reorder_timeout :: "daemon \<Rightarrow> daemon" where
  "mlvpn_rtun_adjust_reorder_timeout s =
     (let max_srtt = foldl (\<lambda>m i. let t = tun s i in
            if MLVPN_AUTHOK \<le> t_status t \<and> t_fallback_only t = 0 \<and> t_rtt_hit t
            then (let tmp = t_srtt t + 4 * t_rttvar t in if tmp < m then m else tmp) else m)
          0 (d_rtuns s)
      in s\<lparr>d_drain_repeat := (if 0 < max_srtt then max_srtt * (22 / 10) / 1000 else 8 / 10)\<rparr>)"

section \<open>Tunnels come and go\<close>

text \<open>The structure \<^verbatim>\<open>mlvpn_rtun_new\<close> allocates, and the call.\<close>

definition rtun_new_struct ::
  "env \<Rightarrow> string \<Rightarrow> string option \<Rightarrow> string option \<Rightarrow> u32 \<Rightarrow> string option \<Rightarrow> string option \<Rightarrow> bool \<Rightarrow> u32 \<Rightarrow> int \<Rightarrow>
   u32 \<Rightarrow> u32 \<Rightarrow> u32 \<Rightarrow> mlvpn_tunnel_t" where
  "rtun_new_struct E name bindaddr bindport bindfib destaddr destport server_mode timeout fallback_only
     bandwidth loss_tolerence latency_tolerence =
     tunnel_zero\<lparr>t_name := Some name, t_fd := - 1, t_server_mode := server_mode, t_weight := 1,
       t_saved_timestamp := - 1, t_srtt := 1000, t_rttvar := 500, t_seq_vect := - 1,
       t_flow_id := en_random E, t_bandwidth := bandwidth, t_fallback_only := fallback_only,
       t_loss_tolerence := loss_tolerence, t_latency_tolerence := latency_tolerence,
       t_bindaddr := (case bindaddr of Some a \<Rightarrow> fit MLVPN_MAXHNAMSTR a | None \<Rightarrow> ''''),
       t_bindport := (case bindport of Some a \<Rightarrow> fit MLVPN_MAXPORTSTR a | None \<Rightarrow> ''''),
       t_bindfib := bindfib,
       t_destaddr := (case destaddr of Some a \<Rightarrow> fit MLVPN_MAXHNAMSTR a | None \<Rightarrow> ''''),
       t_destport := (case destport of Some a \<Rightarrow> fit MLVPN_MAXPORTSTR a | None \<Rightarrow> ''''),
       t_sbuf := mlvpn_pktbuffer_init PKTBUFSIZE, t_hpsbuf := mlvpn_pktbuffer_init PKTBUFSIZE,
       t_last_activity := en_now E, t_timeout := timeout,
       t_io_timeout := True, t_io_timeout_repeat := MLVPN_IO_TIMEOUT_DEFAULT\<rparr>"

definition mlvpn_rtun_new ::
  "env \<Rightarrow> string \<Rightarrow> string option \<Rightarrow> string option \<Rightarrow> u32 \<Rightarrow> string option \<Rightarrow> string option \<Rightarrow> bool \<Rightarrow> u32 \<Rightarrow> int \<Rightarrow>
   u32 \<Rightarrow> u32 \<Rightarrow> u32 \<Rightarrow> daemon \<Rightarrow> (nat option \<times> daemon) outcome" where
  "mlvpn_rtun_new E name bindaddr bindport bindfib destaddr destport server_mode timeout fallback_only
     bandwidth loss_tolerence latency_tolerence s =
     (if (if server_mode then bindport = None else destaddr = None \<or> destport = None) then Ok (None, s)
      else let i = d_next s;
               t = rtun_new_struct E name bindaddr bindport bindfib destaddr destport server_mode timeout fallback_only
                     bandwidth loss_tolerence latency_tolerence
           in obind (update_process_title
                ((upd i (\<lambda>_. t) s)\<lparr>d_next := Suc i, d_rtuns := i # d_rtuns s\<rparr>)) (\<lambda>s'. Ok (Some i, s')))"

definition mlvpn_rtun_drop :: "env \<Rightarrow> nat \<Rightarrow> daemon \<Rightarrow> daemon outcome" where
  "mlvpn_rtun_drop E i s =
     obind (mlvpn_rtun_send_disconnect E i s) (\<lambda>s1.
     obind (mlvpn_rtun_status_down i s1) (\<lambda>s2.
       let s3 = upd i (\<lambda>t. t\<lparr>t_io_timeout := False, t_io_read := False\<rparr>) s2 in
       update_process_title
         (case find (\<lambda>j. mystr_eq (t_name (tun s3 j)) (t_name (tun s3 i))) (d_rtuns s3) of
            None \<Rightarrow> s3
          | Some j \<Rightarrow> (upd j (\<lambda>t. t\<lparr>t_name := None, t_addrinfo := []\<rparr>) s3)\<lparr>d_rtuns := remove1 j (d_rtuns s3)\<rparr>)))"

section \<open>The tun device\<close>

text \<open>
  \<^verbatim>\<open>mlvpn_filters_choose\<close>: the first filter that matches and whose tunnel is online. \<open>en_filter\<close> is
  \<^verbatim>\<open>pcap_offline_filter\<close> on the compiled expression.
\<close>

definition mlvpn_filters_choose :: "env \<Rightarrow> bytes \<Rightarrow> daemon \<Rightarrow> nat option" where
  "mlvpn_filters_choose E data s =
     map_option snd (find (\<lambda>(f, i). en_filter E f data \<and> \<not> t_status (tun s i) < MLVPN_AUTHOK) (d_filters s))"

definition mlvpn_filters_add :: "string \<Rightarrow> nat \<Rightarrow> daemon \<Rightarrow> (int \<times> daemon)" where
  "mlvpn_filters_add f i s =
     (if 255 \<le> length (d_filters s) then (- 1, s) else (0, s\<lparr>d_filters := d_filters s @ [(f, i)]\<rparr>))"

definition mlvpn_rtun_choose :: "daemon \<Rightarrow> nat option \<times> daemon" where
  "mlvpn_rtun_choose s = (let (t, w) = mlvpn_rtun_wrr_choose (d_tunnels s) (d_wrr s) in (t, s\<lparr>d_wrr := w\<rparr>))"

text \<open>Queue a packet on a tunnel and have it written.\<close>

definition queue_data :: "bool \<Rightarrow> bytes \<Rightarrow> nat \<Rightarrow> daemon \<Rightarrow> daemon outcome" where
  "queue_data hp data i s =
     (if length data > DEFAULT_MTU then Fault OutOfBounds
      else let s1 = upd i (\<lambda>t. set_buf hp (pktbuffer_put (\<lambda>p. p\<lparr>pkt_len := of_nat (length data),
                      pkt_data := patch (pkt_data p) 0 data\<rparr>) (get_buf hp t)) t) s
           in Ok (if \<not> t_io_write (tun s1 i) \<and> \<not> mlvpn_cb_is_empty (get_buf hp (tun s1 i))
                  then upd i (\<lambda>t. t\<lparr>t_io_write := True\<rparr>) s1 else s1))"

definition mlvpn_tuntap_generic_read :: "env \<Rightarrow> bytes \<Rightarrow> daemon \<Rightarrow> daemon outcome" where
  "mlvpn_tuntap_generic_read E data s =
     (case mlvpn_filters_choose E data s of
        Some i \<Rightarrow> queue_data True data i s
      | None \<Rightarrow> (case mlvpn_rtun_choose s of
            (None, s1) \<Rightarrow> Ok s1
          | (Some i, s1) \<Rightarrow> queue_data False data i s1))"

datatype read_result = ReadError | ReadEof | ReadData bytes

definition mlvpn_tuntap_read :: "env \<Rightarrow> read_result \<Rightarrow> daemon \<Rightarrow> daemon outcome" where
  "mlvpn_tuntap_read E r s =
     (case r of
        ReadError \<Rightarrow> if en_again E then Ok s else Fatal ''unrecoverable read error''
      | ReadEof \<Rightarrow> Fatal ''tuntap device closed''
      | ReadData data \<Rightarrow> mlvpn_tuntap_generic_read E (take (d_maxmtu s) data) s)"

text \<open>The write is attempted once; what the device answers only matters to the log.\<close>

definition mlvpn_tuntap_write :: "daemon \<Rightarrow> daemon outcome" where
  "mlvpn_tuntap_write s =
     (if mlvpn_cb_is_empty (d_tun_sbuf s) then Fatal ''tuntap_write called with empty buffer''
      else let (pkt, buf) = pktbuffer_take (d_tun_sbuf s)
           in Ok (emit (TunWrite (pkt_payload pkt)) (s\<lparr>d_tun_sbuf := buf\<rparr>)))"

definition tuntap_write_event :: "daemon \<Rightarrow> daemon outcome" where
  "tuntap_write_event s =
     obind (mlvpn_tuntap_write s) (\<lambda>s1.
       Ok (if mlvpn_cb_is_empty (d_tun_sbuf s1) then s1\<lparr>d_tun_io_write := False\<rparr> else s1))"

definition mlvpn_tuntap_init :: "daemon \<Rightarrow> daemon" where
  "mlvpn_tuntap_init s = s\<lparr>d_devname := ''mlvpn0'', d_maxmtu := 1500 - PKTHDRSIZ - IP4_UDP_OVERHEAD,
     d_tun_sbuf := mlvpn_pktbuffer_init PKTBUFSIZE, d_tun_io_write := False\<rparr>"

section \<open>Shutdown\<close>

definition mlvpn_quit :: "env \<Rightarrow> daemon \<Rightarrow> daemon outcome" where
  "mlvpn_quit E s =
     ofold (\<lambda>s i.
         let s1 = upd i (\<lambda>t. t\<lparr>t_io_timeout := False, t_io_read := False\<rparr>) s in
         if MLVPN_AUTHOK \<le> t_status (tun s1 i) then mlvpn_rtun_send_disconnect E i s1 else Ok s1)
       s (d_rtuns s)"

end
