(* ===== verification/Delivery.thy ===== *)
theory Delivery
  imports Daemon
begin

text \<open>
  The receive path up to the tun device: the invariant that ties the reorder buffer to the packet pool,
  and what an incoming packet does. Nothing on this path can fail, and the packets handed to the
  device are in sequence order.
\<close>

section \<open>Invariants\<close>

definition buf_ok :: "circular_buffer_t \<Rightarrow> bool" where
  "buf_ok b \<longleftrightarrow> cb_wf b \<and> (\<forall>p \<in> set (cb_pkts b). pkt_wf p)"

lemma pkt_wf_zero [simp]: "pkt_wf pkt_zero"
  by (simp add: pkt_wf_def pkt_zero_def)

lemma buf_ok_init [simp]: "0 < sz \<Longrightarrow> buf_ok (mlvpn_pktbuffer_init sz)"
  by (auto simp: buf_ok_def cb_defs cb_wf_def)

lemma buf_ok_reset [simp]: "buf_ok b \<Longrightarrow> buf_ok (mlvpn_pktbuffer_reset b)" "buf_ok b \<Longrightarrow> buf_ok (mlvpn_cb_reset b)"
  by (auto simp: buf_ok_def cb_defs cb_wf_def)

lemma reset_empty [simp]:
  "mlvpn_cb_is_empty (mlvpn_pktbuffer_reset b)" "mlvpn_cb_is_empty (mlvpn_cb_reset b)"
  by (simp_all add: cb_defs)

lemma buf_ok_put:
  assumes "buf_ok b" and "\<And>p. pkt_wf p \<Longrightarrow> pkt_wf (f p)"
  shows "buf_ok (pktbuffer_put f b)" and "\<not> mlvpn_cb_is_empty (pktbuffer_put f b)"
proof -
  have wf: "cb_wf b" using assms(1) by (simp add: buf_ok_def)
  have "cb_end b < length (cb_pkts b)" using wf by (simp add: cb_wf_def)
  then have "pkt_wf (cb_pkts b ! cb_end b)" using assms(1) by (simp add: buf_ok_def)
  then have "pkt_wf (cb_fresh b)" by (simp add: pkt_wf_def cb_fresh_def)
  then show "buf_ok (pktbuffer_put f b)"
    using assms wf set_update_subset_insert [of "cb_pkts b" "cb_end b" "f (cb_fresh b)"]
    by (auto simp: buf_ok_def pktbuffer_put_unfold cb_wf_def dest!: subsetD)
  show "\<not> mlvpn_cb_is_empty (pktbuffer_put f b)" by (rule pktq.put_not_empty [OF wf])
qed

definition dev_ok :: "daemon \<Rightarrow> bool" where
  "dev_ok s \<longleftrightarrow> buf_ok (d_tun_sbuf s) \<and> (d_tun_io_write s \<longleftrightarrow> \<not> mlvpn_cb_is_empty (d_tun_sbuf s))"

definition pool_ok :: "freebuffer_t \<Rightarrow> bool" where
  "pool_ok fb \<longleftrightarrow> fb_wf fb \<and> fb_size fb = 512 \<and> (\<forall>p \<in> set (fb_pool fb). pkt_wf p)"

text \<open>The sequence number of the packet behind a pool entry.\<close>

definition pool_seq :: "freebuffer_t \<Rightarrow> nat \<Rightarrow> u64" where
  "pool_seq fb i = pkt_seq (fb_pool fb ! i)"

text \<open>The reorder buffer holds entries in use, each where its sequence number says.\<close>

definition ro_pool :: "nat \<Rightarrow> mlvpn_reorder_buffer \<Rightarrow> freebuffer_t \<Rightarrow> bool" where
  "ro_pool k b fb \<longleftrightarrow> ro_inv k (pool_seq fb) b \<and> (\<forall>i. Some i \<in> set (window b) \<longrightarrow> i \<in> set (fb_used_head fb))"

definition rx_ok :: "daemon \<Rightarrow> bool" where
  "rx_ok s \<longleftrightarrow> dev_ok s \<and> pool_ok (d_freebuf s) \<and>
     (case d_reorder s of None \<Rightarrow> \<not> d_drain_active s | Some b \<Rightarrow> \<exists>k. ro_pool k b (d_freebuf s))"

text \<open>Everything but the receive path.\<close>

definition core :: "daemon \<Rightarrow> daemon" where
  "core s = s\<lparr>d_reorder := None, d_freebuf := mlvpn_freebuffer_init 0, d_drain_active := False,
     d_tun_sbuf := mlvpn_pktbuffer_init 0, d_tun_io_write := False\<rparr>"

lemma core_fields:
  assumes "core s' = core s"
  shows "d_tunnels s' = d_tunnels s" "d_rtuns s' = d_rtuns s" "d_next s' = d_next s" "d_wrr s' = d_wrr s"
    "d_filters s' = d_filters s" "d_options s' = d_options s" "d_status s' = d_status s" "d_key s' = d_key s"
    "d_data_seq s' = d_data_seq s" "d_drain_repeat s' = d_drain_repeat s" "d_devname s' = d_devname s"
    "d_maxmtu s' = d_maxmtu s" "d_process_title s' = d_process_title s" "d_title s' = d_title s" "d_out s' = d_out s"
  using assms by (cases s, cases s', simp add: core_def)+

lemma core_updates [simp]:
  "core (s\<lparr>d_reorder := r\<rparr>) = core s" "core (s\<lparr>d_freebuf := f\<rparr>) = core s"
  "core (s\<lparr>d_drain_active := a\<rparr>) = core s" "core (s\<lparr>d_tun_sbuf := b\<rparr>) = core s"
  "core (s\<lparr>d_tun_io_write := w\<rparr>) = core s"
  by (simp_all add: core_def)

section \<open>Injecting\<close>

text \<open>What is queued for the device, and a queue of bounded capacity that loses its oldest elements.\<close>

definition tun_queue :: "daemon \<Rightarrow> bytes list" where
  "tun_queue s = map pkt_payload (cb_list (d_tun_sbuf s))"

definition tun_cap :: "daemon \<Rightarrow> nat" where
  "tun_cap s = cb_size (d_tun_sbuf s) - 1"

definition lossy_app :: "nat \<Rightarrow> 'a list \<Rightarrow> 'a list \<Rightarrow> 'a list" where
  "lossy_app n xs ys = drop (length xs + length ys - n) (xs @ ys)"

lemma lossy_app_Nil: "length xs \<le> n \<Longrightarrow> lossy_app n xs [] = xs"
  by (simp add: lossy_app_def)

lemma lossy_app_length: "length (lossy_app n xs ys) \<le> n"
  by (simp add: lossy_app_def)

lemma lossy_app_app:
  assumes "length xs \<le> n"
  shows "lossy_app n (lossy_app n xs ys) zs = lossy_app n xs (ys @ zs)"
proof (cases "length xs + length ys \<le> n")
  case False
  then have "length (lossy_app n xs ys) = n" by (simp add: lossy_app_def)
  moreover have "lossy_app n xs ys @ zs = drop (length xs + length ys - n) (xs @ ys @ zs)"
    using False by (simp add: lossy_app_def)
  ultimately show ?thesis using False by (simp add: lossy_app_def add.assoc add.commute [of "length zs"] del: append_assoc drop_append)
qed (simp add: lossy_app_def add.assoc)

lemma payload_patch:
  "length q = unat l \<Longrightarrow> pkt_payload (p\<lparr>pkt_len := l, pkt_data := patch (pkt_data p) 0 q\<rparr>) = q"
  by (simp add: pkt_payload_def patch_def)

lemma inject_spec:
  assumes "pkt_wf pkt" and "dev_ok s"
  shows "\<exists>s'. mlvpn_rtun_inject_tuntap pkt s = Ok s' \<and> dev_ok s' \<and> core s' = core s \<and>
     d_reorder s' = d_reorder s \<and> d_freebuf s' = d_freebuf s \<and> d_drain_active s' = d_drain_active s \<and>
     tun_cap s' = tun_cap s \<and> d_tun_io_write s' \<and> tun_queue s' = lossy_app (tun_cap s) (tun_queue s) [pkt_payload pkt]"
proof -
  let ?f = "\<lambda>p. p\<lparr>pkt_len := pkt_len pkt, pkt_data := patch (pkt_data p) 0 (pkt_payload pkt)\<rparr>"
  let ?b = "pktbuffer_put ?f (d_tun_sbuf s)"
  have len: "unat (pkt_len pkt) \<le> 1500" "length (pkt_payload pkt) = unat (pkt_len pkt)"
    using assms(1) by (auto simp: pkt_wf_def pkt_payload_def)
  have b: "buf_ok (d_tun_sbuf s)" using assms(2) by (simp add: dev_ok_def)
  then have wf: "cb_wf (d_tun_sbuf s)" by (simp add: buf_ok_def)
  have f: "pkt_wf (?f p)" if "pkt_wf p" for p using that len by (simp add: pkt_wf_def)
  have pay: "pkt_payload (?f p) = pkt_payload pkt" for p
    by (rule payload_patch [OF len(2)])
  have "map pkt_payload (cb_list ?b) = lossy_app (tun_cap s) (tun_queue s) [pkt_payload pkt]"
    unfolding pktq.put_elems_drop [OF wf, of ?f] drop_map [symmetric]
    by (simp add: lossy_app_def tun_queue_def tun_cap_def pay del: drop_append)
  then show ?thesis
    using len buf_ok_put [OF b f] by (simp add: mlvpn_rtun_inject_tuntap_def dev_ok_def tun_queue_def tun_cap_def)
qed

lemma tun_queue_cap: "dev_ok s \<Longrightarrow> length (tun_queue s) \<le> tun_cap s"
  using cb_list_length [of "d_tun_sbuf s"] by (simp add: tun_queue_def tun_cap_def dev_ok_def buf_ok_def)

section \<open>Draining\<close>

lemma pool_ok_nth: "pool_ok fb \<Longrightarrow> i \<in> set (fb_used_head fb) \<Longrightarrow> pkt_wf (fb_pool fb ! i)"
  by (auto simp: pool_ok_def fb_wf_def)

text \<open>Injecting the packets of distinct entries in use and giving the entries back.\<close>

lemma drain_list_spec:
  assumes "dev_ok s" and "pool_ok (d_freebuf s)" and "distinct es" and "set es \<subseteq> set (fb_used_head (d_freebuf s))"
  shows "\<exists>s'. ofold drain_one s (map Some es) = Ok s' \<and> dev_ok s' \<and> pool_ok (d_freebuf s') \<and> core s' = core s \<and>
     d_reorder s' = d_reorder s \<and> d_drain_active s' = d_drain_active s \<and> tun_cap s' = tun_cap s \<and>
     fb_pool (d_freebuf s') = fb_pool (d_freebuf s) \<and>
     set (fb_used_head (d_freebuf s')) = set (fb_used_head (d_freebuf s)) - set es \<and>
     tun_queue s' = lossy_app (tun_cap s) (tun_queue s) (map (\<lambda>i. pkt_payload (fb_pool (d_freebuf s) ! i)) es)"
  using assms
proof (induction es arbitrary: s)
  case Nil
  then show ?case using tun_queue_cap [of s] by (simp add: lossy_app_Nil)
next
  case (Cons i es)
  let ?p = "fb_pool (d_freebuf s) ! i"
  have i: "i \<in> set (fb_used_head (d_freebuf s))" using Cons.prems(4) by simp
  then have "pkt_wf ?p" by (rule pool_ok_nth [OF Cons.prems(2)])
  from inject_spec [OF this Cons.prems(1)] obtain s1 where
    s1: "mlvpn_rtun_inject_tuntap ?p s = Ok s1" "dev_ok s1" "core s1 = core s" "d_reorder s1 = d_reorder s"
      "d_freebuf s1 = d_freebuf s" "d_drain_active s1 = d_drain_active s" "tun_cap s1 = tun_cap s"
      "tun_queue s1 = lossy_app (tun_cap s) (tun_queue s) [pkt_payload ?p]" by blast
  have wf: "fb_wf (d_freebuf s)" using Cons.prems(2) by (simp add: pool_ok_def)
  obtain fb where fb: "mlvpn_freebuffer_free (d_freebuf s) i = Ok fb" "fb_wf fb"
    "fb_used_head fb = filter (\<lambda>e. e \<noteq> i) (fb_used_head (d_freebuf s))" "fb_pool fb = fb_pool (d_freebuf s)"
    "fb_size fb = fb_size (d_freebuf s)"
    by (rule freebuffer_free_Ok [OF wf i])
  let ?s2 = "s1\<lparr>d_freebuf := fb\<rparr>"
  have one: "drain_one s (Some i) = Ok ?s2" using s1(1,5) fb(1) by (simp add: drain_one_def)
  have frame: "dev_ok ?s2" "tun_cap ?s2 = tun_cap s" "tun_queue ?s2 = tun_queue s1"
    using s1(2,7) by (simp_all add: dev_ok_def tun_cap_def tun_queue_def)
  have "pool_ok (d_freebuf ?s2)" using Cons.prems(2) fb by (simp add: pool_ok_def)
  moreover have "set es \<subseteq> set (fb_used_head (d_freebuf ?s2))" using Cons.prems(3,4) fb(3) by auto
  ultimately obtain s' where
    s': "ofold drain_one ?s2 (map Some es) = Ok s'" "dev_ok s'" "pool_ok (d_freebuf s')" "core s' = core ?s2"
      "d_reorder s' = d_reorder ?s2" "d_drain_active s' = d_drain_active ?s2" "tun_cap s' = tun_cap ?s2"
      "fb_pool (d_freebuf s') = fb_pool (d_freebuf ?s2)"
      "set (fb_used_head (d_freebuf s')) = set (fb_used_head (d_freebuf ?s2)) - set es"
      "tun_queue s' = lossy_app (tun_cap ?s2) (tun_queue ?s2) (map (\<lambda>i. pkt_payload (fb_pool (d_freebuf ?s2) ! i)) es)"
    using Cons.IH [OF frame(1)] Cons.prems(3) by auto
  have "tun_queue s' = lossy_app (tun_cap s) (tun_queue s)
      (pkt_payload ?p # map (\<lambda>i. pkt_payload (fb_pool (d_freebuf s) ! i)) es)"
    using s'(10) frame s1(8) fb(4) lossy_app_app [OF tun_queue_cap [OF Cons.prems(1)], of "[pkt_payload ?p]"] by simp
  then show ?case using s' one s1 fb frame(2) by (auto intro!: exI [of _ s'])
qed

text \<open>A forced drain injects every packet of the pool in the order of arrival.\<close>

lemma drain_used_loop_spec:
  assumes "dev_ok s" and "pool_ok (d_freebuf s)"
  shows "\<exists>s'. drain_used_loop s = Ok s' \<and> dev_ok s' \<and> pool_ok (d_freebuf s') \<and> core s' = core s \<and>
     d_reorder s' = d_reorder s \<and> d_drain_active s' = d_drain_active s \<and> tun_cap s' = tun_cap s \<and>
     fb_used_head (d_freebuf s') = [] \<and> fb_pool (d_freebuf s') = fb_pool (d_freebuf s) \<and>
     tun_queue s' = lossy_app (tun_cap s) (tun_queue s)
       (map (\<lambda>i. pkt_payload (fb_pool (d_freebuf s) ! i)) (fb_used_head (d_freebuf s)))"
  using assms
proof (induction "fb_used_head (d_freebuf s)" arbitrary: s)
  case Nil
  then have "mlvpn_freebuffer_drain_used (d_freebuf s) = None" by (simp add: mlvpn_freebuffer_drain_used_def)
  then show ?case using Nil tun_queue_cap [of s] by (simp add: drain_used_loop.simps [of s] lossy_app_Nil)
next
  case (Cons i es)
  let ?p = "fb_pool (d_freebuf s) ! i"
  have wf: "fb_wf (d_freebuf s)" using Cons.prems(2) by (simp add: pool_ok_def)
  obtain fb where d: "mlvpn_freebuffer_drain_used (d_freebuf s) = Some (i, fb)"
    using Cons(2) by (cases "fb_used_head (d_freebuf s)") (auto simp: mlvpn_freebuffer_drain_used_def)
  have fb: "fb_wf fb" "es = fb_used_head fb" "fb_pool fb = fb_pool (d_freebuf s)" "fb_size fb = fb_size (d_freebuf s)"
    using freebuffer_drain_used_cases(2) [OF wf d] Cons(2) by auto
  have "pkt_wf ?p" using Cons(2) by (intro pool_ok_nth [OF Cons.prems(2)]) (metis list.set_intros(1))
  moreover have "dev_ok (s\<lparr>d_freebuf := fb\<rparr>)" using Cons.prems(1) by (simp add: dev_ok_def)
  ultimately obtain s1 where
    s1: "mlvpn_rtun_inject_tuntap ?p (s\<lparr>d_freebuf := fb\<rparr>) = Ok s1" "dev_ok s1" "core s1 = core s"
      "d_reorder s1 = d_reorder s" "d_freebuf s1 = fb" "d_drain_active s1 = d_drain_active s" "tun_cap s1 = tun_cap s"
      "tun_queue s1 = lossy_app (tun_cap s) (tun_queue s) [pkt_payload ?p]"
    using inject_spec [of ?p "s\<lparr>d_freebuf := fb\<rparr>"] by (auto simp: tun_cap_def tun_queue_def)
  have "pool_ok (d_freebuf s1)" using Cons.prems(2) fb s1(5) by (simp add: pool_ok_def)
  from Cons.hyps(1) [OF _ s1(2) this] obtain s' where
    s': "drain_used_loop s1 = Ok s'" "dev_ok s'" "pool_ok (d_freebuf s')" "core s' = core s1"
      "d_reorder s' = d_reorder s1" "d_drain_active s' = d_drain_active s1" "tun_cap s' = tun_cap s1"
      "fb_used_head (d_freebuf s') = []" "fb_pool (d_freebuf s') = fb_pool (d_freebuf s1)"
      "tun_queue s' = lossy_app (tun_cap s1) (tun_queue s1)
         (map (\<lambda>i. pkt_payload (fb_pool (d_freebuf s1) ! i)) (fb_used_head (d_freebuf s1)))"
    using fb(2) s1(5) by auto
  have step: "drain_used_loop s = drain_used_loop s1"
    using d s1(1) fb(3) by (simp add: drain_used_loop.simps [of s])
  have "tun_queue s' = lossy_app (tun_cap s) (tun_queue s)
      (map (\<lambda>i. pkt_payload (fb_pool (d_freebuf s) ! i)) (i # es))"
    using s'(10) s1 fb lossy_app_app [OF tun_queue_cap [OF Cons.prems(1)], of "[pkt_payload ?p]"] by simp
  then show ?case unfolding Cons(2) [symmetric] using s' step s1 fb by (auto intro!: exI [of _ s'])
qed

section \<open>The reorder buffer and the pool\<close>

lemma ro_inv_cong:
  assumes "\<And>i. Some i \<in> set (window b) \<Longrightarrow> sq' i = sq i" and "ro_inv k sq b"
  shows "ro_inv k sq' b"
proof -
  have "lab (\<lambda>q. unat (sq' q - ro_min_seqn b)) 0 (window b)"
    unfolding lab_def
  proof (intro allI impI)
    fix i q assume i: "i < length (window b)" "window b ! i = Some q"
    then have "sq' q = sq q" using assms(1) by (metis nth_mem)
    then show "unat (sq' q - ro_min_seqn b) = 0 + i"
      using i assms(2) by (simp add: ro_inv_def labelled_def lab_def)
  qed
  then show ?thesis using assms(2) by (simp add: ro_inv_def labelled_def)
qed

lemma sorted_map_distinct:
  fixes g :: "'b \<Rightarrow> 'c::linorder"
  shows "sorted_wrt (<) (map g xs) \<Longrightarrow> distinct xs"
  by (metis distinct_map strict_sorted_iff)

lemma window_fits:
  assumes "ro_pool k b fb" and "pool_ok fb"
  shows "length (some_of (window b)) \<le> 512"
proof -
  let ?w = "some_of (window b)"
  have "lab (\<lambda>q. unat (pool_seq fb q - ro_min_seqn b)) 0 (window b)"
    using assms(1) by (simp add: ro_pool_def ro_inv_def labelled_def)
  then have "distinct ?w" using lab_some_of sorted_map_distinct by blast
  then have "length ?w = card (set ?w)" by (rule distinct_card [symmetric])
  also have "\<dots> \<le> card (Some ` set (fb_used_head fb))"
    using assms(1) by (intro card_mono) (auto simp: ro_pool_def)
  also have "\<dots> = card (set (fb_used_head fb))" by (intro card_image) simp
  also have "\<dots> \<le> card {0..<fb_size fb}"
  proof (rule card_mono)
    show "set (fb_used_head fb) \<subseteq> {0..<fb_size fb}" using assms(2) by (metis Un_upper2 fb_wf_def pool_ok_def)
  qed simp
  finally show ?thesis using assms(2) by (simp add: pool_ok_def)
qed

lemma force_drain_spec:
  assumes "dev_ok s" and "pool_ok (d_freebuf s)" and "d_reorder s = Some b" and "ro_wf k b"
  shows "\<exists>s'. mlvpn_rtun_reorder_drain False s = Ok s' \<and> rx_ok s' \<and> core s' = core s \<and>
     d_reorder s' = Some (mlvpn_reorder_reset b) \<and> fb_used_head (d_freebuf s') = [] \<and> \<not> d_drain_active s' \<and>
     tun_cap s' = tun_cap s \<and>
     tun_queue s' = lossy_app (tun_cap s) (tun_queue s)
       (map (\<lambda>i. pkt_payload (fb_pool (d_freebuf s) ! i)) (fb_used_head (d_freebuf s)))"
proof -
  from drain_used_loop_spec [OF assms(1,2)] obtain s1 where
    s1: "drain_used_loop s = Ok s1" "dev_ok s1" "pool_ok (d_freebuf s1)" "core s1 = core s"
      "d_reorder s1 = d_reorder s" "tun_cap s1 = tun_cap s"
      "tun_queue s1 = lossy_app (tun_cap s) (tun_queue s)
       (map (\<lambda>i. pkt_payload (fb_pool (d_freebuf s) ! i)) (fb_used_head (d_freebuf s)))" by blast
  let ?fb = "mlvpn_freebuffer_reset (d_freebuf s1)" and ?b = "mlvpn_reorder_reset b"
  let ?s = "s1\<lparr>d_freebuf := ?fb, d_reorder := Some ?b, d_drain_active := False\<rparr>"
  have fb: "pool_ok ?fb" "fb_used ?fb = 0" "fb_used_head ?fb = []"
    using s1(3) fb_wf_reset by (auto simp: pool_ok_def mlvpn_freebuffer_reset_def)
  have inv: "ro_inv k (pool_seq ?fb) ?b" "\<not> ro_initialized ?b" by (rule reset_spec [OF assms(4)])+
  then have "some_of (window ?b) = []" by (simp add: ro_inv_def)
  then have "Some i \<notin> set (window ?b)" for i by (auto simp: filter_empty_conv)
  then have "ro_pool k ?b ?fb" using inv by (simp add: ro_pool_def)
  then have "rx_ok ?s" using s1(2) fb by (auto simp: rx_ok_def dev_ok_def)
  moreover have "mlvpn_rtun_reorder_drain False s = Ok ?s"
    using s1(1,5) assms(3) fb(2) by (simp add: mlvpn_rtun_reorder_drain_def reorder_reset_def stop_drain_if_empty_def)
  ultimately show ?thesis using s1 fb by (auto simp: tun_cap_def tun_queue_def)
qed

lemma rx_ok_stop:
  "rx_ok s \<Longrightarrow> rx_ok (stop_drain_if_empty s)" "core (stop_drain_if_empty s) = core s"
  "tun_queue (stop_drain_if_empty s) = tun_queue s" "tun_cap (stop_drain_if_empty s) = tun_cap s"
  "d_freebuf (stop_drain_if_empty s) = d_freebuf s" "d_reorder (stop_drain_if_empty s) = d_reorder s"
  by (auto simp: stop_drain_if_empty_def rx_ok_def dev_ok_def tun_queue_def tun_cap_def split: option.splits)

lemma drain_timeout_spec:
  assumes "rx_ok s" and "d_reorder s \<noteq> None"
  shows "\<exists>s'. mlvpn_rtun_reorder_drain_timeout s = Ok s' \<and> rx_ok s' \<and> core s' = core s \<and>
     fb_used_head (d_freebuf s') = [] \<and> d_reorder s' \<noteq> None \<and>
     tun_queue s' = lossy_app (tun_cap s) (tun_queue s)
       (map (\<lambda>i. pkt_payload (fb_pool (d_freebuf s) ! i)) (fb_used_head (d_freebuf s)))"
proof -
  obtain b k where b: "d_reorder s = Some b" "ro_pool k b (d_freebuf s)"
    using assms by (auto simp: rx_ok_def)
  then have "ro_wf k b" by (simp add: ro_pool_def ro_inv_def)
  from force_drain_spec [OF _ _ b(1) this] assms(1) obtain s' where
    "mlvpn_rtun_reorder_drain False s = Ok s'" "rx_ok s'" "core s' = core s" "fb_used_head (d_freebuf s') = []"
    "d_reorder s' \<noteq> None" "tun_queue s' = lossy_app (tun_cap s) (tun_queue s)
       (map (\<lambda>i. pkt_payload (fb_pool (d_freebuf s) ! i)) (fb_used_head (d_freebuf s)))"
    by (auto simp: rx_ok_def)
  then show ?thesis using rx_ok_stop [of s'] by (auto simp: mlvpn_rtun_reorder_drain_timeout_def)
qed

section \<open>An incoming packet\<close>

text \<open>The pool once the packet is stored in a fresh entry.\<close>

lemma store_fresh:
  assumes "pool_ok fb0" and "mlvpn_freebuffer_get fb0 = Some (i, fb1)" and "pkt_wf pkt" and "ro_pool k b fb0"
  defines "fb \<equiv> freebuffer_store fb1 i pkt"
  shows "pool_ok fb" and "ro_inv k (pool_seq fb) b" and "pool_seq fb i = pkt_seq pkt" and "fb_pool fb ! i = pkt"
    and "fb_used_head fb = fb_used_head fb0 @ [i]" and "i \<notin> set (fb_used_head fb0)"
    and "\<And>j. j \<noteq> i \<Longrightarrow> fb_pool fb ! j = fb_pool fb0 ! j"
proof -
  have wf: "fb_wf fb0" using assms(1) by (simp add: pool_ok_def)
  note get = freebuffer_get_Some [OF wf assms(2)]
  have i: "i < length (fb_pool fb1)" using get wf by (simp add: fb_wf_def)
  have "\<forall>p \<in> set ((fb_pool fb1)[i := pkt]). pkt_wf p"
    using assms(1,3) get(5) set_update_subset_insert [of "fb_pool fb1" i pkt] by (auto simp: pool_ok_def)
  then show "pool_ok fb"
    using assms(1) get fb_wf_store [of fb1 i pkt] by (simp add: pool_ok_def fb_def freebuffer_store_def)
  show "fb_pool fb ! i = pkt" using i by (simp add: fb_def freebuffer_store_def)
  then show "pool_seq fb i = pkt_seq pkt" by (simp add: pool_seq_def)
  show "fb_used_head fb = fb_used_head fb0 @ [i]" using get(3) by (simp add: fb_def freebuffer_store_def)
  show i0: "i \<notin> set (fb_used_head fb0)" by (rule get(2))
  show j: "fb_pool fb ! j = fb_pool fb0 ! j" if "j \<noteq> i" for j
    using that get(5) by (simp add: fb_def freebuffer_store_def)
  have "pool_seq fb j = pool_seq fb0 j" if "Some j \<in> set (window b)" for j
  proof -
    have "j \<noteq> i" using that assms(4) i0 by (auto simp: ro_pool_def)
    then show ?thesis using j by (simp add: pool_seq_def)
  qed
  then show "ro_inv k (pool_seq fb) b" using assms(4) by (auto simp: ro_pool_def intro: ro_inv_cong)
qed

text \<open>
  After the reorder buffer gave back the entries \<open>es\<close>: they are injected in that order, and the rest of the
  buffer still holds entries in use.
\<close>

lemma drain_ordered:
  assumes s: "dev_ok s" "pool_ok (d_freebuf s)" "d_reorder s = Some b"
    and d: "mlvpn_reorder_drain b 1024 = Ok (map Some es, b2)" "distinct es" "set es \<subseteq> set (fb_used_head (d_freebuf s))"
    and b2: "ro_inv k (pool_seq (d_freebuf s)) b2"
      "\<And>i. Some i \<in> set (window b2) \<Longrightarrow> i \<in> set (fb_used_head (d_freebuf s)) - set es"
  shows "\<exists>s'. mlvpn_rtun_reorder_drain True s = Ok s' \<and> rx_ok s' \<and> core s' = core s \<and> d_reorder s' = Some b2 \<and>
     tun_queue s' = lossy_app (tun_cap s) (tun_queue s) (map (\<lambda>i. pkt_payload (fb_pool (d_freebuf s) ! i)) es) \<and>
     tun_cap s' = tun_cap s \<and> fb_pool (d_freebuf s') = fb_pool (d_freebuf s) \<and>
     set (fb_used_head (d_freebuf s')) = set (fb_used_head (d_freebuf s)) - set es"
proof -
  let ?s = "s\<lparr>d_reorder := Some b2\<rparr>"
  have "dev_ok ?s" "tun_cap ?s = tun_cap s" "tun_queue ?s = tun_queue s"
    using s(1) by (simp_all add: dev_ok_def tun_cap_def tun_queue_def)
  with drain_list_spec [of ?s es] s d obtain s1 where
    s1: "ofold drain_one ?s (map Some es) = Ok s1" "dev_ok s1" "pool_ok (d_freebuf s1)" "core s1 = core s"
      "d_reorder s1 = Some b2" "fb_pool (d_freebuf s1) = fb_pool (d_freebuf s)"
      "set (fb_used_head (d_freebuf s1)) = set (fb_used_head (d_freebuf s)) - set es"
      "tun_queue s1 = lossy_app (tun_cap s) (tun_queue s) (map (\<lambda>i. pkt_payload (fb_pool (d_freebuf s) ! i)) es)"
      "tun_cap s1 = tun_cap s"
    by auto
  have "pool_seq (d_freebuf s1) = pool_seq (d_freebuf s)" using s1(6) by (simp add: pool_seq_def fun_eq_iff)
  then have "ro_pool k b2 (d_freebuf s1)" using b2 s1(7) by (auto simp: ro_pool_def)
  then have "rx_ok s1" using s1 by (auto simp: rx_ok_def)
  then show ?thesis
    using s1 d(1) s(3) rx_ok_stop [of s1] by (simp add: mlvpn_rtun_reorder_drain_def)
qed

text \<open>The two ends of the reordered path of \<^verbatim>\<open>mlvpn_rtun_recv_data\<close>: the packet was stored and the buffer drained, or it is out of range.\<close>

lemma recv_drained:
  assumes ok: "rx_ok s" and pkt: "pkt_wf p" "pkt_reorder p \<noteq> 0" and b: "d_reorder s = Some b" "ro_pool k b (d_freebuf s)"
    and get: "mlvpn_freebuffer_get (d_freebuf s) = Some (i, fb1)" and ins: "mlvpn_reorder_insert b i (pkt_seq p) = Ok (0, b1)"
    and dr: "mlvpn_reorder_drain b1 1024 = Ok (map Some es, b2)" and es: "distinct es" "set es \<subseteq> insert i (set (fb_used_head (d_freebuf s)))"
    and b2: "ro_inv k (pool_seq (freebuffer_store fb1 i p)) b2"
      "\<And>j. Some j \<in> set (window b2) \<Longrightarrow> j \<in> insert i (set (fb_used_head (d_freebuf s))) - set es"
  defines "fb \<equiv> freebuffer_store fb1 i p"
  shows "\<exists>s'. mlvpn_rtun_recv_data p s = Ok s' \<and> rx_ok s' \<and> core s' = core s \<and> tun_cap s' = tun_cap s \<and> d_reorder s' = Some b2 \<and>
     ro_pool k b2 (d_freebuf s') \<and> fb_pool (d_freebuf s') = fb_pool fb \<and>
     set (fb_used_head (d_freebuf s')) = insert i (set (fb_used_head (d_freebuf s))) - set es \<and>
     tun_queue s' = lossy_app (tun_cap s) (tun_queue s) (map (\<lambda>e. pkt_payload (fb_pool fb ! e)) es)"
proof -
  have fb0: "pool_ok (d_freebuf s)" "dev_ok s" using ok by (auto simp: rx_ok_def)
  note st = store_fresh [OF fb0(1) get pkt(1) b(2), folded fb_def]
  have used: "set (fb_used_head fb) = insert i (set (fb_used_head (d_freebuf s)))" using st(5) by simp
  let ?s1 = "s\<lparr>d_freebuf := fb, d_reorder := Some b1\<rparr>"
  have s1: "dev_ok ?s1" "tun_queue ?s1 = tun_queue s" "tun_cap ?s1 = tun_cap s"
    using fb0(2) by (simp_all add: dev_ok_def tun_queue_def tun_cap_def)
  obtain s2 where s2: "mlvpn_rtun_reorder_drain True ?s1 = Ok s2" "rx_ok s2" "core s2 = core ?s1" "d_reorder s2 = Some b2"
    "tun_queue s2 = lossy_app (tun_cap s) (tun_queue s) (map (\<lambda>e. pkt_payload (fb_pool fb ! e)) es)"
    "tun_cap s2 = tun_cap s" "fb_pool (d_freebuf s2) = fb_pool fb" "set (fb_used_head (d_freebuf s2)) = set (fb_used_head fb) - set es"
    using drain_ordered [OF s1(1) _ _ dr es(1), of k] st(1) es(2) b2 s1 used by (auto simp: fb_def)
  let ?s' = "if 0 < fb_used (d_freebuf s2) then drain_timer_again s2 else s2"
  have keep: "rx_ok ?s'" "core ?s' = core s" "d_reorder ?s' = Some b2" "tun_queue ?s' = tun_queue s2" "tun_cap ?s' = tun_cap s"
    "d_freebuf ?s' = d_freebuf s2"
    using s2(2-4,6) by (auto simp: drain_timer_again_def rx_ok_def dev_ok_def tun_queue_def tun_cap_def)
  have "pool_seq (d_freebuf s2) = pool_seq fb" using s2(7) by (simp add: pool_seq_def fun_eq_iff)
  then have "ro_pool k b2 (d_freebuf s2)" using b2 s2(8) used by (auto simp: ro_pool_def fb_def)
  moreover have "mlvpn_rtun_recv_data p s = Ok ?s'"
    using b(1) pkt(2) get ins s2(1) by (simp add: mlvpn_rtun_recv_data_def fb_def)
  ultimately show ?thesis using keep s2(5,7,8) used by (intro exI [of _ ?s']) (simp only: simp_thms)
qed

lemma recv_out_of_range:
  assumes ok: "rx_ok s" and pkt: "pkt_wf p" "pkt_reorder p \<noteq> 0" and b: "d_reorder s = Some b" "ro_pool k b (d_freebuf s)"
    and get: "mlvpn_freebuffer_get (d_freebuf s) = Some (i, fb1)" and ins: "mlvpn_reorder_insert b i (pkt_seq p) = Ok (- 2, b1)"
    and b1: "window b1 = window b" "ro_inv k (pool_seq (freebuffer_store fb1 i p)) b1"
  shows "\<exists>s'. mlvpn_rtun_recv_data p s = Ok s' \<and> rx_ok s' \<and> core s' = core s \<and> d_reorder s' = Some b1 \<and>
     tun_queue s' = lossy_app (tun_cap s) (tun_queue s) [pkt_payload p]"
proof -
  have fb0: "pool_ok (d_freebuf s)" "dev_ok s" using ok by (auto simp: rx_ok_def)
  define fb where "fb = freebuffer_store fb1 i p"
  note st = store_fresh [OF fb0(1) get pkt(1) b(2), folded fb_def]
  let ?s1 = "s\<lparr>d_freebuf := fb, d_reorder := Some b1\<rparr>"
  have s1: "dev_ok ?s1" "tun_queue ?s1 = tun_queue s" "tun_cap ?s1 = tun_cap s"
    using fb0(2) by (simp_all add: dev_ok_def tun_queue_def tun_cap_def)
  obtain s' where s': "mlvpn_rtun_inject_tuntap p ?s1 = Ok s'" "dev_ok s'" "core s' = core ?s1"
    "d_reorder s' = Some b1" "d_freebuf s' = fb" "tun_queue s' = lossy_app (tun_cap s) (tun_queue s) [pkt_payload p]"
    using inject_spec [OF pkt(1) s1(1)] s1 by auto
  have "ro_pool k b1 fb" using b1 b(2) st(5) by (auto simp: ro_pool_def fb_def)
  then have "rx_ok s'" using s' st(1) by (auto simp: rx_ok_def)
  moreover have "mlvpn_rtun_recv_data p s = Ok s'"
    using b(1) pkt(2) get ins s'(1) by (simp add: mlvpn_rtun_recv_data_def fb_def)
  ultimately show ?thesis using s' by simp
qed

text \<open>
  The packets \<open>out\<close> handed to the device are either those the window let go, in
  strictly increasing sequence order below the new start of the window, or the packet itself, out of range.
\<close>

lemma recv_data_reordered:
  assumes ok: "rx_ok s" and pkt: "pkt_wf inpkt" "pkt_reorder inpkt \<noteq> 0" and b: "d_reorder s = Some b"
    and get: "mlvpn_freebuffer_get (d_freebuf s) = Some (i, fb1)"
  shows "\<exists>s' b' out d. mlvpn_rtun_recv_data inpkt s = Ok s' \<and> rx_ok s' \<and> core s' = core s \<and> d_reorder s' = Some b' \<and>
     tun_queue s' = lossy_app (tun_cap s) (tun_queue s) (map pkt_payload out) \<and>
     (ro_min_seqn b' = first_seq b (pkt_seq inpkt) + of_nat d \<and>
        sorted_wrt (<) (map (\<lambda>p. unat (pkt_seq p - first_seq b (pkt_seq inpkt))) out) \<and>
        (\<forall>p \<in> set out. unat (pkt_seq p - first_seq b (pkt_seq inpkt)) < d) \<or>
      out = [inpkt] \<and> window b' = window b)"
proof -
  obtain k where k: "ro_pool k b (d_freebuf s)" using ok b by (auto simp: rx_ok_def)
  have fb0: "pool_ok (d_freebuf s)" using ok by (auto simp: rx_ok_def)
  define fb where "fb = freebuffer_store fb1 i inpkt"
  note st = store_fresh [OF fb0 get pkt(1) k, folded fb_def]
  let ?f = "\<lambda>q. unat (pool_seq fb q - first_seq b (pkt_seq inpkt))"
  have room: "length (some_of (window b)) < 1024" using window_fits [OF k fb0] by simp
  obtain r b1 out b2 d where ins: "mlvpn_reorder_insert b i (pkt_seq inpkt) = Ok (r, b1)"
    and dr: "mlvpn_reorder_drain b1 1024 = Ok (out, b2)" and inv: "ro_inv k (pool_seq fb) b2" and "None \<notin> set out"
    and min: "ro_min_seqn b2 = first_seq b (pkt_seq inpkt) + of_nat d"
    and sorted: "sorted_wrt (<) (map (\<lambda>e. ?f (the e)) out)" and less: "\<forall>e \<in> set out. ?f (the e) < d"
    and lab2: "lab ?f d (window b2)"
    and sub: "set out \<union> set (some_of (window b2)) \<subseteq> insert (Some i) (set (some_of (window b)))"
    and ret: "r = 0 \<or> r = - 2 \<and> window b1 = window b \<and> ro_inv k (pool_seq fb) b1"
    using insert_drain [OF st(2,3) room] by blast
  define es where "es = map the out"
  have out: "out = map Some es" using \<open>None \<notin> set out\<close> unfolding es_def by (induction out) auto
  show ?thesis
  proof (cases "r = - 2")
    case True
    obtain s' where "mlvpn_rtun_recv_data inpkt s = Ok s'" "rx_ok s'" "core s' = core s" "d_reorder s' = Some b1"
      "tun_queue s' = lossy_app (tun_cap s) (tun_queue s) [pkt_payload inpkt]"
      using recv_out_of_range [OF ok pkt b k get] ins ret True unfolding fb_def by auto
    then show ?thesis using True ret by (intro exI [of _ s'] exI [of _ b1] exI [of _ "[inpkt]"]) simp
  next
    case False
    let ?u = "insert i (set (fb_used_head (d_freebuf s)))"
    have win: "j \<in> ?u" if "Some j \<in> insert (Some i) (set (window b))" for j using that k by (auto simp: ro_pool_def)
    have es: "distinct es" "set es \<subseteq> ?u" using sorted_map_distinct [OF sorted] sub win unfolding out by (auto simp: distinct_map)
    have rest: "j \<in> ?u - set es" if j: "Some j \<in> set (window b2)" for j
    proof -
      have "Some j \<in> set (some_of (window b2))" using j by simp
      then have "d \<le> ?f j" "Some j \<in> insert (Some i) (set (window b))" using lab_some_of [OF lab2] sub by fastforce+
      then show ?thesis using less win unfolding out by auto
    qed
    have "mlvpn_reorder_insert b i (pkt_seq inpkt) = Ok (0, b1)" using ins ret False by simp
    from recv_drained [OF ok pkt b k get this dr [unfolded out] es inv [unfolded fb_def] rest, folded fb_def]
    obtain s' where s': "mlvpn_rtun_recv_data inpkt s = Ok s'" "rx_ok s'" "core s' = core s" "d_reorder s' = Some b2"
      "tun_queue s' = lossy_app (tun_cap s) (tun_queue s) (map (\<lambda>j. pkt_payload (fb_pool fb ! j)) es)" by blast
    then show ?thesis using min sorted less unfolding out
      by (intro exI [of _ s'] exI [of _ b2] exI [of _ "map (\<lambda>j. fb_pool fb ! j) es"] exI [of _ d]) (auto simp: comp_def pool_seq_def)
  qed
qed

lemma rx_ok_inject:
  assumes "rx_ok s" and "pkt_wf pkt"
  shows "\<exists>s'. mlvpn_rtun_inject_tuntap pkt s = Ok s' \<and> rx_ok s' \<and> core s' = core s"
proof -
  have "dev_ok s" using assms(1) by (simp add: rx_ok_def)
  from inject_spec [OF assms(2) this] obtain s' where
    "mlvpn_rtun_inject_tuntap pkt s = Ok s'" "dev_ok s'" "core s' = core s" "d_reorder s' = d_reorder s"
    "d_freebuf s' = d_freebuf s" "d_drain_active s' = d_drain_active s" by blast
  then show ?thesis using assms(1) by (auto simp: rx_ok_def split: option.splits)
qed

text \<open>
  The receive path never fails: with a reorder buffer whose size is a power of two (or none), whatever packet comes in, it is delivered,
  kept for reordering or delivered later without an access out of bounds, a NULL pointer or a pool entry
  released twice; the invariant that the reorder buffer only holds entries of the pool that are in use is kept, and
  nothing but the receive path changes.
\<close>

lemma recv_data_ok:
  assumes "rx_ok s" and "pkt_wf inpkt"
  shows "\<exists>s'. mlvpn_rtun_recv_data inpkt s = Ok s' \<and> rx_ok s' \<and> core s' = core s"
proof (cases "d_reorder s")
  case (Some b)
  show ?thesis
  proof (cases "pkt_reorder inpkt \<noteq> 0 \<and> mlvpn_freebuffer_get (d_freebuf s) \<noteq> None")
    case True
    then obtain i fb1 where "mlvpn_freebuffer_get (d_freebuf s) = Some (i, fb1)" by auto
    from recv_data_reordered [OF assms _ Some this] True show ?thesis by blast
  next
    case False
    then have "mlvpn_rtun_recv_data inpkt s = mlvpn_rtun_inject_tuntap inpkt s"
      using Some by (cases "mlvpn_freebuffer_get (d_freebuf s)") (auto simp: mlvpn_rtun_recv_data_def)
    then show ?thesis using rx_ok_inject [OF assms] by simp
  qed
next
  case None
  then have "mlvpn_rtun_recv_data inpkt s = mlvpn_rtun_inject_tuntap inpkt s" by (simp add: mlvpn_rtun_recv_data_def)
  then show ?thesis using rx_ok_inject [OF assms] by simp
qed

lemma drain_and_reset_ok:
  assumes "rx_ok s"
  shows "\<exists>s'. drain_and_reset s = Ok s' \<and> rx_ok s' \<and> core s' = core s"
proof (cases "d_reorder s")
  case None
  then show ?thesis using assms by (simp add: drain_and_reset_def)
next
  case (Some b)
  then obtain k where k: "ro_pool k b (d_freebuf s)" using assms by (auto simp: rx_ok_def)
  then have wf: "ro_wf k b" by (simp add: ro_pool_def ro_inv_def)
  obtain s1 where s1: "mlvpn_rtun_reorder_drain False s = Ok s1" "rx_ok s1" "core s1 = core s"
    "d_reorder s1 = Some (mlvpn_reorder_reset b)" "fb_used_head (d_freebuf s1) = []" "\<not> d_drain_active s1"
    using force_drain_spec [OF _ _ Some wf] assms by (auto simp: rx_ok_def)
  let ?b = "mlvpn_reorder_reset (mlvpn_reorder_reset b)"
  have "ro_wf k (mlvpn_reorder_reset b)" using reset_spec(1) [OF wf, of undefined] by (simp add: ro_inv_def)
  then have r: "ro_inv k (pool_seq (d_freebuf s1)) ?b" "\<not> ro_initialized ?b" by (rule reset_spec)+
  then have "some_of (window ?b) = []" by (simp add: ro_inv_def)
  then have "Some i \<notin> set (window ?b)" for i by (auto simp: filter_empty_conv)
  then have "ro_pool k ?b (d_freebuf s1)" using r by (simp add: ro_pool_def)
  then have "rx_ok (s1\<lparr>d_reorder := Some ?b\<rparr>)" using s1(2) by (auto simp: rx_ok_def dev_ok_def)
  then show ?thesis using Some s1 by (simp add: drain_and_reset_def reorder_reset_def)
qed

section \<open>Properties\<close>

definition ex_daemon :: "mlvpn_reorder_buffer option \<Rightarrow> daemon" where
  "ex_daemon r = \<lparr>d_tunnels = (\<lambda>_. tunnel_zero), d_rtuns = [], d_next = 0, d_wrr = wrr_init, d_filters = [],
     d_options = mlvpn_options_init, d_status = mlvpn_status_init, d_key = crypto_key_init, d_data_seq = 0,
     d_reorder = r, d_freebuf = mlvpn_freebuffer_init 512, d_drain_active = False, d_drain_repeat = 0,
     d_devname = ''mlvpn0'', d_maxmtu = 1444, d_tun_sbuf = mlvpn_pktbuffer_init 1024, d_tun_io_write = False,
     d_process_title = None, d_title = '''', d_out = []\<rparr>"

lemma ex_daemon_ok:
  "\<exists>b. mlvpn_reorder_create 8 = Some b \<and> rx_ok (ex_daemon (Some b))"
proof -
  let ?fb = "mlvpn_freebuffer_init 512"
  obtain b where b: "mlvpn_reorder_create (2 ^ 3) = Some b" "ro_inv 3 (pool_seq ?fb) b" "\<not> ro_initialized b"
    using create_spec [of 3] by auto
  then have "some_of (window b) = []" by (simp add: ro_inv_def)
  then have "Some i \<notin> set (window b)" for i by (auto simp: filter_empty_conv)
  then have "ro_pool 3 b ?fb" using b by (simp add: ro_pool_def)
  moreover have "pool_ok ?fb" by (auto simp: pool_ok_def) (simp add: mlvpn_freebuffer_init_def)
  ultimately have "rx_ok (ex_daemon (Some b))" by (auto simp: rx_ok_def ex_daemon_def dev_ok_def)
  then show ?thesis using b(1) by auto
qed

lemma ex_late_buffer:
  "\<exists>b. rx_ok (ex_daemon (Some b)) \<and> ro_initialized b \<and> ro_min_seqn b = 100 \<and> cir_size (ro_order b) = 8"
proof -
  let ?fb = "mlvpn_freebuffer_init 512"
  obtain b0 where b0: "mlvpn_reorder_create 8 = Some b0" "rx_ok (ex_daemon (Some b0))" using ex_daemon_ok by blast
  obtain b1 where b1: "mlvpn_reorder_create (2 ^ 3) = Some b1" "ro_inv 3 (pool_seq ?fb) b1" "\<not> ro_initialized b1"
    using create_spec [of 3] by auto
  then have empty: "some_of (window b1) = []" by (simp add: ro_inv_def)
  then have no: "Some i \<notin> set (window b1)" for i by (auto simp: filter_empty_conv)
  let ?b = "b1\<lparr>ro_min_seqn := 100, ro_initialized := True\<rparr>"
  have "window b1 ! i \<noteq> Some q" if "i < length (window b1)" for i q using no [of q] nth_mem [OF that] by auto
  then have "labelled (pool_seq ?fb) ?b" by (simp add: labelled_def lab_def)
  then have "ro_pool 3 ?b ?fb" using b1(2) no by (simp add: ro_pool_def ro_inv_def ro_drained_def)
  then have "rx_ok (ex_daemon (Some ?b))" using b0(2) by (auto simp: rx_ok_def ex_daemon_def dev_ok_def)
  moreover have "cir_size (ro_order ?b) = 8" using b1(2) by (simp add: ro_inv_def ro_wf_def cir_wf_def)
  ultimately show ?thesis by (intro exI [of _ ?b]) simp
qed



text \<open>
  C38: A packet that is out of the range of the reorder buffer is delivered twice: at once, and again, since its pool entry stays in use,
  by the next forced drain, after everything that was waiting.
\<close>

theorem out_of_range_delivered_twice:
  assumes "rx_ok s" and "pkt_wf inpkt" and "pkt_reorder inpkt \<noteq> 0" and "d_reorder s = Some b"
    and "mlvpn_freebuffer_get (d_freebuf s) = Some (i, fb1)"
    and "mlvpn_reorder_insert b i (pkt_seq inpkt) = Ok (- 2, b1)"
  shows "\<exists>s1 s2. mlvpn_rtun_recv_data inpkt s = Ok s1 \<and> mlvpn_rtun_reorder_drain_timeout s1 = Ok s2 \<and>
     tun_queue s2 = lossy_app (tun_cap s) (tun_queue s) (pkt_payload inpkt #
       map (\<lambda>j. pkt_payload (fb_pool (d_freebuf s) ! j)) (fb_used_head (d_freebuf s)) @ [pkt_payload inpkt])"
proof -
  obtain k where k: "ro_pool k b (d_freebuf s)" using assms(1,4) by (auto simp: rx_ok_def)
  have ok: "pool_ok (d_freebuf s)" "dev_ok s" using assms(1) by (auto simp: rx_ok_def)
  define fb where "fb = freebuffer_store fb1 i inpkt"
  note st = store_fresh [OF ok(1) assms(5,2) k, folded fb_def]
  let ?s = "s\<lparr>d_freebuf := fb, d_reorder := Some b1\<rparr>"
  have "dev_ok ?s" using ok(2) by (simp add: dev_ok_def)
  from inject_spec [OF assms(2) this] obtain s1 where
    s1: "mlvpn_rtun_inject_tuntap inpkt ?s = Ok s1" "d_reorder s1 = Some b1" "d_freebuf s1 = fb" "tun_cap s1 = tun_cap s"
      "tun_queue s1 = lossy_app (tun_cap s) (tun_queue s) [pkt_payload inpkt]"
    by (auto simp: tun_cap_def tun_queue_def)
  have r: "mlvpn_rtun_recv_data inpkt s = Ok s1"
    using assms(3-6) s1(1) by (simp add: mlvpn_rtun_recv_data_def fb_def)
  then have "rx_ok s1" using recv_data_ok [OF assms(1,2)] by simp
  then obtain s2 where s2: "mlvpn_rtun_reorder_drain_timeout s1 = Ok s2"
    "tun_queue s2 = lossy_app (tun_cap s) (tun_queue s1) (map (\<lambda>j. pkt_payload (fb_pool fb ! j)) (fb_used_head fb))"
    using drain_timeout_spec [of s1] s1 by auto
  have "map (\<lambda>j. pkt_payload (fb_pool fb ! j)) (fb_used_head fb) =
      map (\<lambda>j. pkt_payload (fb_pool (d_freebuf s) ! j)) (fb_used_head (d_freebuf s)) @ [pkt_payload inpkt]"
    using st(4-7) by (auto intro!: map_cong) (metis)
  then show ?thesis
    using r s2 s1(5) lossy_app_app [OF tun_queue_cap [OF ok(2)], of "[pkt_payload inpkt]"] by auto
qed

theorem out_of_range_delivered_twice_witness:
  "\<exists>b s1 s2. mlvpn_rtun_recv_data (pkt_zero\<lparr>pkt_reorder := 1, pkt_seq := 5, pkt_len := 1\<rparr>) (ex_daemon (Some b)) = Ok s1 \<and>
     mlvpn_rtun_reorder_drain_timeout s1 = Ok s2 \<and> tun_queue s2 = [[0], [0]]"
proof -
  let ?p = "pkt_zero\<lparr>pkt_reorder := 1, pkt_seq := 5, pkt_len := 1\<rparr>"
  obtain b where b: "rx_ok (ex_daemon (Some b))" "ro_initialized b" "ro_min_seqn b = 100" "cir_size (ro_order b) = 8"
    using ex_late_buffer by blast
  have p: "pkt_wf ?p" "pkt_payload ?p = [0]" by (simp_all add: pkt_wf_def pkt_zero_def pkt_payload_def)
  obtain i fb1 where get: "mlvpn_freebuffer_get (d_freebuf (ex_daemon (Some b))) = Some (i, fb1)"
    using freebuffer_get_None_iff [OF fb_wf_init, of 512] by (fastforce simp: ex_daemon_def)
  have "mlvpn_reorder_insert b i (pkt_seq ?p) = Ok (- 2, b)"
    using b by (simp add: mlvpn_reorder_insert_def)
  moreover have "d_reorder (ex_daemon (Some b)) = Some b" "tun_queue (ex_daemon (Some b)) = []"
    "tun_cap (ex_daemon (Some b)) = 1024" "fb_used_head (d_freebuf (ex_daemon (Some b))) = []"
    by (simp_all add: ex_daemon_def tun_queue_def tun_cap_def)
  ultimately obtain s1 s2 where "mlvpn_rtun_recv_data ?p (ex_daemon (Some b)) = Ok s1"
    "mlvpn_rtun_reorder_drain_timeout s1 = Ok s2" "tun_queue s2 = lossy_app 1024 [] [[0], [0]]"
    using out_of_range_delivered_twice [OF b(1) p(1) _ _ get, of b b] p(2) by auto
  then show ?thesis by (auto simp: lossy_app_def)
qed

end
