(* ===== verification/Events.thy ===== *)
theory Events
  imports Rtun Delivery
begin

text \<open>
  The daemon as a state machine: the events libev delivers, the handler each of them runs, and the invariant of the reachable states. Main
  results: no handler can fail in a reachable state, data only leaves through authenticated tunnels, and a
  tunnel becomes authenticated only through a packet opened with the shared key.
\<close>

section \<open>Invariant\<close>

text \<open>
  A tunnel of the list: its buffers are well-formed, its name fits the process title, and as long as it has no peer address nothing is queued
  on it and no watcher but its timer is active.
\<close>

definition idle :: "mlvpn_tunnel_t \<Rightarrow> bool" where
  "idle t \<longleftrightarrow> t_fd t < 0 \<and> \<not> t_io_read t \<and> \<not> t_io_write t \<and> mlvpn_cb_is_empty (t_sbuf t) \<and>
     mlvpn_cb_is_empty (t_hpsbuf t) \<and> t_status t = MLVPN_DISCONNECTED"

definition tun_ok :: "mlvpn_tunnel_t \<Rightarrow> bool" where
  "tun_ok t \<longleftrightarrow> buf_ok (t_sbuf t) \<and> buf_ok (t_hpsbuf t) \<and> (\<exists>n. t_name t = Some n \<and> length n < 30) \<and>
     (t_addrinfo t = [] \<longrightarrow> idle t)"

definition base_ok :: "daemon \<Rightarrow> bool" where
  "base_ok s \<longleftrightarrow> rx_ok s \<and> distinct (d_rtuns s) \<and> length (d_rtuns s) \<le> MAX_TUNNELS \<and>
     (\<forall>i \<in> set (d_rtuns s). i < d_next s \<and> tun_ok (tun s i)) \<and>
     (\<forall>x \<in> set (d_filters s). snd x \<in> set (d_rtuns s)) \<and> d_maxmtu s \<le> DEFAULT_MTU"

text \<open>The scheduler only holds authenticated tunnels of the list.\<close>

definition wrr_inv :: "daemon \<Rightarrow> bool" where
  "wrr_inv s \<longleftrightarrow> wrr_wf (d_wrr s) \<and>
     (\<forall>i \<in> set (wrr_tunnel (d_wrr s)). i \<in> set (d_rtuns s) \<and> authenticated (tun s i))"

definition dinv :: "daemon \<Rightarrow> bool" where
  "dinv s \<longleftrightarrow> base_ok s \<and> wrr_inv s"

text \<open>What no handler of an event touches: the names and limits of the tunnels, the list of tunnels, filters, options and key.\<close>

definition ident :: "mlvpn_tunnel_t \<Rightarrow> string option \<times> u32 \<times> u32 \<times> u32" where
  "ident t = (t_name t, t_timeout t, t_loss_tolerence t, t_latency_tolerence t)"

lemma ident_update [simp]:
  "ident (t\<lparr>t_status := a\<rparr>) = ident t" "ident (t\<lparr>t_sbuf := b\<rparr>) = ident t" "ident (t\<lparr>t_hpsbuf := b\<rparr>) = ident t"
  "ident (t\<lparr>t_io_write := c\<rparr>) = ident t" "ident (t\<lparr>t_io_read := c\<rparr>) = ident t" "ident (t\<lparr>t_io_timeout := c\<rparr>) = ident t"
  "ident (t\<lparr>t_addrinfo := d\<rparr>) = ident t" "ident (t\<lparr>t_fd := e\<rparr>) = ident t" "ident (t\<lparr>t_last_activity := f\<rparr>) = ident t"
  "ident (t\<lparr>t_next_keepalive := f\<rparr>) = ident t" "ident (t\<lparr>t_last_keepalive_ack := f\<rparr>) = ident t"
  "ident (t\<lparr>t_last_keepalive_ack_sent := f\<rparr>) = ident t" "ident (t\<lparr>t_disconnects := g\<rparr>) = ident t"
  "ident (t\<lparr>t_conn_attempts := h\<rparr>) = ident t" "ident (t\<lparr>t_last_connection_attempt := f\<rparr>) = ident t"
  "ident (t\<lparr>t_sentpackets := i\<rparr>) = ident t" "ident (t\<lparr>t_sentbytes := i\<rparr>) = ident t" "ident (t\<lparr>t_recvpackets := i\<rparr>) = ident t"
  "ident (t\<lparr>t_recvbytes := i\<rparr>) = ident t" "ident (t\<lparr>t_io_timeout_repeat := f\<rparr>) = ident t" "ident (t\<lparr>t_weight := f\<rparr>) = ident t"
  "ident (t\<lparr>t_seq := w\<rparr>) = ident t" "ident (t\<lparr>t_saved_timestamp := k\<rparr>) = ident t" "ident (t\<lparr>t_saved_timestamp_received_at := w\<rparr>) = ident t"
  "ident (t\<lparr>t_seq_vect := w\<rparr>) = ident t" "ident (t\<lparr>t_seq_last := w\<rparr>) = ident t" "ident (t\<lparr>t_srtt := f\<rparr>) = ident t"
  "ident (t\<lparr>t_rttvar := f\<rparr>) = ident t" "ident (t\<lparr>t_rtt_hit := l\<rparr>) = ident t" "ident (set_buf hp b t) = ident t"
  by (simp_all add: ident_def set_buf_def)

definition same_net :: "daemon \<Rightarrow> daemon \<Rightarrow> bool" where
  "same_net s s' \<longleftrightarrow> (\<forall>j. ident (tun s' j) = ident (tun s j)) \<and> d_rtuns s' = d_rtuns s \<and> d_next s' = d_next s \<and> d_filters s' = d_filters s \<and>
     d_options s' = d_options s \<and> d_key s' = d_key s \<and> d_maxmtu s' = d_maxmtu s"

lemma same_net_refl [simp]: "same_net s s"
  by (simp add: same_net_def)

lemma same_net_trans [trans]: "same_net a b \<Longrightarrow> same_net b c \<Longrightarrow> same_net a c"
  by (simp add: same_net_def)

lemma upd_fields [simp]:
  "d_tunnels (upd i f s) = (d_tunnels s)(i := f (tun s i))"
  "d_rtuns (upd i f s) = d_rtuns s" "d_wrr (upd i f s) = d_wrr s" "d_options (upd i f s) = d_options s"
  "d_status (upd i f s) = d_status s" "d_key (upd i f s) = d_key s" "d_devname (upd i f s) = d_devname s"
  "d_process_title (upd i f s) = d_process_title s" "d_filters (upd i f s) = d_filters s"
  "d_next (upd i f s) = d_next s" "d_maxmtu (upd i f s) = d_maxmtu s" "d_reorder (upd i f s) = d_reorder s"
  "d_data_seq (upd i f s) = d_data_seq s" "d_out (upd i f s) = d_out s"
  by (simp_all add: upd_def)

lemma same_net_upd [simp]: "same_net s (upd i f s) \<longleftrightarrow> ident (f (tun s i)) = ident (tun s i)"
  by (auto simp: same_net_def)

lemma rx_ok_frame [simp, frame]:
  "rx_ok (upd i f s) = rx_ok s" "rx_ok (emit e s) = rx_ok s" "rx_ok (s\<lparr>d_status := a\<rparr>) = rx_ok s"
  "rx_ok (s\<lparr>d_wrr := w\<rparr>) = rx_ok s" "rx_ok (s\<lparr>d_title := t\<rparr>) = rx_ok s" "rx_ok (s\<lparr>d_data_seq := q\<rparr>) = rx_ok s"
  "rx_ok (s\<lparr>d_drain_repeat := r\<rparr>) = rx_ok s" "rx_ok (s\<lparr>d_rtuns := l\<rparr>) = rx_ok s" "rx_ok (s\<lparr>d_next := n\<rparr>) = rx_ok s"
  "rx_ok (s\<lparr>d_filters := h\<rparr>) = rx_ok s"
  by (simp_all add: rx_ok_def dev_ok_def upd_def emit_def cong: option.case_cong)

lemma emit_fields [simp]:
  "d_tunnels (emit e s) = d_tunnels s" "same_net s (emit e s)" "d_rtuns (emit e s) = d_rtuns s"
  "d_wrr (emit e s) = d_wrr s" "d_next (emit e s) = d_next s" "d_filters (emit e s) = d_filters s"
  "d_maxmtu (emit e s) = d_maxmtu s" "d_status (emit e s) = d_status s" "d_out (emit e s) = d_out s @ [e]"
  "d_options (emit e s) = d_options s" "d_key (emit e s) = d_key s" "d_data_seq (emit e s) = d_data_seq s"
  by (simp_all add: emit_def same_net_def)

lemma tun_queue_frame [simp, frame]:
  "tun_queue (upd i f s) = tun_queue s" "tun_queue (emit e s) = tun_queue s" "tun_queue (s\<lparr>d_status := a\<rparr>) = tun_queue s"
  "tun_queue (s\<lparr>d_wrr := w\<rparr>) = tun_queue s" "tun_queue (s\<lparr>d_title := t\<rparr>) = tun_queue s"
  by (simp_all add: tun_queue_def upd_def emit_def)

lemma base_ok_upd:
  assumes "base_ok s" and "i \<in> set (d_rtuns s) \<Longrightarrow> tun_ok (f (tun s i))"
  shows "base_ok (upd i f s)"
  using assms by (auto simp: base_ok_def)

lemma wrr_inv_upd:
  assumes "wrr_inv s" and "authenticated (tun s i) \<Longrightarrow> authenticated (f (tun s i))"
  shows "wrr_inv (upd i f s)"
  using assms by (auto simp: wrr_inv_def)

lemma inv_upd:
  assumes "dinv s" and "i \<in> set (d_rtuns s) \<Longrightarrow> tun_ok (f (tun s i))"
    and "authenticated (tun s i) \<Longrightarrow> authenticated (f (tun s i))"
  shows "dinv (upd i f s)"
  using assms by (simp add: dinv_def base_ok_upd wrr_inv_upd)

text \<open>Changes outside of what the invariant speaks about.\<close>

lemma inv_frame [simp, frame]:
  "dinv (emit e s) = dinv s" "dinv (s\<lparr>d_status := a\<rparr>) = dinv s" "dinv (s\<lparr>d_title := t\<rparr>) = dinv s"
  "dinv (s\<lparr>d_data_seq := q\<rparr>) = dinv s" "dinv (s\<lparr>d_drain_repeat := r\<rparr>) = dinv s"
  by (simp_all add: dinv_def base_ok_def wrr_inv_def)

lemma base_frame [simp, frame]:
  "base_ok (emit e s) = base_ok s" "base_ok (s\<lparr>d_status := a\<rparr>) = base_ok s" "base_ok (s\<lparr>d_title := t\<rparr>) = base_ok s"
  "base_ok (s\<lparr>d_wrr := w\<rparr>) = base_ok s"
  by (simp_all add: base_ok_def)

lemma inv_core:
  assumes "dinv s" and "rx_ok s'" and "core s' = core s"
  shows "dinv s'"
  using assms(1,2) core_fields [OF assms(3)] by (simp add: dinv_def base_ok_def wrr_inv_def)

lemma same_net_core: "core s' = core s \<Longrightarrow> same_net s s'"
  using core_fields [of s' s] by (simp add: same_net_def)

section \<open>Status changes\<close>

lemma title_part_ok: "tun_ok t \<Longrightarrow> \<exists>p. title_part t = Ok p"
  by (auto simp: tun_ok_def title_part_def Let_def)

lemma update_process_title_ok:
  assumes "base_ok s"
  shows "\<exists>x. update_process_title s = Ok (s\<lparr>d_title := x\<rparr>)"
proof (cases "d_process_title s")
  case None
  then show ?thesis by (intro exI [of _ "d_title s"]) (simp add: update_process_title_def)
next
  case (Some pt)
  have "\<exists>x. ofold (\<lambda>title i. obind (title_part (tun s i)) (\<lambda>part. Ok (fit 1024 (title @ part)))) a is = Ok x"
    if "set is \<subseteq> set (d_rtuns s)" for a "is"
    using that
  proof (induction "is" arbitrary: a)
    case (Cons i "is")
    then have "tun_ok (tun s i)" using assms by (auto simp: base_ok_def)
    with title_part_ok obtain p where "title_part (tun s i) = Ok p" by blast
    then show ?case using Cons by auto
  qed simp
  from this [of "d_rtuns s" "fit 1024 pt"] obtain x where
    "ofold (\<lambda>title i. obind (title_part (tun s i)) (\<lambda>part. Ok (fit 1024 (title @ part)))) (fit 1024 pt) (d_rtuns s) = Ok x"
    by auto
  then show ?thesis using Some by (auto simp: update_process_title_def)
qed

lemma wrr_reset_ok:
  assumes "base_ok s"
  shows "\<exists>w. wrr_reset s = Ok (s\<lparr>d_wrr := w\<rparr>) \<and> dinv (s\<lparr>d_wrr := w\<rparr>)"
proof -
  have "length (d_rtuns s) \<le> MAX_TUNNELS" using assms by (simp add: base_ok_def)
  from wrr_reset_few [OF this] obtain w where
    w: "mlvpn_rtun_wrr_reset (d_tunnels s) (d_rtuns s) (st_fallback_mode (d_status s)) = Ok w" by blast
  have "wrr_inv (s\<lparr>d_wrr := w\<rparr>)"
    using wrr_reset_wf [OF w] wrr_reset_Ok(1) [OF w] wrr_eligible_authenticated by (auto simp: wrr_inv_def)
  then show ?thesis using w assms by (auto simp: wrr_reset_def dinv_def)
qed

lemma update_status_fields [simp]:
  "d_tunnels (mlvpn_update_status s) = d_tunnels s" "same_net s (mlvpn_update_status s)"
  "d_rtuns (mlvpn_update_status s) = d_rtuns s" "base_ok (mlvpn_update_status s) = base_ok s"
  "dinv (mlvpn_update_status s) = dinv s" "tun_queue (mlvpn_update_status s) = tun_queue s"
  "d_data_seq (mlvpn_update_status s) = d_data_seq s" "d_next (mlvpn_update_status s) = d_next s"
  "d_filters (mlvpn_update_status s) = d_filters s" "d_options (mlvpn_update_status s) = d_options s"
  "d_key (mlvpn_update_status s) = d_key s" "d_maxmtu (mlvpn_update_status s) = d_maxmtu s"
  "wrr_inv (mlvpn_update_status s) = wrr_inv s"
  by (simp_all add: mlvpn_update_status_def same_net_def wrr_inv_def)

lemma run_rtun_script_ok:
  assumes "base_ok s" and "i \<in> set (d_rtuns s)"
  shows "\<exists>e. run_rtun_script what i s = Ok (emit e s)"
proof -
  obtain n where "t_name (tun s i) = Some n" using assms by (auto simp: base_ok_def tun_ok_def)
  then show ?thesis by (auto simp: run_rtun_script_def)
qed

lemma drain_and_reset_inv:
  assumes "dinv s"
  shows "\<exists>s'. drain_and_reset s = Ok s' \<and> dinv s' \<and> same_net s s' \<and> d_tunnels s' = d_tunnels s"
proof -
  have "rx_ok s" using assms by (simp add: dinv_def base_ok_def)
  from drain_and_reset_ok [OF this] obtain s' where "drain_and_reset s = Ok s'" "rx_ok s'" "core s' = core s" by blast
  then show ?thesis using inv_core [OF assms] same_net_core core_fields(1) by blast
qed

lemma title_inv:
  assumes "dinv s"
  shows "\<exists>s'. update_process_title s = Ok s' \<and> dinv s' \<and> same_net s s' \<and> d_tunnels s' = d_tunnels s"
proof -
  have "base_ok s" using assms by (simp add: dinv_def)
  from update_process_title_ok [OF this] obtain x where "update_process_title s = Ok (s\<lparr>d_title := x\<rparr>)" by blast
  then show ?thesis using assms by (auto simp: same_net_def)
qed

text \<open>The tunnel after \<^verbatim>\<open>mlvpn_rtun_status_up\<close> and after \<^verbatim>\<open>mlvpn_rtun_status_down\<close>.\<close>

definition went_up :: "env \<Rightarrow> mlvpn_tunnel_t \<Rightarrow> mlvpn_tunnel_t" where
  "went_up E t = t\<lparr>t_status := MLVPN_AUTHOK, t_next_keepalive := en_now E + 1, t_last_activity := en_now E,
     t_last_keepalive_ack := en_now E, t_last_keepalive_ack_sent := en_now E\<rparr>"

definition went_down :: "mlvpn_tunnel_t \<Rightarrow> mlvpn_tunnel_t" where
  "went_down t = t\<lparr>t_status := MLVPN_DISCONNECTED, t_disconnects := t_disconnects t + 1,
     t_sbuf := mlvpn_pktbuffer_reset (t_sbuf t), t_hpsbuf := mlvpn_pktbuffer_reset (t_hpsbuf t), t_io_write := False\<rparr>"

lemma ident_went [simp]: "ident (went_up E t) = ident t" "ident (went_down t) = ident t"
  by (simp_all add: went_up_def went_down_def)

lemma went_up_fun:
  "(\<lambda>t. t\<lparr>t_status := MLVPN_AUTHOK, t_next_keepalive := en_now E + 1, t_last_activity := en_now E,
     t_last_keepalive_ack := en_now E, t_last_keepalive_ack_sent := en_now E\<rparr>) = went_up E"
  by (rule ext) (simp add: went_up_def)

lemma went_down_fun:
  "(\<lambda>t. t\<lparr>t_status := MLVPN_DISCONNECTED, t_disconnects := t_disconnects t + 1,
     t_sbuf := mlvpn_pktbuffer_reset (t_sbuf t), t_hpsbuf := mlvpn_pktbuffer_reset (t_hpsbuf t), t_io_write := False\<rparr>) = went_down"
  by (rule ext) (simp add: went_down_def)

lemma went_down_ok: "tun_ok t \<Longrightarrow> tun_ok (went_down t)"
  by (auto simp: tun_ok_def went_down_def idle_def)

lemma went_up_ok: "tun_ok t \<Longrightarrow> t_addrinfo t \<noteq> [] \<Longrightarrow> tun_ok (went_up E t)"
  by (auto simp: tun_ok_def went_up_def)

lemma status_up_ok:
  assumes "dinv s" and "i \<in> set (d_rtuns s)" and "t_addrinfo (tun s i) \<noteq> []"
  shows "\<exists>s'. mlvpn_rtun_status_up E i s = Ok s' \<and> dinv s' \<and> same_net s s' \<and>
     d_tunnels s' = (d_tunnels s)(i := went_up E (tun s i))"
proof -
  let ?s1 = "mlvpn_update_status (upd i (went_up E) s)"
  have "tun_ok (tun s i)" using assms(1,2) by (simp add: dinv_def base_ok_def)
  then have "dinv (upd i (went_up E) s)"
    using assms(1,3) by (intro inv_upd) (simp_all add: went_up_ok, simp add: authenticated_def went_up_def)
  then have base: "base_ok ?s1" by (simp add: dinv_def)
  obtain w where w: "wrr_reset ?s1 = Ok (?s1\<lparr>d_wrr := w\<rparr>)" "dinv (?s1\<lparr>d_wrr := w\<rparr>)"
    using wrr_reset_ok [OF base] by blast
  let ?s2 = "?s1\<lparr>d_wrr := w\<rparr>"
  obtain e where e: "run_rtun_script ''rtun_up'' i ?s2 = Ok (emit e ?s2)"
    using run_rtun_script_ok [of ?s2 i] w(2) assms(2) by (auto simp: dinv_def)
  let ?s3 = "emit e ?s2"
  let ?c = "0 < st_connected (d_status ?s3) \<and> st_initialized (d_status ?s3) = 0"
  let ?s4 = "(run_tun_script ''tuntap_up'' ?s3)\<lparr>d_status := (d_status ?s3)\<lparr>st_initialized := 1\<rparr>\<rparr>"
  have s3: "dinv ?s3" "same_net s ?s3" "d_tunnels ?s3 = (d_tunnels s)(i := went_up E (tun s i))"
    using w(2) by (simp_all add: same_net_def)
  have s4: "dinv ?s4" "same_net s ?s4" "d_tunnels ?s4 = (d_tunnels s)(i := went_up E (tun s i))"
    using s3 by (simp_all add: run_tun_script_def same_net_def)
  obtain s5 where s5: "(if ?c then drain_and_reset ?s4 else Ok ?s3) = Ok s5" "dinv s5" "same_net s s5"
    "d_tunnels s5 = (d_tunnels s)(i := went_up E (tun s i))"
  proof (cases ?c)
    case True
    obtain r where r: "drain_and_reset ?s4 = Ok r" "dinv r" "same_net ?s4 r" "d_tunnels r = d_tunnels ?s4"
      using drain_and_reset_inv [OF s4(1)] by blast
    show ?thesis
      by (rule that [OF _ r(2) same_net_trans [OF s4(2) r(3)]]) (simp_all only: r(1,4) s4(3) if_P [OF True])
  next
    case False
    show ?thesis by (rule that [OF _ s3]) (simp only: if_not_P [OF False])
  qed
  obtain s' where s': "update_process_title s5 = Ok s'" "dinv s'" "same_net s5 s'" "d_tunnels s' = d_tunnels s5"
    using title_inv [OF s5(2)] by blast
  have "mlvpn_rtun_status_up E i s = obind (if ?c then drain_and_reset ?s4 else Ok ?s3) update_process_title"
    by (simp only: mlvpn_rtun_status_up_def Let_def went_up_fun w(1) e obind.simps)
  then show ?thesis using s'(1,2,4) s5(4) same_net_trans [OF s5(3) s'(3)] by (simp only: s5(1) obind.simps) blast
qed

lemma wrr_inv_down:
  assumes "wrr_inv s" and "\<not> authenticated (tun s i)"
  shows "wrr_inv (upd i f s)"
  using assms by (auto simp: wrr_inv_def)

lemma status_down_ok:
  assumes "dinv s" and "i \<in> set (d_rtuns s)"
  shows "\<exists>s'. mlvpn_rtun_status_down i s = Ok s' \<and> dinv s' \<and> same_net s s' \<and>
     d_tunnels s' = (d_tunnels s)(i := went_down (tun s i))"
proof -
  let ?s1 = "mlvpn_update_status (upd i went_down s)"
  have "tun_ok (tun s i)" using assms by (simp add: dinv_def base_ok_def)
  then have base: "base_ok ?s1" using assms(1) by (simp add: dinv_def base_ok_upd went_down_ok)
  have t1: "same_net s ?s1" "d_tunnels ?s1 = (d_tunnels s)(i := went_down (tun s i))" by (simp_all add: same_net_def)
  obtain s2 where s2: "(if MLVPN_AUTHOK \<le> t_status (tun s i)
      then obind (run_rtun_script ''rtun_down'' i ?s1) (\<lambda>s2. obind (wrr_reset s2) (\<lambda>s3.
             drain_and_reset (if st_connected (d_status s3) = 0 \<and> st_initialized (d_status s3) = 1
               then (run_tun_script ''tuntap_down'' s3)\<lparr>d_status := (d_status s3)\<lparr>st_initialized := 0\<rparr>\<rparr> else s3)))
      else Ok ?s1) = Ok s2" "dinv s2" "same_net s s2" "d_tunnels s2 = (d_tunnels s)(i := went_down (tun s i))"
  proof (cases "MLVPN_AUTHOK \<le> t_status (tun s i)")
    case True
    obtain e where e: "run_rtun_script ''rtun_down'' i ?s1 = Ok (emit e ?s1)"
      using run_rtun_script_ok [OF base] assms(2) by auto
    obtain w where w: "wrr_reset (emit e ?s1) = Ok ((emit e ?s1)\<lparr>d_wrr := w\<rparr>)" "dinv ((emit e ?s1)\<lparr>d_wrr := w\<rparr>)"
      using wrr_reset_ok [of "emit e ?s1"] base by auto
    let ?s3 = "(emit e ?s1)\<lparr>d_wrr := w\<rparr>"
    let ?s4 = "if st_connected (d_status ?s3) = 0 \<and> st_initialized (d_status ?s3) = 1
       then (run_tun_script ''tuntap_down'' ?s3)\<lparr>d_status := (d_status ?s3)\<lparr>st_initialized := 0\<rparr>\<rparr> else ?s3"
    have s4: "dinv ?s4" "same_net s ?s4" "d_tunnels ?s4 = (d_tunnels s)(i := went_down (tun s i))"
      using w(2) by (auto simp: run_tun_script_def same_net_def)
    obtain s5 where "drain_and_reset ?s4 = Ok s5" "dinv s5" "same_net ?s4 s5" "d_tunnels s5 = d_tunnels ?s4"
      using drain_and_reset_inv [OF s4(1)] by blast
    then show ?thesis using that True e w s4 same_net_trans [OF s4(2)] by simp
  next
    case False
    then have "wrr_inv (upd i went_down s)"
      using assms(1) by (intro wrr_inv_down) (auto simp: dinv_def authenticated_def)
    then have "dinv ?s1" using base by (simp add: dinv_def)
    then show ?thesis using that False t1 by simp
  qed
  obtain s' where s': "update_process_title s2 = Ok s'" "dinv s'" "same_net s2 s'" "d_tunnels s' = d_tunnels s2"
    using title_inv [OF s2(2)] by blast
  have "mlvpn_rtun_status_down i s = obind (Ok s2) update_process_title"
    by (simp only: mlvpn_rtun_status_down_def Let_def went_down_fun s2(1))
  then show ?thesis using s'(1,2,4) s2(4) same_net_trans [OF s2(3) s'(3)] by (simp only: obind.simps) blast
qed

section \<open>One handler\<close>

text \<open>
  What is shown of every handler that works on one tunnel: it ends without an error, keeps the invariant, leaves the other
  tunnels alone, and does not authenticate the tunnel unless \<open>up\<close> holds.
\<close>

definition runs :: "bool \<Rightarrow> nat \<Rightarrow> daemon \<Rightarrow> daemon outcome \<Rightarrow> bool" where
  "runs up i s r \<longleftrightarrow> (\<exists>s'. r = Ok s' \<and> dinv s' \<and> same_net s s' \<and> (\<forall>j. j \<noteq> i \<longrightarrow> tun s' j = tun s j) \<and>
     (up \<or> (authenticated (tun s' i) \<longrightarrow> authenticated (tun s i))))"

lemma runs_Ok: "dinv s \<Longrightarrow> runs up i s (Ok s)"
  by (simp add: runs_def)

lemma runs_weaken: "runs False i s r \<Longrightarrow> runs up i s r"
  by (auto simp: runs_def)

lemma runs_if: "(c \<Longrightarrow> runs up i s a) \<Longrightarrow> (\<not> c \<Longrightarrow> runs up i s b) \<Longrightarrow> runs up i s (if c then a else b)"
  by simp

lemma runs_bind:
  assumes "runs up i s r"
    and "\<And>s'. r = Ok s' \<Longrightarrow> dinv s' \<Longrightarrow> same_net s s' \<Longrightarrow> runs up i s' (f s')"
  shows "runs up i s (obind r f)"
proof -
  from assms(1) obtain s' where s': "r = Ok s'" "dinv s'" "same_net s s'" "\<forall>j. j \<noteq> i \<longrightarrow> tun s' j = tun s j"
    "up \<or> (authenticated (tun s' i) \<longrightarrow> authenticated (tun s i))" unfolding runs_def by blast
  from assms(2) [OF s'(1-3)] obtain s'' where s'': "f s' = Ok s''" "dinv s''" "same_net s' s''"
    "\<forall>j. j \<noteq> i \<longrightarrow> tun s'' j = tun s' j" "up \<or> (authenticated (tun s'' i) \<longrightarrow> authenticated (tun s' i))"
    unfolding runs_def by blast
  have "obind r f = Ok s''" "\<forall>j. j \<noteq> i \<longrightarrow> tun s'' j = tun s j"
    "up \<or> (authenticated (tun s'' i) \<longrightarrow> authenticated (tun s i))"
    using s'(1,4,5) s''(1,4,5) by (simp, simp, blast)
  then show ?thesis using s''(2) same_net_trans [OF s'(3) s''(3)] unfolding runs_def by blast
qed

text \<open>First a step that cannot fail, then the rest.\<close>

lemma runs_after:
  assumes "dinv s \<Longrightarrow> dinv s1" and "dinv s" and "same_net s s1" and "\<And>j. j \<noteq> i \<Longrightarrow> tun s1 j = tun s j"
    and "\<not> up \<Longrightarrow> authenticated (tun s1 i) \<Longrightarrow> authenticated (tun s i)" and "dinv s1 \<Longrightarrow> runs up i s1 r"
  shows "runs up i s r"
proof -
  have "runs up i s (Ok s1)" using assms(1-5) by (simp add: runs_def) blast
  from runs_bind [OF this, of "\<lambda>_. r"] assms(6) show ?thesis by simp
qed

lemma runs_trans: "runs up i s (Ok s1) \<Longrightarrow> runs up i s1 r \<Longrightarrow> runs up i s r"
  using runs_bind [of up i s "Ok s1" "\<lambda>_. r"] by simp

text \<open>The fields of a tunnel the invariant speaks about, and its side of the connection.\<close>

definition link :: "mlvpn_tunnel_t \<Rightarrow> circular_buffer_t \<times> circular_buffer_t \<times> string option \<times> addrinfo list \<times> int \<times> bool \<times> bool \<times> chap_status \<times> bool \<times>
    (string option \<times> u32 \<times> u32 \<times> u32)" where
  "link t = (t_sbuf t, t_hpsbuf t, t_name t, t_addrinfo t, t_fd t, t_io_read t, t_io_write t, t_status t, t_server_mode t, ident t)"

lemma link_ident: "link t' = link t \<Longrightarrow> ident t' = ident t"
  by (simp add: link_def)

lemma link_ok:
  assumes "link t' = link t"
  shows "tun_ok t' = tun_ok t" and "authenticated t' = authenticated t"
  using assms by (auto simp: link_def tun_ok_def idle_def authenticated_def)

lemma dinv_link:
  assumes "dinv s" and "link (f (tun s i)) = link (tun s i)"
  shows "dinv (upd i f s)"
  by (rule inv_upd [OF assms(1)]) (use assms(1) in \<open>simp_all add: link_ok [OF assms(2)] dinv_def base_ok_def\<close>)

lemma runs_link:
  assumes "dinv s" and "link (f (tun s i)) = link (tun s i)" and "dinv (upd i f s) \<Longrightarrow> runs up i (upd i f s) r"
  shows "runs up i s r"
  by (rule runs_after [OF _ assms(1) _ _ _ assms(3)])
    (simp_all add: dinv_link [of s f i, OF assms(1,2)] link_ok(2) [OF assms(2)] link_ident [OF assms(2)])

lemma runs_link_Ok:
  assumes "dinv s" and "\<And>t. link (f t) = link t"
  shows "runs up i s (Ok (upd i f s))"
  by (rule runs_link [where f = f, OF assms(1)]) (rule assms(2), rule runs_Ok)

lemma tunE:
  assumes "dinv s" and "i \<in> set (d_rtuns s)"
  shows "tun_ok (tun s i)"
  using assms by (simp add: dinv_def base_ok_def)

text \<open>An update of the tunnel that does not take it down.\<close>

lemma runs_upd:
  assumes "dinv s" and "i \<in> set (d_rtuns s) \<Longrightarrow> tun_ok (f (tun s i))" and "authenticated (f (tun s i)) = authenticated (tun s i)"
    and "dinv (upd i f s) \<Longrightarrow> runs up i (upd i f s) r" and "ident (f (tun s i)) = ident (tun s i)"
  shows "runs up i s r"
  by (rule runs_after [OF _ assms(1) _ _ _ assms(4)])
    (simp_all add: assms(3,5), rule inv_upd, simp_all add: assms(1,2,3))

lemma runs_status_down: "dinv s \<Longrightarrow> i \<in> set (d_rtuns s) \<Longrightarrow> runs False i s (mlvpn_rtun_status_down i s)"
  unfolding runs_def by (drule (1) status_down_ok, elim exE conjE, intro exI conjI, assumption+)
    (simp_all add: went_down_def authenticated_def)

lemma runs_status_up:
  "dinv s \<Longrightarrow> i \<in> set (d_rtuns s) \<Longrightarrow> t_addrinfo (tun s i) \<noteq> [] \<Longrightarrow> runs True i s (mlvpn_rtun_status_up E i s)"
  unfolding runs_def by (drule (2) status_up_ok [of _ _ E], elim exE conjE, intro exI conjI, assumption+) simp_all

lemma runs_frame:
  assumes "dinv s1 = dinv s" and "same_net s s1" and "d_tunnels s1 = d_tunnels s" and "dinv s" and "dinv s1 \<Longrightarrow> runs up i s1 r"
  shows "runs up i s r"
  by (rule runs_after [OF _ assms(4,2) _ _ assms(5)]) (simp_all add: assms(1,3))

section \<open>Sending\<close>

lemma reply_timestamp_link: "reply_timestamp n t = (a, t') \<Longrightarrow> link t' = link t"
  by (auto simp: reply_timestamp_def link_def split: if_splits)

lemma proto_header_link:
  assumes "proto_header n t q p = (h, t', q')"
  shows "link t' = link t"
proof -
  have "link (t\<lparr>t_seq := x\<rparr>) = link t" for x by (simp add: link_def)
  then show ?thesis using assms reply_timestamp_link
    by (auto simp: proto_header_def Let_def split: if_splits prod.splits)
qed

lemma encap_ok:
  assumes "pkt_wf pkt"
  shows "\<exists>w t' q'. rtun_encap P t q pkt = Ok (w, t', q') \<and> link t' = link t"
proof -
  obtain h t' q' where h: "proto_header (mlvpn_timestamp64 (pe_now P)) t q (pkt\<lparr>pkt_reorder := 1\<rparr>) = (h, t', q')"
    by (metis prod_cases3)
  have "\<exists>w. proto_payload P h (pkt\<lparr>pkt_reorder := 1\<rparr>) = Ok w"
    using assms by (simp add: proto_payload_def Let_def pkt_wf_def split: option.split)
  then obtain w where "proto_payload P h (pkt\<lparr>pkt_reorder := 1\<rparr>) = Ok w" ..
  then show ?thesis using h proto_header_link [OF h] by (simp add: rtun_encap_def)
qed

lemma get_buf_ok: "tun_ok t \<Longrightarrow> buf_ok (get_buf hp t)"
  by (simp add: tun_ok_def get_buf_def)

lemma set_buf_ok:
  assumes "tun_ok t" and "buf_ok b" and "t_addrinfo t \<noteq> []"
  shows "tun_ok (set_buf hp b t)" and "authenticated (set_buf hp b t) = authenticated t"
    and "t_addrinfo (set_buf hp b t) = t_addrinfo t"
  using assms by (auto simp: tun_ok_def set_buf_def authenticated_def)

text \<open>The packet \<open>mlvpn_rtun_send\<close> takes out of the buffer and the buffer it leaves.\<close>

definition sent_buf :: "circular_buffer_t \<Rightarrow> circular_buffer_t" where
  "sent_buf b = (let (slot, b1) = mlvpn_pktbuffer_read b in pktbuffer_modify b1 slot (\<lambda>p. p\<lparr>pkt_reorder := 1\<rparr>))"

definition sent_pkt :: "circular_buffer_t \<Rightarrow> mlvpn_pkt_t" where
  "sent_pkt b = (cb_pkts b ! cb_start b)\<lparr>pkt_reorder := 1\<rparr>"

lemma sent_pkt_hd:
  assumes "buf_ok b" and "\<not> mlvpn_cb_is_empty b"
  shows "sent_pkt b = (hd (cb_list b))\<lparr>pkt_reorder := 1\<rparr>"
  using pktbuffer_take_list(1) [of b] assms by (simp add: sent_pkt_def buf_ok_def cb_defs)

lemma sent_buf_ok:
  assumes "buf_ok b"
  shows "buf_ok (sent_buf b)" and "pkt_wf (sent_pkt b)" and "cb_pkts (sent_buf b) ! cb_start b = sent_pkt b"
proof -
  have b: "cb_wf b" "cb_start b < length (cb_pkts b)" using assms by (auto simp: buf_ok_def cb_wf_def)
  then have p: "pkt_wf (cb_pkts b ! cb_start b)" using assms by (simp add: buf_ok_def)
  then show w: "pkt_wf (sent_pkt b)" by (simp add: sent_pkt_def pkt_wf_def)
  show "cb_pkts (sent_buf b) ! cb_start b = sent_pkt b"
    using b by (simp add: sent_buf_def sent_pkt_def cb_defs)
  have "sent_buf b = b\<lparr>cb_start := (cb_start b + 1) mod cb_size b, cb_pkts := (cb_pkts b)[cb_start b := sent_pkt b]\<rparr>"
    by (simp add: sent_buf_def sent_pkt_def cb_defs)
  moreover have "set ((cb_pkts b)[cb_start b := sent_pkt b]) \<subseteq> insert (sent_pkt b) (set (cb_pkts b))"
    by (rule set_update_subset_insert)
  ultimately show "buf_ok (sent_buf b)" using assms w by (auto simp: buf_ok_def cb_wf_def)
qed

text \<open>\<open>mlvpn_rtun_send\<close> with the packet named.\<close>

lemma rtun_send_unfold:
  "mlvpn_rtun_send E i hp s =
     (let b = get_buf hp (tun s i) in
      obind (rtun_encap (penv E s) (set_buf hp (sent_buf b) (tun s i)) (d_data_seq s) (cb_pkts (sent_buf b) ! cb_start b))
        (\<lambda>(w, t1, data_seq).
           let s1 = (upd i (\<lambda>_. t1) s)\<lparr>d_data_seq := data_seq\<rparr> in
           case w of
             None \<Rightarrow> Ok s1
           | Some wire \<Rightarrow>
               (case t_addrinfo t1 of
                  [] \<Rightarrow> Fault NullDeref
                | ai # _ \<Rightarrow>
                    let ret = en_sendto E (t_fd t1) wire (ai_addr ai);
                        s2 = emit (SendTo (t_fd t1) wire (ai_addr ai)) s1
                    in obind (if ret < 0
                              then (if en_again E then Ok s2 else mlvpn_rtun_status_down i s2)
                              else Ok (upd i (\<lambda>t. t\<lparr>t_sentpackets := t_sentpackets t + 1,
                                     t_sentbytes := t_sentbytes t + of_int ret\<rparr>) s2))
                         (\<lambda>s3. Ok (stop_write_if_empty hp i s3)))))"
  by (simp add: mlvpn_rtun_send_def sent_buf_def mlvpn_pktbuffer_read_def mlvpn_cb_read_def Let_def)

lemma runs_stop_write:
  assumes "dinv s"
  shows "runs False i s (Ok (stop_write_if_empty hp i s))"
proof (cases "t_io_write (tun s i) \<and> mlvpn_cb_is_empty (get_buf hp (tun s i))")
  case True
  have "tun_ok ((tun s i)\<lparr>t_io_write := False\<rparr>)" if "i \<in> set (d_rtuns s)"
    using tunE [OF assms that] by (auto simp: tun_ok_def idle_def)
  then show ?thesis using True unfolding stop_write_if_empty_def
    by simp (rule runs_upd [OF assms, where f = "\<lambda>t. t\<lparr>t_io_write := False\<rparr>"], auto intro: runs_Ok simp: authenticated_def)
next
  case False
  then show ?thesis using assms by (simp only: stop_write_if_empty_def if_False) (rule runs_Ok)
qed

lemma runs_send:
  assumes inv: "dinv s" and i: "i \<in> set (d_rtuns s)" and ai: "t_addrinfo (tun s i) \<noteq> []"
  shows "runs False i s (mlvpn_rtun_send E i hp s)"
proof -
  let ?b = "get_buf hp (tun s i)"
  let ?t0 = "set_buf hp (sent_buf ?b) (tun s i)"
  note t = tunE [OF inv i]
  note b = sent_buf_ok [OF get_buf_ok [OF t]]
  note t0 = set_buf_ok [OF t b(1) ai]
  obtain w t1 q where e: "rtun_encap (penv E s) ?t0 (d_data_seq s) (sent_pkt ?b) = Ok (w, t1, q)" "link t1 = link ?t0"
    using encap_ok [OF b(2)] by blast
  have t1: "tun_ok t1" "authenticated t1 = authenticated (tun s i)" "t_addrinfo t1 \<noteq> []"
    using link_ok [OF e(2)] t0 ai e(2) by (auto simp: link_def)
  let ?s1 = "(upd i (\<lambda>_. t1) s)\<lparr>d_data_seq := q\<rparr>"
  obtain a as where a: "t_addrinfo t1 = a # as" using t1(3) by (cases "t_addrinfo t1") auto
  let ?s2 = "emit (SendTo (t_fd t1) wire (ai_addr a)) ?s1"
  have "ident t1 = ident (tun s i)" using link_ident [OF e(2)] by simp
  then have s1: "runs False i s (Ok ?s1)"
    using inv_upd [OF inv, of i "\<lambda>_. t1"] t1 by (auto simp: runs_def same_net_def)
  show ?thesis
  proof (cases w)
    case None
    then show ?thesis using s1 e b(3) by (simp add: rtun_send_unfold Let_def)
  next
    case (Some wire)
    let ?ret = "en_sendto E (t_fd t1) wire (ai_addr a)"
    let ?s2 = "emit (SendTo (t_fd t1) wire (ai_addr a)) ?s1"
    have s2: "runs False i s (Ok ?s2)" using s1 by (auto simp: runs_def same_net_def)
    then have d2: "dinv ?s2" by (simp add: runs_def)
    have l: "link (t\<lparr>t_sentpackets := t_sentpackets t + 1, t_sentbytes := t_sentbytes t + of_int ?ret\<rparr>) = link t" for t
      by (simp add: link_def)
    have "runs False i ?s2 (if ?ret < 0 then (if en_again E then Ok ?s2 else mlvpn_rtun_status_down i ?s2)
       else Ok (upd i (\<lambda>t. t\<lparr>t_sentpackets := t_sentpackets t + 1, t_sentbytes := t_sentbytes t + of_int ?ret\<rparr>) ?s2))"
      using runs_Ok [OF d2, of False i] runs_status_down [OF d2, of i] i runs_link_Ok [OF d2 l, of False i] by simp
    from runs_trans [OF s2 runs_bind [OF this runs_stop_write]]
    show ?thesis using e Some a by (simp only: rtun_send_unfold Let_def b(3) e obind.simps) simp
  qed
qed

lemma runs_write:
  assumes inv: "dinv s" and i: "i \<in> set (d_rtuns s)"
  shows "runs False i s (mlvpn_rtun_write E i s)"
proof -
  have ai: "t_addrinfo (tun s' i) \<noteq> []"
    if "dinv s'" "same_net s s'" "\<not> mlvpn_cb_is_empty (t_hpsbuf (tun s' i)) \<or> \<not> mlvpn_cb_is_empty (t_sbuf (tun s' i))" for s'
    using tunE [OF that(1)] i that(2,3) by (auto simp: same_net_def tun_ok_def idle_def)
  have i': "i \<in> set (d_rtuns s')" if "same_net s s'" for s' using that i by (simp add: same_net_def)
  show ?thesis unfolding mlvpn_rtun_write_def
    by (rule runs_bind) (use ai i' inv in \<open>auto intro!: runs_send runs_Ok\<close>)
qed

section \<open>Receiving\<close>

lemma protocol_read_ok:
  assumes "sodium_ok (pe_sodium P)" and "mlvpn_protocol_read P t pkt = Some (t', d)"
  shows "link t' = link t" and "pkt_wf d"
proof -
  obtain p where "t' = read_tunnel P (mlvpn_timestamp64 (pe_now P)) p t" using protocol_read_tunnel [OF assms(2)] by blast
  then show "link t' = link t" by (simp add: read_tunnel_def Let_def mlvpn_loss_update_def rtt_update_def link_def)
  show "pkt_wf d" using accepted_packet [OF assms] by blast
qed

text \<open>The reply of \<^verbatim>\<open>recvfrom\<close>: at most the size of the buffer, and an address of the family of the socket.\<close>

definition recv_ok :: "recv_result \<Rightarrow> mlvpn_tunnel_t \<Rightarrow> bool" where
  "recv_ok r t \<longleftrightarrow> (case r of RecvData bs addr \<Rightarrow> length bs \<le> DEFAULT_MTU \<and>
     (\<forall>ai \<in> set (t_addrinfo t). length (ai_addr ai) = length addr) | _ \<Rightarrow> True)"

lemma tun_ok_peer:
  assumes "tun_ok t" and "t_addrinfo t \<noteq> []" and "as \<noteq> []"
  shows "tun_ok (t\<lparr>t_addrinfo := as\<rparr>)"
  using assms by (simp add: tun_ok_def)

lemma runs_change_peer:
  assumes inv: "dinv s" and i: "i \<in> set (d_rtuns s)" and ai: "t_addrinfo (tun s i) \<noteq> []"
    and len: "\<forall>ai \<in> set (t_addrinfo (tun s i)). length (ai_addr ai) = length addr"
  shows "\<exists>go s'. change_peer E addr i s = Ok (go, s') \<and> runs False i s (Ok s') \<and> t_addrinfo (tun s' i) \<noteq> []"
proof -
  obtain a as where a: "t_addrinfo (tun s i) = a # as" using ai by (cases "t_addrinfo (tun s i)") auto
  let ?f = "\<lambda>t. t\<lparr>t_addrinfo := a\<lparr>ai_addr := patch (ai_addr a) 0 addr\<rparr> # as\<rparr>"
  have "runs False i s (Ok (upd i ?f s))"
    by (rule runs_upd [where f = ?f, OF inv]) (use tun_ok_peer [OF tunE [OF inv i] ai] in \<open>auto simp: authenticated_def intro: runs_Ok\<close>)
  then show ?thesis using a len runs_Ok [OF inv, of False i] by (auto simp: change_peer_def)
qed

lemma runs_core:
  assumes "dinv s" and "\<exists>s'. r = Ok s' \<and> rx_ok s' \<and> core s' = core s"
  shows "runs False i s r"
proof -
  obtain s' where s': "r = Ok s'" "rx_ok s'" "core s' = core s" using assms(2) by blast
  then show ?thesis
    using inv_core [OF assms(1) s'(2,3)] same_net_core [OF s'(3)] core_fields(1) [OF s'(3)] by (simp add: runs_def)
qed

lemma link_tick: "link (t\<lparr>t_last_activity := x\<rparr>) = link t" "link (t\<lparr>t_last_keepalive_ack := x\<rparr>) = link t"
  "link (t\<lparr>t_last_keepalive_ack_sent := x\<rparr>) = link t" "link (t\<lparr>t_next_keepalive := x\<rparr>) = link t"
  "link (t\<lparr>t_conn_attempts := n\<rparr>) = link t" "link (t\<lparr>t_last_connection_attempt := x\<rparr>) = link t"
  by (simp_all add: link_def)

lemma runs_tick: "dinv s \<Longrightarrow> runs up i s (Ok (mlvpn_rtun_tick E i s))"
  unfolding mlvpn_rtun_tick_def by (rule runs_link_Ok) (simp_all add: link_tick)

lemma dinv_tick: "dinv s \<Longrightarrow> dinv (mlvpn_rtun_tick E i s)"
  using runs_tick [of s False i E] by (simp add: runs_def)

text \<open>Queueing a control packet on a tunnel that has a peer.\<close>

lemma runs_put:
  assumes "dinv s" and "t_addrinfo (tun s i) \<noteq> []" and "\<And>p. pkt_wf p \<Longrightarrow> pkt_wf (f p)"
    and b: "\<And>t. buf_ok (t_hpsbuf t) \<Longrightarrow> buf_ok (g t)"
    and k: "\<And>t. link (k t) = link t"
  shows "runs up i s (Ok (upd i (\<lambda>t. k (t\<lparr>t_hpsbuf := pktbuffer_put f (g t)\<rparr>)) s))"
proof -
  let ?h = "\<lambda>t. t\<lparr>t_hpsbuf := pktbuffer_put f (g t)\<rparr>"
  have "tun_ok (?h (tun s i))" if "i \<in> set (d_rtuns s)"
    using tunE [OF assms(1) that] buf_ok_put(1) [OF b assms(3)] assms(2) by (auto simp: tun_ok_def)
  then have "tun_ok (k (?h (tun s i)))" if "i \<in> set (d_rtuns s)" using that link_ok(1) [OF k] by blast
  moreover have "authenticated (k (?h (tun s i))) = authenticated (tun s i)"
    using link_ok(2) [OF k] by (simp add: authenticated_def)
  ultimately show ?thesis
    by (intro runs_upd [where f = "\<lambda>t. k (?h t)", OF assms(1)]) (simp_all add: runs_Ok link_ident [OF k])
qed

lemma runs_keepalive:
  assumes inv: "dinv s" and i: "i \<in> set (d_rtuns s)" and ai: "t_addrinfo (tun s i) \<noteq> []"
  shows "runs False i s (Ok (mlvpn_rtun_send_keepalive now i s))"
proof -
  have p: "buf_ok (pktbuffer_put (\<lambda>p. p\<lparr>pkt_type := MLVPN_PKT_KEEPALIVE\<rparr>) (t_hpsbuf (tun s i)))"
    using tunE [OF inv i] by (intro buf_ok_put) (simp_all add: tun_ok_def pkt_wf_def)
  show ?thesis unfolding mlvpn_rtun_send_keepalive_def
    by (rule runs_upd [where i = i, OF inv _ _ runs_Ok])
      (use tunE [OF inv i] ai p in \<open>auto simp: tun_ok_def authenticated_def\<close>)
qed

lemma pkt_wf_put_auth: "pkt_wf p \<Longrightarrow> pkt_wf (put_auth a b ty p)"
  by (simp add: put_auth_def pkt_wf_def)

lemma authenticated_addr:
  assumes "dinv s" and "i \<in> set (d_rtuns s)" and "MLVPN_AUTHOK \<le> t_status (tun s i)"
  shows "t_addrinfo (tun s i) \<noteq> []"
  using tunE [OF assms(1,2)] assms(3) by (auto simp: tun_ok_def idle_def)

lemma runs_send_auth:
  assumes inv: "dinv s" and i: "i \<in> set (d_rtuns s)" and ai: "t_addrinfo (tun s i) \<noteq> []"
  shows "runs True i s (mlvpn_rtun_send_auth E i s)"
proof -
  have up: "runs True i s' (mlvpn_rtun_status_up E i (mlvpn_rtun_tick E i s'))"
    if "dinv s'" "i \<in> set (d_rtuns s')" "t_addrinfo (tun s' i) \<noteq> []" for s'
    by (rule runs_trans [OF runs_tick [OF that(1)] runs_status_up [OF dinv_tick [OF that(1)]]])
      (use that in \<open>simp_all add: mlvpn_rtun_tick_def\<close>)
  let ?h = "if mlvpn_cb_is_full (t_hpsbuf (tun s i)) then mlvpn_cb_reset (t_hpsbuf (tun s i)) else t_hpsbuf (tun s i)"
  let ?f = "\<lambda>t. t\<lparr>t_hpsbuf := pktbuffer_put (put_auth (CHR ''O'') (CHR ''K'') MLVPN_PKT_AUTH_OK) ?h,
     t_status := (if t_status t < MLVPN_AUTHOK then MLVPN_AUTHSENT else t_status t)\<rparr>"
  have b: "buf_ok (pktbuffer_put (put_auth (CHR ''O'') (CHR ''K'') MLVPN_PKT_AUTH_OK) ?h)"
    using tunE [OF inv i] by (intro buf_ok_put) (auto simp: tun_ok_def pkt_wf_put_auth)
  have 1: "runs True i s (Ok (upd i ?f s))"
    by (rule runs_upd [where f = ?f, OF inv _ _ runs_Ok])
      (use tunE [OF inv i] ai b in \<open>auto simp: tun_ok_def authenticated_def\<close>)
  then have d1: "dinv (upd i ?f s)" by (simp add: runs_def)
  have w: "runs True i s' (Ok (upd i (\<lambda>t. t\<lparr>t_io_write := True\<rparr>) s'))"
    if "dinv s'" "t_addrinfo (tun s' i) \<noteq> []" for s'
    by (rule runs_upd [where f = "\<lambda>t. t\<lparr>t_io_write := True\<rparr>", OF that(1) _ _ runs_Ok])
      (use tunE [OF that(1)] that(2) in \<open>auto simp: tun_ok_def authenticated_def\<close>)
  have "runs True i (upd i ?f s) (obind (mlvpn_rtun_status_up E i (mlvpn_rtun_tick E i (upd i ?f s)))
      (\<lambda>s2. Ok (upd i (\<lambda>t. t\<lparr>t_io_write := True\<rparr>) s2)))"
  proof (rule runs_bind [OF up])
    fix s2
    assume "mlvpn_rtun_status_up E i (mlvpn_rtun_tick E i (upd i ?f s)) = Ok s2" "dinv s2"
    moreover from status_up_ok [OF dinv_tick [OF d1], of i E i E] i ai obtain s3 where
      "mlvpn_rtun_status_up E i (mlvpn_rtun_tick E i (upd i ?f s)) = Ok s3"
      "d_tunnels s3 = (d_tunnels (mlvpn_rtun_tick E i (upd i ?f s)))(i := went_up E (tun (mlvpn_rtun_tick E i (upd i ?f s)) i))"
      by (auto simp: mlvpn_rtun_tick_def)
    ultimately show "runs True i s2 (Ok (upd i (\<lambda>t. t\<lparr>t_io_write := True\<rparr>) s2))"
      using w [of s2] ai by (simp add: went_up_def mlvpn_rtun_tick_def)
  qed (use d1 i ai in simp_all)
  from runs_trans [OF 1 this] show ?thesis
    using runs_Ok [OF inv, of True i] up [OF inv i ai] by (simp only: mlvpn_rtun_send_auth_def Let_def split: if_split) simp
qed

definition is_auth :: "mlvpn_pkt_t \<Rightarrow> bool" where
  "is_auth d \<longleftrightarrow> pkt_type d = MLVPN_PKT_AUTH \<or> pkt_type d = MLVPN_PKT_AUTH_OK"

lemma runs_recv_data: "dinv s \<Longrightarrow> pkt_wf d \<Longrightarrow> runs False i s (mlvpn_rtun_recv_data d s)"
  by (rule runs_core) (auto intro!: recv_data_ok simp: dinv_def base_ok_def)

lemma runs_keepalive_read:
  assumes inv: "dinv s" and i: "i \<in> set (d_rtuns s)" and ai: "t_addrinfo (tun s i) \<noteq> []"
  shows "runs False i s
     (let s1 = upd i (\<lambda>t. t\<lparr>t_last_keepalive_ack := en_now E\<rparr>) (mlvpn_rtun_tick E i s) in
      if t_last_keepalive_ack_sent (tun s1 i) + 1 < t_last_keepalive_ack (tun s1 i)
      then Ok (mlvpn_rtun_send_keepalive (t_last_keepalive_ack (tun s1 i)) i
             (upd i (\<lambda>t. t\<lparr>t_last_keepalive_ack_sent := t_last_keepalive_ack t\<rparr>) s1))
      else Ok s1)"
proof -
  let ?s1 = "upd i (\<lambda>t. t\<lparr>t_last_keepalive_ack := en_now E\<rparr>) (mlvpn_rtun_tick E i s)"
  let ?s2 = "upd i (\<lambda>t. t\<lparr>t_last_keepalive_ack_sent := t_last_keepalive_ack t\<rparr>) ?s1"
  have 1: "runs False i s (Ok ?s1)"
    by (rule runs_trans [OF runs_tick [OF inv] runs_link_Ok [OF dinv_tick [OF inv]]]) (simp_all add: link_tick)
  then have d1: "dinv ?s1" by (simp add: runs_def)
  have 2: "runs False i ?s1 (Ok ?s2)" by (rule runs_link_Ok [OF d1]) (simp_all add: link_tick)
  then have "dinv ?s2" by (simp add: runs_def)
  from runs_keepalive [OF this, of i] have "runs False i ?s2 (Ok (mlvpn_rtun_send_keepalive x i ?s2))" for x
    using i ai by (simp add: mlvpn_rtun_tick_def)
  from runs_trans [OF 1 runs_trans [OF 2 this]] show ?thesis unfolding Let_def by (intro runs_if 1)
qed

lemma runs_dispatch:
  assumes inv: "dinv s" and i: "i \<in> set (d_rtuns s)" and ai: "t_addrinfo (tun s i) \<noteq> []" and d: "pkt_wf d"
  shows "runs (is_auth d) i s (mlvpn_rtun_dispatch E d i s)"
proof -
  have data: "runs False i s (mlvpn_rtun_recv_data d (mlvpn_rtun_tick E i s))"
    by (rule runs_trans [OF runs_tick [OF inv] runs_recv_data [OF dinv_tick [OF inv] d]])
  have auth: "runs (is_auth d) i s (mlvpn_rtun_send_auth E i s)"
    if "pkt_type d = MLVPN_PKT_AUTH \<or> pkt_type d = MLVPN_PKT_AUTH_OK"
    using runs_send_auth [OF inv i ai, of E] that by (simp add: is_auth_def)
  show ?thesis unfolding mlvpn_rtun_dispatch_def
    by (intro runs_if auth runs_Ok [OF inv] runs_weaken [OF data] runs_weaken [OF runs_status_down [OF inv i]]
        runs_weaken [OF runs_keepalive_read [OF inv i ai]])
qed

text \<open>The packet \<open>mlvpn_rtun_read\<close> hands to \<open>mlvpn_protocol_read\<close>.\<close>

definition raw_pkt :: "bytes \<Rightarrow> mlvpn_pkt_t" where
  "raw_pkt bs = pkt_zero\<lparr>pkt_len := of_nat (length bs), pkt_data := patch (replicate DEFAULT_MTU 0) 0 bs\<rparr>"

text \<open>The bytes are a packet of type \<^verbatim>\<open>AUTH\<close> or \<^verbatim>\<open>AUTH_OK\<close> the protocol accepts.\<close>

definition carries_auth :: "env \<Rightarrow> recv_result \<Rightarrow> nat \<Rightarrow> daemon \<Rightarrow> bool" where
  "carries_auth E r i s \<longleftrightarrow>
     (\<exists>bs addr t d. r = RecvData bs addr \<and> mlvpn_protocol_read (penv E s) (tun s i) (raw_pkt bs) = Some (t, d) \<and> is_auth d)"

lemma runs_read:
  assumes inv: "dinv s" and i: "i \<in> set (d_rtuns s)" and rd: "t_io_read (tun s i)" and r: "recv_ok r (tun s i)"
    and S: "sodium_ok (en_sodium E)"
  shows "runs (carries_auth E r i s) i s (mlvpn_rtun_read E r i s)"
proof (cases r)
  case RecvError
  then show ?thesis using runs_Ok [OF inv] runs_status_down [OF inv i] runs_weaken by (simp add: mlvpn_rtun_read_def)
next
  case RecvClosed
  then show ?thesis using runs_Ok [OF inv] by (simp add: mlvpn_rtun_read_def)
next
  case (RecvData bs addr)
  show ?thesis
  proof (cases "mlvpn_protocol_read (penv E s) (tun s i) (raw_pkt bs)")
    case None
    then show ?thesis using RecvData runs_Ok [OF inv] by (simp add: mlvpn_rtun_read_def raw_pkt_def)
  next
    case (Some td)
    obtain t d where td: "td = (t, d)" by (cases td)
    note acc = protocol_read_ok [OF _ Some [unfolded td]]
    have S': "sodium_ok (pe_sodium (penv E s))" using S by (simp add: penv_def)
    let ?t = "t\<lparr>t_recvbytes := t_recvbytes t + of_nat (length bs), t_recvpackets := t_recvpackets t + 1\<rparr>"
    let ?s1 = "upd i (\<lambda>_. ?t) s"
    have l: "link ?t = link (tun s i)" using acc(1) [OF S'] by (simp add: link_def)
    then have ai: "t_addrinfo ?t = t_addrinfo (tun s i)" by (simp add: link_def)
    have "t_addrinfo (tun s i) \<noteq> []" using tunE [OF inv i] rd by (auto simp: tun_ok_def idle_def)
    then have a1: "t_addrinfo (tun ?s1 i) \<noteq> []" using ai by simp
    have 1: "runs False i s (Ok ?s1)" by (rule runs_link [where f = "\<lambda>_. ?t", OF inv l runs_Ok])
    then have d1: "dinv ?s1" by (simp add: runs_def)
    obtain go s2 where c: "change_peer E addr i ?s1 = Ok (go, s2)" "runs False i ?s1 (Ok s2)" "t_addrinfo (tun s2 i) \<noteq> []"
      using runs_change_peer [OF d1 _ a1, of addr E] i r RecvData ai by (auto simp: recv_ok_def)
    have 2: "runs False i s (Ok s2)" by (rule runs_trans [OF 1 c(2)])
    then have d2: "dinv s2" and i2: "i \<in> set (d_rtuns s2)" using i by (simp_all add: runs_def same_net_def)
    have "runs (is_auth d) i s (if go then mlvpn_rtun_dispatch E d i s2 else Ok s2)"
      using runs_trans [OF runs_weaken [OF 2] runs_dispatch [OF d2 i2 c(3) acc(2) [OF S']]] runs_weaken [OF 2] by simp
    moreover have "carries_auth E r i s = is_auth d" using RecvData Some td by (simp add: carries_auth_def)
    ultimately show ?thesis using RecvData Some td c(1) by (simp add: mlvpn_rtun_read_def raw_pkt_def)
  qed
qed

section \<open>Timers\<close>

lemma start_error_fields:
  "t_addrinfo (start_error t) = t_addrinfo t" "t_status (start_error t) = t_status t" "t_sbuf (start_error t) = t_sbuf t"
  "t_hpsbuf (start_error t) = t_hpsbuf t" "t_name (start_error t) = t_name t"
  by (simp_all add: start_error_def Let_def)

lemma start_tunnel_ok:
  assumes "tun_ok t"
  shows "tun_ok (snd (rtun_start_tunnel E t))" and "t_status (snd (rtun_start_tunnel E t)) = t_status t"
    and "fst (rtun_start_tunnel E t) \<Longrightarrow> t_addrinfo (snd (rtun_start_tunnel E t)) \<noteq> []"
  using assms by (auto simp: rtun_start_tunnel_def Let_def tun_ok_def start_error_fields split: if_splits prod.splits)

lemma start_ident: "ident (snd (rtun_start_tunnel E t)) = ident t"
  by (simp add: rtun_start_tunnel_def start_error_def Let_def split: prod.split)

lemma runs_start:
  assumes inv: "dinv s" and i: "i \<in> set (d_rtuns s)" and m: "mlvpn_rtun_start E i s = (ok, s')"
  shows "runs False i s (Ok s')" and "ok \<Longrightarrow> t_addrinfo (tun s' i) \<noteq> []" and "t_status (tun s' i) = t_status (tun s i)"
proof -
  note t = start_tunnel_ok [OF tunE [OF inv i], of E]
  have s': "s' = upd i (\<lambda>_. snd (rtun_start_tunnel E (tun s i))) s" "ok = fst (rtun_start_tunnel E (tun s i))"
    using m by (auto simp: mlvpn_rtun_start_def split: prod.splits)
  show "runs False i s (Ok s')" unfolding s'
    by (rule runs_upd [where f = "\<lambda>_. snd (rtun_start_tunnel E (tun s i))", OF inv _ _ runs_Ok])
      (simp_all add: t authenticated_def start_ident)
  show "ok \<Longrightarrow> t_addrinfo (tun s' i) \<noteq> []" using t(3) s' by simp
  show "t_status (tun s' i) = t_status (tun s i)" using t(2) s' by simp
qed

lemma runs_challenge:
  assumes inv: "dinv s" and i: "i \<in> set (d_rtuns s)" and ai: "t_addrinfo (tun s i) \<noteq> []" and na: "\<not> authenticated (tun s i)"
  shows "runs False i s (Ok (mlvpn_rtun_challenge_send i s))"
proof -
  have "buf_ok (pktbuffer_put (put_auth (CHR ''A'') (CHR ''U'') MLVPN_PKT_AUTH) (t_hpsbuf (tun s i)))"
    using tunE [OF inv i] by (intro buf_ok_put) (auto simp: tun_ok_def pkt_wf_put_auth)
  then show ?thesis unfolding mlvpn_rtun_challenge_send_def
    by (intro runs_upd [where i = i, OF inv _ _ runs_Ok])
      (use tunE [OF inv i] ai na in \<open>auto simp: tun_ok_def authenticated_def\<close>)
qed

lemma runs_conn:
  assumes "dinv s"
  shows "runs False i s (Ok (upd i (\<lambda>t. t\<lparr>t_conn_attempts := 0\<rparr>) s))"
    and "runs False i s (Ok (upd i (\<lambda>t. t\<lparr>t_conn_attempts := t_conn_attempts t + 1, t_last_connection_attempt := x\<rparr>) s))"
  by (rule runs_link_Ok [OF assms], simp add: link_tick)+

lemma runs_Ok_dinv: "runs up i s (Ok s') \<Longrightarrow> dinv s'" "runs up i s (Ok s') \<Longrightarrow> d_rtuns s' = d_rtuns s"
  by (simp_all add: runs_def same_net_def)

lemma runs_tick_connect:
  assumes inv: "dinv s" and i: "i \<in> set (d_rtuns s)" and na: "\<not> authenticated (tun s i)"
  shows "runs False i s (Ok (mlvpn_rtun_tick_connect E i s))"
proof -
  let ?s1 = "upd i (\<lambda>t. t\<lparr>t_conn_attempts := t_conn_attempts t + 1, t_last_connection_attempt := en_now E\<rparr>) s"
  have 1: "runs False i s (Ok ?s1)" by (rule runs_conn(2) [OF inv])
  then have d1: "dinv ?s1" and i1: "i \<in> set (d_rtuns ?s1)" using i by (simp_all add: runs_def)
  have na1: "\<not> authenticated (tun ?s1 i)" using na by (simp add: authenticated_def)
  obtain ok s2 where m: "mlvpn_rtun_start E i s = (ok, s2)" by (cases "mlvpn_rtun_start E i s")
  obtain ok1 s21 where m1: "mlvpn_rtun_start E i ?s1 = (ok1, s21)" by (cases "mlvpn_rtun_start E i ?s1")
  note st = runs_start [OF inv i m] and st1 = runs_start [OF d1 i1 m1]
  let ?s3 = "upd i (\<lambda>t. t\<lparr>t_conn_attempts := 0\<rparr>) s21"
  have 3: "runs False i ?s1 (Ok ?s3)" by (rule runs_trans [OF st1(1) runs_conn(1) [OF runs_Ok_dinv(1) [OF st1(1)]]])
  have c3: "runs False i ?s3 (Ok (mlvpn_rtun_challenge_send i ?s3))" if ok1
    by (rule runs_challenge [OF runs_Ok_dinv(1) [OF 3]])
      (use runs_Ok_dinv(2) [OF 3] i st1(2) [OF that] st1(3) na in \<open>simp_all add: authenticated_def\<close>)
  have c1: "runs False i ?s1 (Ok (mlvpn_rtun_challenge_send i ?s1))" if "\<not> t_fd (tun ?s1 i) < 0"
    using tunE [OF inv i] that by (intro runs_challenge [OF d1 i1 _ na1]) (auto simp: tun_ok_def idle_def)
  have srv: "runs False i s (Ok (if ok then upd i (\<lambda>t. t\<lparr>t_conn_attempts := 0\<rparr>) s2 else s2))"
    using runs_trans [OF st(1) runs_conn(1) [OF runs_Ok_dinv(1) [OF st(1)]]] st(1) by simp
  have cl: "runs False i ?s1 (Ok (if ok1 then mlvpn_rtun_challenge_send i ?s3 else s21))"
    using runs_trans [OF 3 c3] st1(1) by (cases ok1) (simp_all only: if_True if_False)
  have lt: "t_status (tun s i) < MLVPN_AUTHOK" using na by (simp add: authenticated_def not_le)
  show ?thesis
  proof (cases "t_server_mode (tun s i)")
    case True
    then show ?thesis using srv m runs_Ok [OF inv, of False i]
      by (simp only: mlvpn_rtun_tick_connect_def Let_def prod.case if_True split: if_split) simp
  next
    case False
    have "mlvpn_rtun_tick_connect E i s = (if t_fd (tun ?s1 i) < 0
        then if ok1 then mlvpn_rtun_challenge_send i ?s3 else s21 else mlvpn_rtun_challenge_send i ?s1)"
      using False lt m1 by (simp only: mlvpn_rtun_tick_connect_def Let_def prod.case if_True if_False)
    then show ?thesis using runs_trans [OF 1 cl] runs_trans [OF 1 c1]
      by (cases "t_fd (tun ?s1 i) < 0") (simp_all only: if_True if_False simp_thms)
  qed
qed

lemma runs_wrr_reset:
  assumes "dinv s"
  shows "runs False i s (wrr_reset (s\<lparr>d_status := x\<rparr>))"
proof -
  have "base_ok (s\<lparr>d_status := x\<rparr>)" using assms by (simp add: dinv_def)
  from wrr_reset_ok [OF this] obtain w where
    "wrr_reset (s\<lparr>d_status := x\<rparr>) = Ok (s\<lparr>d_status := x, d_wrr := w\<rparr>)" "dinv (s\<lparr>d_status := x, d_wrr := w\<rparr>)" by blast
  then show ?thesis by (simp add: runs_def same_net_def)
qed

lemma runs_fallback: "dinv s \<Longrightarrow> runs False i s (switch_to_fallback_if_necessary s)"
  unfolding switch_to_fallback_if_necessary_def by (intro runs_if runs_wrr_reset runs_Ok)

text \<open>A change among the states of an authenticated tunnel.\<close>

lemma runs_quality:
  assumes inv: "dinv s" and a: "authenticated (tun s i)" and st: "MLVPN_AUTHOK \<le> st" and i: "i \<in> set (d_rtuns s)"
  shows "runs False i s (switch_to_fallback_if_necessary (upd i (\<lambda>t. t\<lparr>t_status := st\<rparr>) s))"
proof -
  have ai: "t_addrinfo (tun s i) \<noteq> []" using authenticated_addr [OF inv i] a by (auto simp: authenticated_def)
  show ?thesis
    by (rule runs_upd [where f = "\<lambda>t. t\<lparr>t_status := st\<rparr>", OF inv _ _ runs_fallback])
      (use tunE [OF inv i] a st ai in \<open>auto simp: tun_ok_def authenticated_def\<close>)
qed

lemma runs_check_lossy:
  assumes "dinv s" and "i \<in> set (d_rtuns s)"
  shows "runs False i s (mlvpn_rtun_check_lossy i s)"
  unfolding mlvpn_rtun_check_lossy_def Let_def
  by (intro runs_if runs_quality [OF assms(1) _ _ assms(2)] runs_Ok [OF assms(1)]) (auto simp: authenticated_def)

lemma runs_check_slow:
  assumes "dinv s" and "i \<in> set (d_rtuns s)"
  shows "runs False i s (mlvpn_rtun_check_slow i s)"
  unfolding mlvpn_rtun_check_slow_def Let_def
  by (intro runs_if runs_quality [OF assms(1) _ _ assms(2)] runs_Ok [OF assms(1)]) (auto simp: authenticated_def)

lemma runs_start_write:
  assumes inv: "dinv s"
  shows "runs False i s (Ok (start_write_if_queued i s))"
proof (cases "\<not> t_io_write (tun s i) \<and> \<not> mlvpn_cb_is_empty (t_hpsbuf (tun s i))")
  case True
  have "tun_ok ((tun s i)\<lparr>t_io_write := True\<rparr>)" if "i \<in> set (d_rtuns s)"
    using tunE [OF inv that] True by (auto simp: tun_ok_def idle_def)
  then have "runs False i s (Ok (upd i (\<lambda>t. t\<lparr>t_io_write := True\<rparr>) s))"
    by (rule runs_upd [where f = "\<lambda>t. t\<lparr>t_io_write := True\<rparr>", OF inv _ _ runs_Ok]) (simp_all add: authenticated_def)
  then show ?thesis using True by (simp only: start_write_if_queued_def simp_thms if_True)
qed (simp only: start_write_if_queued_def if_False runs_Ok [OF inv])

lemma runs_check_alive:
  assumes inv: "dinv s" and i: "i \<in> set (d_rtuns s)"
  shows "runs False i s (check_alive E i s)"
proof -
  have "runs False i s (Ok (if c then mlvpn_rtun_send_keepalive x i s else s))" if "MLVPN_AUTHOK \<le> t_status (tun s i)" for c x
    using runs_keepalive [OF inv i authenticated_addr [OF inv i], of x] that runs_Ok [OF inv] by (cases c) auto
  then show ?thesis unfolding check_alive_def Let_def
    by (intro runs_if runs_status_down [OF inv i] runs_tick_connect [OF inv i] runs_Ok [OF inv])
      (auto simp: authenticated_def not_le)
qed

lemma runs_check_timeout:
  assumes inv: "dinv s" and i: "i \<in> set (d_rtuns s)"
  shows "runs False i s (mlvpn_rtun_check_timeout E i s)"
  unfolding mlvpn_rtun_check_timeout_def
proof (rule runs_bind [OF runs_check_alive [OF inv i]])
  fix s1
  assume s1: "dinv s1" "same_net s s1"
  have 2: "runs False i s1 (Ok (start_write_if_queued i s1))" by (rule runs_start_write [OF s1(1)])
  have i2: "i \<in> set (d_rtuns (start_write_if_queued i s1))" "dinv (start_write_if_queued i s1)"
    using runs_Ok_dinv [OF 2] s1 i by (simp_all add: same_net_def)
  have "runs False i (start_write_if_queued i s1)
    (obind (mlvpn_rtun_check_lossy i (start_write_if_queued i s1)) (mlvpn_rtun_check_slow i))"
    by (rule runs_bind [OF runs_check_lossy [OF i2(2,1)] runs_check_slow]) (use i2 in \<open>auto simp: same_net_def\<close>)
  then show "runs False i s1 (obind (mlvpn_rtun_check_lossy i (start_write_if_queued i s1)) (mlvpn_rtun_check_slow i))"
    by (rule runs_trans [OF 2])
qed

section \<open>The device\<close>

lemma filters_choose_sound:
  assumes "mlvpn_filters_choose E data s = Some i"
  shows "\<exists>f. (f, i) \<in> set (d_filters s) \<and> en_filter E f data \<and> authenticated (tun s i)"
proof -
  obtain x where "find (\<lambda>(f, i). en_filter E f data \<and> \<not> t_status (tun s i) < MLVPN_AUTHOK) (d_filters s) = Some x" "snd x = i"
    using assms by (auto simp: mlvpn_filters_choose_def)
  then obtain f n where "n < length (d_filters s)" "d_filters s ! n = (f, i)" "en_filter E f data" "authenticated (tun s i)"
    by (cases x) (auto simp: find_Some_iff authenticated_def not_less)
  then show ?thesis using nth_mem [of n "d_filters s"] by auto
qed

lemma runs_queue_data:
  assumes inv: "dinv s" and i: "i \<in> set (d_rtuns s)" and ai: "t_addrinfo (tun s i) \<noteq> []" and len: "length data \<le> DEFAULT_MTU"
  shows "runs False i s (queue_data hp data i s)"
proof -
  let ?put = "\<lambda>p. p\<lparr>pkt_len := of_nat (length data), pkt_data := patch (pkt_data p) 0 data\<rparr>"
  let ?f = "\<lambda>t. set_buf hp (pktbuffer_put ?put (get_buf hp t)) t"
  have l: "unat (of_nat (length data) :: u16) = length data" using len by (simp only: unat_of_nat) simp
  have p: "pkt_wf (?put p)" if "pkt_wf p" for p
    using that len unfolding pkt_wf_def by (simp del: unat_of_nat add: l patch_def)
  have b: "buf_ok (pktbuffer_put ?put (get_buf hp (tun s i)))" by (rule buf_ok_put [OF get_buf_ok [OF tunE [OF inv i]] p])
  note t = set_buf_ok [OF tunE [OF inv i] b ai]
  have 1: "runs False i s (Ok (upd i ?f s))"
    by (rule runs_upd [where f = ?f, OF inv _ _ runs_Ok]) (simp_all add: t)
  let ?s1 = "upd i ?f s"
  have ai1: "t_addrinfo (tun ?s1 i) \<noteq> []" using t(3) ai by simp
  have 2: "runs False i ?s1 (Ok (upd i (\<lambda>t. t\<lparr>t_io_write := True\<rparr>) ?s1))"
    by (rule runs_upd [where f = "\<lambda>t. t\<lparr>t_io_write := True\<rparr>", OF runs_Ok_dinv(1) [OF 1] _ _ runs_Ok])
      (use tunE [OF runs_Ok_dinv(1) [OF 1], of i] ai1 in \<open>auto simp: tun_ok_def authenticated_def\<close>)
  have "\<not> DEFAULT_MTU < length data" using len by simp
  then have "queue_data hp data i s = Ok (if \<not> t_io_write (tun ?s1 i) \<and> \<not> mlvpn_cb_is_empty (get_buf hp (tun ?s1 i))
      then upd i (\<lambda>t. t\<lparr>t_io_write := True\<rparr>) ?s1 else ?s1)"
    by (simp only: queue_data_def Let_def if_False)
  then show ?thesis using 1 runs_trans [OF 1 2]
    by (cases "\<not> t_io_write (tun ?s1 i) \<and> \<not> mlvpn_cb_is_empty (get_buf hp (tun ?s1 i))") (simp_all only: if_True if_False simp_thms)
qed

text \<open>A packet from the device is queued on an authenticated tunnel or dropped.\<close>

lemma generic_read_ok:
  assumes inv: "dinv s" and len: "length data \<le> DEFAULT_MTU"
  shows "(\<exists>s'. mlvpn_tuntap_generic_read E data s = Ok s' \<and> runs False 0 s (Ok s') \<and> d_tunnels s' = d_tunnels s) \<or>
     (\<exists>i \<in> set (d_rtuns s). authenticated (tun s i) \<and> runs False i s (mlvpn_tuntap_generic_read E data s))"
proof (cases "mlvpn_filters_choose E data s")
  case (Some i)
  from filters_choose_sound [OF this] obtain f where f: "(f, i) \<in> set (d_filters s)" and a: "authenticated (tun s i)" by blast
  have i: "i \<in> set (d_rtuns s)" using f inv by (force simp: dinv_def base_ok_def)
  have "t_addrinfo (tun s i) \<noteq> []" by (rule authenticated_addr [OF inv i]) (use a in \<open>simp add: authenticated_def\<close>)
  from runs_queue_data [OF inv i this len] show ?thesis using Some a i by (auto simp: mlvpn_tuntap_generic_read_def)
next
  case None
  obtain c w where w: "mlvpn_rtun_wrr_choose (d_tunnels s) (d_wrr s) = (c, w)" by fastforce
  have wf: "wrr_wf (d_wrr s)" using inv by (simp add: dinv_def wrr_inv_def)
  have w': "wrr_wf w" "wrr_tunnel w = wrr_tunnel (d_wrr s)" using wrr_choose_wf [OF wf, of "d_tunnels s"] w
    wrr_choose_tunnels [of "d_tunnels s" "d_wrr s"] by simp_all
  let ?s1 = "s\<lparr>d_wrr := w\<rparr>"
  have inv1: "dinv ?s1" using inv w' by (simp add: dinv_def wrr_inv_def)
  have 1: "runs False j s (Ok ?s1)" for j using inv1 by (simp add: runs_def same_net_def)
  have ch: "mlvpn_rtun_choose s = (c, ?s1)" using w by (simp add: mlvpn_rtun_choose_def)
  show ?thesis
  proof (cases c)
    case None
    then show ?thesis using \<open>mlvpn_filters_choose E data s = None\<close> ch 1 [of 0] by (simp add: mlvpn_tuntap_generic_read_def)
  next
    case (Some i)
    then have "i \<in> set (wrr_tunnel (d_wrr s))" using wrr_choose_in [OF wf] w by blast
    then have i: "i \<in> set (d_rtuns s)" and a: "authenticated (tun s i)" using inv by (auto simp: dinv_def wrr_inv_def)
    have ai: "t_addrinfo (tun ?s1 i) \<noteq> []" using authenticated_addr [OF inv i] a by (simp add: authenticated_def)
    have "runs False i s (queue_data False data i ?s1)"
      by (rule runs_trans [OF 1 runs_queue_data [OF inv1 _ ai len]]) (use i in simp)
    then show ?thesis using \<open>mlvpn_filters_choose E data s = None\<close> ch Some i a by (auto simp: mlvpn_tuntap_generic_read_def)
  qed
qed

lemma runs_tun_write:
  assumes inv: "dinv s" and w: "d_tun_io_write s"
  shows "\<exists>s'. tuntap_write_event s = Ok s' \<and> dinv s' \<and> same_net s s' \<and> d_tunnels s' = d_tunnels s"
proof -
  let ?buf = "snd (pktbuffer_take (d_tun_sbuf s))"
  let ?s1 = "emit (TunWrite (pkt_payload (fst (pktbuffer_take (d_tun_sbuf s))))) (s\<lparr>d_tun_sbuf := ?buf\<rparr>)"
  let ?s2 = "if mlvpn_cb_is_empty (d_tun_sbuf ?s1) then ?s1\<lparr>d_tun_io_write := False\<rparr> else ?s1"
  have rx: "rx_ok s" using inv by (simp add: dinv_def base_ok_def)
  then have ne: "\<not> mlvpn_cb_is_empty (d_tun_sbuf s)" and b: "buf_ok (d_tun_sbuf s)" using w by (auto simp: rx_ok_def dev_ok_def)
  have "tuntap_write_event s = Ok ?s2"
    using ne by (simp add: tuntap_write_event_def mlvpn_tuntap_write_def Let_def split_beta)
  moreover have "buf_ok ?buf" using b by (auto simp: buf_ok_def cb_defs cb_wf_def)
  then have "rx_ok ?s2" using rx w by (auto simp: rx_ok_def dev_ok_def emit_def split: option.splits)
  then have "dinv ?s2" using inv by (simp add: dinv_def base_ok_def wrr_inv_def)
  moreover have "same_net s ?s2" "d_tunnels ?s2 = d_tunnels s" by (simp_all add: same_net_def)
  ultimately show ?thesis by blast
qed

section \<open>Events\<close>

text \<open>What libev calls back for, with the answer of the system call the handler starts with.\<close>

datatype event =
    RtunRead nat recv_result
  | RtunWrite nat
  | RtunTimeout nat
  | DrainTimeout
  | AdjustTimeout
  | TunRead read_result
  | TunWritable

definition handle :: "env \<Rightarrow> event \<Rightarrow> daemon \<Rightarrow> daemon outcome" where
  "handle E ev s = (case ev of
       RtunRead i r \<Rightarrow> mlvpn_rtun_read E r i s
     | RtunWrite i \<Rightarrow> mlvpn_rtun_write E i s
     | RtunTimeout i \<Rightarrow> mlvpn_rtun_check_timeout E i s
     | DrainTimeout \<Rightarrow> mlvpn_rtun_reorder_drain_timeout s
     | AdjustTimeout \<Rightarrow> Ok (mlvpn_rtun_adjust_reorder_timeout s)
     | TunRead r \<Rightarrow> mlvpn_tuntap_read E r s
     | TunWritable \<Rightarrow> tuntap_write_event s)"

text \<open>
  An event is delivered to a watcher that was started; the device stays open and reads at most what fits its buffer (the
  two fatal errors of \<^verbatim>\<open>mlvpn_tuntap_read\<close> are the device being closed or broken).
\<close>

definition enabled :: "env \<Rightarrow> event \<Rightarrow> daemon \<Rightarrow> bool" where
  "enabled E ev s = (case ev of
       RtunRead i r \<Rightarrow> i \<in> set (d_rtuns s) \<and> t_io_read (tun s i) \<and> recv_ok r (tun s i)
     | RtunWrite i \<Rightarrow> i \<in> set (d_rtuns s) \<and> t_io_write (tun s i)
     | RtunTimeout i \<Rightarrow> i \<in> set (d_rtuns s) \<and> t_io_timeout (tun s i)
     | DrainTimeout \<Rightarrow> d_drain_active s
     | AdjustTimeout \<Rightarrow> True
     | TunRead r \<Rightarrow> r \<noteq> ReadEof \<and> (r = ReadError \<longrightarrow> en_again E)
     | TunWritable \<Rightarrow> d_tun_io_write s)"

text \<open>Who may become authenticated by an event.\<close>

definition may_authenticate :: "env \<Rightarrow> event \<Rightarrow> daemon \<Rightarrow> nat \<Rightarrow> bool" where
  "may_authenticate E ev s j = (case ev of RtunRead i r \<Rightarrow> j = i \<and> carries_auth E r i s | _ \<Rightarrow> False)"

definition steps :: "(nat \<Rightarrow> bool) \<Rightarrow> daemon \<Rightarrow> daemon outcome \<Rightarrow> bool" where
  "steps up s r \<longleftrightarrow> (\<exists>s'. r = Ok s' \<and> dinv s' \<and> same_net s s' \<and>
     (\<forall>j. authenticated (tun s' j) \<longrightarrow> authenticated (tun s j) \<or> up j))"

lemma runs_steps:
  assumes "runs a i s r"
  shows "steps (\<lambda>j. j = i \<and> a) s r"
proof -
  obtain s' where s': "r = Ok s'" "dinv s'" "same_net s s'" "\<forall>j. j \<noteq> i \<longrightarrow> tun s' j = tun s j"
    "a \<or> (authenticated (tun s' i) \<longrightarrow> authenticated (tun s i))" using assms unfolding runs_def by blast
  have "authenticated (tun s j) \<or> j = i \<and> a" if "authenticated (tun s' j)" for j
    using s'(4,5) that by (cases "j = i") auto
  then show ?thesis using s'(1-3) unfolding steps_def by blast
qed

lemma runs_quiet: "runs False i s r \<Longrightarrow> steps up s r"
  using runs_steps [of False i s r] by (auto simp: steps_def)

lemma steps_frame:
  assumes "\<exists>s'. r = Ok s' \<and> dinv s' \<and> same_net s s' \<and> d_tunnels s' = d_tunnels s"
  shows "steps up s r"
  using assms by (auto simp: steps_def)

lemma handle_steps:
  assumes inv: "dinv s" and en: "enabled E ev s" and S: "sodium_ok (en_sodium E)"
  shows "steps (may_authenticate E ev s) s (handle E ev s)"
proof (cases ev)
  case (RtunRead i r)
  have "runs (carries_auth E r i s) i s (mlvpn_rtun_read E r i s)"
    by (rule runs_read [OF inv _ _ _ S]) (use en RtunRead in \<open>simp_all add: enabled_def\<close>)
  from runs_steps [OF this] show ?thesis using RtunRead by (simp add: handle_def may_authenticate_def [abs_def])
next
  case (RtunWrite i)
  then show ?thesis using runs_quiet [OF runs_write [OF inv, of i E]] en by (simp add: handle_def enabled_def)
next
  case (RtunTimeout i)
  then show ?thesis using runs_quiet [OF runs_check_timeout [OF inv, of i E]] en by (simp add: handle_def enabled_def)
next
  case DrainTimeout
  have rx: "rx_ok s" using inv by (simp add: dinv_def base_ok_def)
  then have "d_reorder s \<noteq> None" using en DrainTimeout by (auto simp: enabled_def rx_ok_def split: option.splits)
  from drain_timeout_spec [OF rx this] have "\<exists>s'. mlvpn_rtun_reorder_drain_timeout s = Ok s' \<and> rx_ok s' \<and> core s' = core s" by blast
  from runs_quiet [OF runs_core [OF inv this, of 0]] show ?thesis using DrainTimeout by (simp add: handle_def)
next
  case AdjustTimeout
  then show ?thesis using inv by (simp add: handle_def steps_def mlvpn_rtun_adjust_reorder_timeout_def Let_def same_net_def)
next
  case (TunRead r)
  show ?thesis
  proof (cases r)
    case (ReadData data)
    have "length (take (d_maxmtu s) data) \<le> DEFAULT_MTU" using inv by (auto simp: dinv_def base_ok_def)
    from generic_read_ok [OF inv this, of E] have "\<exists>i. runs False i s (mlvpn_tuntap_generic_read E (take (d_maxmtu s) data) s)" by auto
    then show ?thesis using TunRead ReadData runs_quiet by (auto simp: handle_def mlvpn_tuntap_read_def)
  qed (use TunRead en inv runs_quiet [OF runs_Ok [OF inv]] in \<open>simp_all add: handle_def enabled_def mlvpn_tuntap_read_def\<close>)
next
  case TunWritable
  then show ?thesis using steps_frame [OF runs_tun_write [OF inv]] en by (simp add: handle_def enabled_def)
qed

section \<open>Reachable states\<close>

text \<open>
  The state \<^verbatim>\<open>main\<close> sets up before it reads the configuration: the initialisers of the globals, the process title, the pool and
  the device. The options, the key and the reorder buffer are what the configuration makes of them.
\<close>

definition daemon_boot :: "mlvpn_options_s \<Rightarrow> bytes \<Rightarrow> mlvpn_reorder_buffer option \<Rightarrow> daemon" where
  "daemon_boot opts key r =
     mlvpn_tuntap_init \<lparr>d_tunnels = (\<lambda>_. tunnel_zero), d_rtuns = [], d_next = 0, d_wrr = wrr_init, d_filters = [],
       d_options = opts, d_status = mlvpn_status_init, d_key = key, d_data_seq = 0, d_reorder = r,
       d_freebuf = mlvpn_freebuffer_init 512, d_drain_active = False, d_drain_repeat = 0, d_devname = '''', d_maxmtu = 0,
       d_tun_sbuf = mlvpn_pktbuffer_init 0, d_tun_io_write = False,
       d_process_title = (if opt_change_process_title opts then Some (opt_process_name opts) else None),
       d_title = '''', d_out = []\<rparr>"

text \<open>The state after any number of tunnels were created, filters added and events handled.\<close>

inductive reachable :: "daemon \<Rightarrow> bool" where
  boot: "reachable (daemon_boot opts key None)"
| boot_reorder: "0 < k \<Longrightarrow> k \<le> 27 \<Longrightarrow> mlvpn_reorder_create (2 ^ k) = Some b \<Longrightarrow> reachable (daemon_boot opts key (Some b))"
| new_tunnel: "reachable s \<Longrightarrow> length (d_rtuns s) < MAX_TUNNELS \<Longrightarrow> length name < 30 \<Longrightarrow>
     mlvpn_rtun_new E name ba bp fib da dp server tmo fallback bw loss lat s = Ok (Some i, s') \<Longrightarrow> reachable s'"
| new_filter: "reachable s \<Longrightarrow> i \<in> set (d_rtuns s) \<Longrightarrow> mlvpn_filters_add f i s = (n, s') \<Longrightarrow> reachable s'"
| event: "reachable s \<Longrightarrow> sodium_ok (en_sodium E) \<Longrightarrow> enabled E ev s \<Longrightarrow> handle E ev s = Ok s' \<Longrightarrow> reachable s'"

lemma pool_init_ok: "pool_ok (mlvpn_freebuffer_init 512)"
  by (auto simp: pool_ok_def) (simp add: mlvpn_freebuffer_init_def)

lemma boot_ok:
  assumes "r = None \<or> (\<exists>k b. r = Some b \<and> 0 < k \<and> k \<le> 27 \<and> mlvpn_reorder_create (2 ^ k) = Some b)"
  shows "dinv (daemon_boot opts key r)"
proof -
  have "\<exists>k. ro_pool k b (mlvpn_freebuffer_init 512)" if "r = Some b" for b
  proof -
    obtain k where k: "0 < k" "k \<le> 27" "mlvpn_reorder_create (2 ^ k) = Some b" using assms \<open>r = Some b\<close> by auto
    from create_spec [OF k(1,2), of "pool_seq (mlvpn_freebuffer_init 512)"] k(3)
    have b: "ro_inv k (pool_seq (mlvpn_freebuffer_init 512)) b" "\<not> ro_initialized b" by auto
    then have "some_of (window b) = []" by (simp add: ro_inv_def)
    then have "Some i \<notin> set (window b)" for i by (auto simp: filter_empty_conv)
    then show ?thesis using b(1) by (auto simp: ro_pool_def)
  qed
  then have "case r of None \<Rightarrow> True | Some b \<Rightarrow> \<exists>k. ro_pool k b (mlvpn_freebuffer_init 512)" by (simp split: option.split)
  then have "rx_ok (daemon_boot opts key r)" using pool_init_ok
    by (simp add: rx_ok_def dev_ok_def daemon_boot_def mlvpn_tuntap_init_def split: option.splits)
  then show ?thesis
    by (simp add: dinv_def base_ok_def wrr_inv_def daemon_boot_def mlvpn_tuntap_init_def PKTHDRSIZ_def wrr_wf_def wrr_init_def)
qed

lemma new_ok:
  assumes inv: "dinv s" and few: "length (d_rtuns s) < MAX_TUNNELS" and name: "length name < 30"
    and new: "mlvpn_rtun_new E name ba bp fib da dp server tmo fallback bw loss lat s = Ok (Some i, s')"
  shows "dinv s'"
proof -
  define t where "t = rtun_new_struct E name ba bp fib da dp server tmo fallback bw loss lat"
  have s': "update_process_title ((upd (d_next s) (\<lambda>_. t) s)\<lparr>d_next := Suc (d_next s), d_rtuns := d_next s # d_rtuns s\<rparr>) = Ok s'"
    using new by (auto simp: mlvpn_rtun_new_def Let_def obind_eq_Ok_iff t_def split: if_splits)
  let ?s1 = "(upd (d_next s) (\<lambda>_. t) s)\<lparr>d_next := Suc (d_next s), d_rtuns := d_next s # d_rtuns s\<rparr>"
  have tok: "tun_ok t" using name by (simp add: t_def rtun_new_struct_def tun_ok_def idle_def tunnel_zero_def)
  have fresh: "d_next s \<notin> set (d_rtuns s)" using inv by (auto simp: dinv_def base_ok_def)
  have old: "tun ?s1 j = tun s j" "j < Suc (d_next s)" if "j \<in> set (d_rtuns s)" for j
    using that fresh inv by (auto simp: dinv_def base_ok_def)
  have "base_ok ?s1" using inv few tok fresh old by (simp add: dinv_def base_ok_def)
  moreover have "wrr_inv ?s1" using inv old(1) by (simp add: dinv_def wrr_inv_def)
  ultimately have "dinv ?s1" by (simp add: dinv_def)
  from title_inv [OF this] show ?thesis using s' by auto
qed

lemma reachable_dinv: "reachable s \<Longrightarrow> dinv s"
proof (induction rule: reachable.induct)
  case (boot opts key)
  show ?case by (rule boot_ok) simp
next
  case (boot_reorder k b opts key)
  then show ?case by (intro boot_ok) auto
next
  case (new_tunnel s name E)
  show ?case by (rule new_ok [OF new_tunnel.IH new_tunnel.hyps(2-4)])
next
  case (new_filter s i f n s')
  have "dinv (s\<lparr>d_filters := d_filters s @ [(f, i)]\<rparr>)"
    using new_filter by (simp add: dinv_def base_ok_def wrr_inv_def ball_Un)
  then show ?case using new_filter by (simp add: mlvpn_filters_add_def split: if_splits)
next
  case (event s E ev s')
  then show ?case using handle_steps [of s E ev] by (auto simp: steps_def)
qed

section \<open>Properties of the state machine\<close>

text \<open>A system for the examples: every call succeeds, every name resolves to one address of two bytes, the cipher is \<open>tag_box\<close>.\<close>

definition ex_os :: env where
  "ex_os = \<lparr>en_now = 5, en_sodium = tag_box, en_shifts = \<lparr>shl64 = id, shl_int = id\<rparr>, en_sendto = (\<lambda>fd bs addr. int (length bs)),
     en_again = True, en_getaddrinfo = (\<lambda>p n q. [\<lparr>ai_family = 2, ai_socktype = 2, ai_protocol = 0, ai_addr = [1, 2]\<rparr>]),
     en_socket = (\<lambda>k. 7), en_reuseaddr = (\<lambda>fd. 0), en_bind = (\<lambda>fd a. 0), en_getnameinfo = (\<lambda>a. 0), en_random = 3,
     en_filter = (\<lambda>f d. False)\<rparr>"

lemma ex_os_simps [simp]: "en_now ex_os = 5" "en_sodium ex_os = tag_box" "en_again ex_os" "sodium_ok (en_sodium ex_os)"
  "en_sendto ex_os fd bs addr = int (length bs)" "en_getaddrinfo ex_os p n q = [\<lparr>ai_family = 2, ai_socktype = 2, ai_protocol = 0, ai_addr = [1, 2]\<rparr>]"
  "en_socket ex_os k = 7" "en_reuseaddr ex_os fd = 0" "en_bind ex_os fd a = 0" "en_getnameinfo ex_os a = 0"
  by (simp_all add: ex_os_def tag_box_ok)

text \<open>A daemon without a process title and one tunnel, to a server or to a client.\<close>

definition ex_opts :: mlvpn_options_s where
  "ex_opts = mlvpn_options_init\<lparr>opt_change_process_title := False\<rparr>"

definition ex_node :: "bool \<Rightarrow> daemon" where
  "ex_node server = (let s = daemon_boot ex_opts crypto_key_init None in
     (upd 0 (\<lambda>_. rtun_new_struct ex_os ''dsl'' None (Some ''5080'') 0 (Some ''host'') (Some ''5080'') server 60 0 0 100 1000) s)
       \<lparr>d_next := 1, d_rtuns := [0]\<rparr>)"

lemma ex_node_new:
  "mlvpn_rtun_new ex_os ''dsl'' None (Some ''5080'') 0 (Some ''host'') (Some ''5080'') server 60 0 0 100 1000
     (daemon_boot ex_opts crypto_key_init None) = Ok (Some 0, ex_node server)"
  by (simp add: mlvpn_rtun_new_def ex_node_def update_process_title_def daemon_boot_def mlvpn_tuntap_init_def ex_opts_def
      mlvpn_options_init_def upd_def Let_def)

lemma ex_node_reachable: "reachable (ex_node server)"
  by (rule reachable.new_tunnel [OF reachable.boot _ _ ex_node_new])
    (simp_all add: daemon_boot_def mlvpn_tuntap_init_def)

lemma ex_node_simps [simp]:
  "d_rtuns (ex_node server) = [0]" "t_io_timeout (tun (ex_node server) 0)" "t_server_mode (tun (ex_node server) 0) = server"
  "t_status (tun (ex_node server) 0) = MLVPN_DISCONNECTED" "t_fd (tun (ex_node server) 0) = - 1"
  "t_addrinfo (tun (ex_node server) 0) = []" "d_key (ex_node server) = crypto_key_init" "d_filters (ex_node server) = []"
  by (simp_all add: ex_node_def rtun_new_struct_def tunnel_zero_def daemon_boot_def mlvpn_tuntap_init_def Let_def)

text \<open>
  C4: No event makes the daemon fail: from the start-up state, after any number of tunnels (at most 128, names shorter than 30 characters) and filters, and any
  sequence of events, whatever arrives from the network or the device and whatever the system calls answer, the handler of
  the next event ends normally, without an invalid memory access and without a fatal error, in a state that again is one of these.
\<close>

theorem events_never_fail:
  assumes "reachable s" and "sodium_ok (en_sodium E)" and "enabled E ev s"
  shows "\<exists>s'. handle E ev s = Ok s' \<and> reachable s'"
  using handle_steps [OF reachable_dinv [OF assms(1)] assms(3,2)] reachable.event [OF assms] by (auto simp: steps_def)

theorem events_never_fail_witness:
  "reachable (ex_node False) \<and> enabled ex_os (RtunTimeout 0) (ex_node False) \<and>
   (\<exists>s'. handle ex_os (RtunTimeout 0) (ex_node False) = Ok s' \<and> reachable s')"
proof -
  have "enabled ex_os (RtunTimeout 0) (ex_node False)" by (simp add: enabled_def)
  with events_never_fail [OF ex_node_reachable ex_os_simps(4), of "RtunTimeout 0" False] ex_node_reachable show ?thesis by blast
qed

text \<open>
  C5: A packet read from the tun device is queued on an authenticated tunnel of the list or dropped: a tunnel that is not
  authenticated is not touched, and no other tunnel than the chosen one is.
\<close>

theorem tun_data_only_to_authenticated:
  assumes "reachable s" and "length data \<le> 1500"
  shows "\<exists>s'. mlvpn_tuntap_generic_read E data s = Ok s' \<and> (\<forall>j. \<not> authenticated (tun s j) \<longrightarrow> tun s' j = tun s j) \<and>
     (\<exists>i. \<forall>j. j \<noteq> i \<longrightarrow> tun s' j = tun s j)"
  using generic_read_ok [OF reachable_dinv [OF assms(1)] assms(2), of E]
proof (elim disjE)
  assume "\<exists>s'. mlvpn_tuntap_generic_read E data s = Ok s' \<and> runs False 0 s (Ok s') \<and> d_tunnels s' = d_tunnels s"
  then show ?thesis by auto
next
  assume "\<exists>i \<in> set (d_rtuns s). authenticated (tun s i) \<and> runs False i s (mlvpn_tuntap_generic_read E data s)"
  then obtain i s' where i: "authenticated (tun s i)" "mlvpn_tuntap_generic_read E data s = Ok s'" "\<forall>j. j \<noteq> i \<longrightarrow> tun s' j = tun s j"
    unfolding runs_def by blast
  then have "\<not> authenticated (tun s j) \<Longrightarrow> tun s' j = tun s j" for j by (cases "j = i") auto
  then show ?thesis using i by blast
qed

theorem tun_data_only_to_authenticated_witness:
  "reachable (ex_node True) \<and>
   (\<exists>s'. mlvpn_tuntap_generic_read ex_os [69, 0] (ex_node True) = Ok s' \<and> tun s' 0 = tun (ex_node True) 0)"
proof -
  have "\<not> authenticated (tun (ex_node True) 0)" by (simp add: authenticated_def)
  moreover have "length [69, 0 :: u8] \<le> 1500" by simp
  from tun_data_only_to_authenticated [OF ex_node_reachable [of True] this, of ex_os] obtain s' where
    "mlvpn_tuntap_generic_read ex_os [69, 0] (ex_node True) = Ok s'"
    "\<forall>j. \<not> authenticated (tun (ex_node True) j) \<longrightarrow> tun s' j = tun (ex_node True) j" by blast
  ultimately show ?thesis using ex_node_reachable by blast
qed

end
