(* ===== verification/Handshake.thy ===== *)
theory Handshake
  imports Events
begin

text \<open>
  Two daemons that talk to each other (\<^verbatim>\<open>src/mlvpn.c\<close>): how a tunnel becomes authenticated. Shown here: only a packet that opens under the
  shared key authenticates a tunnel, and between two ends that share the key the exchange of challenge and answer does authenticate both.
\<close>

section \<open>Sending a control packet\<close>

text \<open>What sending leaves alone.\<close>

definition conn :: "mlvpn_tunnel_t \<Rightarrow> circular_buffer_t \<times> addrinfo list \<times> int \<times> bool \<times> chap_status \<times> bool" where
  "conn t = (t_sbuf t, t_addrinfo t, t_fd t, t_io_read t, t_status t, t_server_mode t)"

lemma conn_link: "link t' = link t \<Longrightarrow> conn t' = conn t"
  by (simp add: link_def conn_def)

lemma encap_sends:
  assumes "pkt_wf pkt" and "sodium_ok (pe_sodium P)" and "unat (pkt_len pkt) \<le> 1456"
  shows "\<exists>wire t'. rtun_encap P t q pkt = Ok (Some wire, t', if pkt_type pkt = MLVPN_PKT_DATA then q + 1 else q) \<and>
     length wire \<le> DEFAULT_MTU \<and> link t' = link t"
proof -
  obtain h t' q' where h: "proto_header (mlvpn_timestamp64 (pe_now P)) t q (pkt\<lparr>pkt_reorder := 1\<rparr>) = (h, t', q')"
    by (metis prod_cases3)
  obtain c where c: "crypto_encrypt (pe_sodium P) (pe_key P) (pkt_payload (pkt\<lparr>pkt_reorder := 1\<rparr>)) (mlvpn_nonce (proto_seq h) (proto_flow_id h)) = Some c"
    using encrypt_decrypt [OF assms(2)] by blast
  have "\<exists>wire. proto_payload P h (pkt\<lparr>pkt_reorder := 1\<rparr>) = Ok (Some wire) \<and> length wire \<le> DEFAULT_MTU"
    using assms(3) c by (simp add: proto_payload_def Let_def PKTHDRSIZ_def min.coboundedI2)
  then show ?thesis using h proto_header_link [OF h] proto_header_spec(9) [OF h] by (auto simp: rtun_encap_def)
qed

lemma sent_buf_empty:
  assumes "buf_ok b" and "cb_list b = p # ps"
  shows "mlvpn_cb_is_empty (sent_buf b) \<longleftrightarrow> ps = []"
proof -
  have b: "cb_wf b" "\<not> mlvpn_cb_is_empty b" using assms by (auto simp: buf_ok_def cb_empty_iff)
  have "mlvpn_cb_is_empty (sent_buf b) = mlvpn_cb_is_empty (snd (pktbuffer_take b))" by (simp add: sent_buf_def cb_defs)
  then show ?thesis using pktbuffer_take_list(2) [OF b] assms(2) cb_empty_iff [OF cb_wf_take [OF b(1)]] by simp
qed

text \<open>The packet at the front of one of the two queues goes to the network.\<close>

lemma buf_send:
  assumes inv: "dinv s" and i: "i \<in> set (d_rtuns s)" and S: "sodium_ok (en_sodium E)"
    and q: "cb_list (get_buf hp (tun s i)) = p # ps" and p: "unat (pkt_len p) \<le> 1456"
    and ai: "t_addrinfo (tun s i) = a # as" and net: "\<And>fd w. 0 \<le> en_sendto E fd w (ai_addr a)"
  shows "\<exists>s' wire t0 t' q'. mlvpn_rtun_send E i hp s = Ok s' \<and> runs False i s (Ok s') \<and>
     (\<exists>b. conn (tun s' i) = conn (set_buf hp b (tun s i))) \<and> get_buf (\<not> hp) (tun s' i) = get_buf (\<not> hp) (tun s i) \<and>
     (mlvpn_cb_is_empty (get_buf hp (tun s' i)) \<longleftrightarrow> ps = []) \<and> (ps = [] \<longrightarrow> \<not> t_io_write (tun s' i)) \<and>
     (t_io_write (tun s' i) \<longrightarrow> t_io_write (tun s i)) \<and> d_data_seq s' = q' \<and> q' = (if pkt_type p = MLVPN_PKT_DATA then d_data_seq s + 1 else d_data_seq s) \<and> d_wrr s' = d_wrr s \<and>
     d_out s' = d_out s @ [SendTo (t_fd (tun s i)) wire (ai_addr a)] \<and> length wire \<le> DEFAULT_MTU \<and>
     rtun_encap (penv E s) t0 (d_data_seq s) (p\<lparr>pkt_reorder := 1\<rparr>) = Ok (Some wire, t', q') \<and> pkt_wf (p\<lparr>pkt_reorder := 1\<rparr>)"
proof -
  let ?b = "get_buf hp (tun s i)"
  let ?t0 = "set_buf hp (sent_buf ?b) (tun s i)"
  have b: "buf_ok ?b" by (rule get_buf_ok [OF tunE [OF inv i]])
  have ne: "\<not> mlvpn_cb_is_empty ?b" using b q by (simp add: cb_empty_iff buf_ok_def)
  have sp: "sent_pkt ?b = p\<lparr>pkt_reorder := 1\<rparr>" using sent_pkt_hd [OF b ne] q by simp
  note sb = sent_buf_ok [OF b]
  define q' where "q' = (if pkt_type p = MLVPN_PKT_DATA then d_data_seq s + 1 else d_data_seq s)"
  obtain wire t' where e: "rtun_encap (penv E s) ?t0 (d_data_seq s) (sent_pkt ?b) = Ok (Some wire, t', q')"
    "length wire \<le> DEFAULT_MTU" "link t' = link ?t0"
    using encap_sends [OF sb(2), of "penv E s" ?t0 "d_data_seq s"] S p by (auto simp: sp penv_def q'_def)
  have c: "conn t' = conn ?t0" by (rule conn_link [OF e(3)])
  then have a: "t_addrinfo t' = a # as" "t_fd t' = t_fd (tun s i)" using ai by (simp_all add: conn_def set_buf_def split: if_splits)
  have bufs: "get_buf hp t' = sent_buf ?b" "get_buf (\<not> hp) t' = get_buf (\<not> hp) (tun s i)" "t_io_write t' = t_io_write (tun s i)"
    using e(3) by (auto simp: link_def get_buf_def set_buf_def)
  define s2 where "s2 = emit (SendTo (t_fd t') wire (ai_addr a)) ((upd i (\<lambda>_. t') s)\<lparr>d_data_seq := q'\<rparr>)"
  define s3 where "s3 = upd i (\<lambda>t. t\<lparr>t_sentpackets := t_sentpackets t + 1,
     t_sentbytes := t_sentbytes t + of_int (en_sendto E (t_fd t') wire (ai_addr a))\<rparr>) s2"
  define s4 where "s4 = stop_write_if_empty hp i s3"
  have send: "mlvpn_rtun_send E i hp s = Ok s4"
    using net [of "t_fd t'" wire] a sb(3) e(1) by (simp add: rtun_send_unfold Let_def s4_def s3_def s2_def)
  have r: "runs False i s (mlvpn_rtun_send E i hp s)" by (rule runs_send [OF inv i]) (simp add: ai)
  have t3: "tun s3 i = t'\<lparr>t_sentpackets := t_sentpackets t' + 1,
     t_sentbytes := t_sentbytes t' + of_int (en_sendto E (t_fd t') wire (ai_addr a))\<rparr>" by (simp add: s3_def s2_def)
  have g3: "get_buf h (tun s3 i) = get_buf h t'" for h unfolding t3 by (simp add: get_buf_def)
  have em: "mlvpn_cb_is_empty (get_buf hp (tun s3 i)) \<longleftrightarrow> ps = []" unfolding g3 bufs by (rule sent_buf_empty [OF b q])
  have t4: "conn (tun s4 i) = conn t'" "get_buf h (tun s4 i) = get_buf h t'" "ps = [] \<longrightarrow> \<not> t_io_write (tun s4 i)"
    "t_io_write (tun s4 i) \<longrightarrow> t_io_write (tun s i)" for h
    using em g3 [of h] t3 bufs(3) by (simp_all add: s4_def stop_write_if_empty_def conn_def get_buf_def)
  have o: "d_out s4 = d_out s @ [SendTo (t_fd (tun s i)) wire (ai_addr a)]" "d_data_seq s4 = q'" "d_wrr s4 = d_wrr s"
    using a by (simp_all add: s4_def stop_write_if_empty_def s3_def s2_def)
  have e4: "mlvpn_cb_is_empty (get_buf hp (tun s4 i)) \<longleftrightarrow> ps = []" using em by (simp only: t4 g3)
  show ?thesis
    by (intro exI conjI) (rule send, rule r [unfolded send], rule t4(1) [unfolded c], simp only: t4(2) bufs(2), rule e4, rule t4(3), rule t4(4),
      rule o(2), rule q'_def, rule o(3), rule o(1), rule e(2), rule e(1) [unfolded sp], rule sb(2) [unfolded sp])
qed

lemma hp_send:
  assumes "dinv s" and "i \<in> set (d_rtuns s)" and "sodium_ok (en_sodium E)"
    and q: "cb_list (t_hpsbuf (tun s i)) = p # ps" and p: "unat (pkt_len p) \<le> 1456"
    and "t_addrinfo (tun s i) = a # as" and "\<And>fd w. 0 \<le> en_sendto E fd w (ai_addr a)"
  shows "\<exists>s' wire t0 t' q'. mlvpn_rtun_send E i True s = Ok s' \<and> runs False i s (Ok s') \<and> conn (tun s' i) = conn (tun s i) \<and>
     d_out s' = d_out s @ [SendTo (t_fd (tun s i)) wire (ai_addr a)] \<and> length wire \<le> DEFAULT_MTU \<and>
     rtun_encap (penv E s) t0 (d_data_seq s) (p\<lparr>pkt_reorder := 1\<rparr>) = Ok (Some wire, t', q') \<and> pkt_wf (p\<lparr>pkt_reorder := 1\<rparr>)"
proof -
  have hp: "get_buf True (tun s i) = t_hpsbuf (tun s i)" "conn (set_buf True b (tun s i)) = conn (tun s i)" for b
    by (simp_all add: get_buf_def set_buf_def conn_def)
  have q': "cb_list (get_buf True (tun s i)) = p # ps" using q by (simp only: hp)
  show ?thesis using buf_send [OF assms(1-3) q' assms(5-7)] unfolding hp(2) by blast
qed

lemma hp_write:
  assumes "dinv s" and "i \<in> set (d_rtuns s)" and "sodium_ok (en_sodium E)"
    and "cb_list (t_hpsbuf (tun s i)) = p # ps" and "unat (pkt_len p) \<le> 1456"
    and "t_addrinfo (tun s i) = a # as" and "\<And>fd w. 0 \<le> en_sendto E fd w (ai_addr a)" and sbuf: "mlvpn_cb_is_empty (t_sbuf (tun s i))"
  shows "\<exists>s' wire t0 t' q'. mlvpn_rtun_write E i s = Ok s' \<and> runs False i s (Ok s') \<and> conn (tun s' i) = conn (tun s i) \<and>
     d_out s' = d_out s @ [SendTo (t_fd (tun s i)) wire (ai_addr a)] \<and> length wire \<le> DEFAULT_MTU \<and>
     rtun_encap (penv E s) t0 (d_data_seq s) (p\<lparr>pkt_reorder := 1\<rparr>) = Ok (Some wire, t', q') \<and> pkt_wf (p\<lparr>pkt_reorder := 1\<rparr>)"
proof -
  obtain s' wire t0 t' q' where s': "mlvpn_rtun_send E i True s = Ok s'" "runs False i s (Ok s')"
    "conn (tun s' i) = conn (tun s i)" "d_out s' = d_out s @ [SendTo (t_fd (tun s i)) wire (ai_addr a)]" "length wire \<le> DEFAULT_MTU"
    "rtun_encap (penv E s) t0 (d_data_seq s) (p\<lparr>pkt_reorder := 1\<rparr>) = Ok (Some wire, t', q')" "pkt_wf (p\<lparr>pkt_reorder := 1\<rparr>)"
    using hp_send [OF assms(1-7)] by (elim exE conjE) (rule that)
  have "\<not> mlvpn_cb_is_empty (t_hpsbuf (tun s i))"
    using tunE [OF assms(1,2)] assms(4) by (simp add: cb_empty_iff tun_ok_def buf_ok_def)
  moreover have "mlvpn_cb_is_empty (t_sbuf (tun s' i))" using s'(3) sbuf by (simp add: conn_def)
  ultimately have w: "mlvpn_rtun_write E i s = Ok s'" using s'(1) by (simp add: mlvpn_rtun_write_def)
  show ?thesis by (intro exI conjI) (rule w, (rule s')+)
qed

section \<open>Receiving an authentication packet\<close>

lemma change_peer_goes:
  assumes "t_addrinfo (tun s i) = a # as" and "\<forall>ai \<in> set (t_addrinfo (tun s i)). length (ai_addr ai) = length addr"
  shows "\<exists>s'. change_peer E addr i s = Ok (True, s') \<and> t_addrinfo (tun s' i) \<noteq> [] \<and>
     (\<forall>ai \<in> set (t_addrinfo (tun s' i)). length (ai_addr ai) = length addr) \<and>
     (\<exists>as'. s' = s \<or> s' = upd i (\<lambda>t. t\<lparr>t_addrinfo := as'\<rparr>) s)"
  using assms by (auto simp: change_peer_def)

text \<open>
  A datagram the protocol accepts reaches the dispatch. Before that only the counters, the clocks and the address of the peer
  change: \<open>rx_part\<close> is what the handlers behind the dispatch work on.
\<close>

definition rx_part :: "daemon \<Rightarrow> mlvpn_reorder_buffer option \<times> freebuffer_t \<times> bool \<times> circular_buffer_t \<times> bool \<times> effect list" where
  "rx_part s = (d_reorder s, d_freebuf s, d_drain_active s, d_tun_sbuf s, d_tun_io_write s, d_out s)"

lemma rx_part_upd [simp]: "rx_part (upd i f s) = rx_part s"
  by (simp add: rx_part_def upd_def)

lemma read_accepted:
  assumes inv: "dinv s" and i: "i \<in> set (d_rtuns s)" and rd: "t_io_read (tun s i)" and r: "recv_ok (RecvData bs addr) (tun s i)"
    and S: "sodium_ok (en_sodium E)" and acc: "mlvpn_protocol_read (penv E s) (tun s i) (raw_pkt bs) = Some (t, d)"
  shows "\<exists>s2. mlvpn_rtun_read E (RecvData bs addr) i s = mlvpn_rtun_dispatch E d i s2 \<and> runs False i s (Ok s2) \<and>
     t_addrinfo (tun s2 i) \<noteq> [] \<and> t_sbuf (tun s2 i) = t_sbuf (tun s i) \<and> t_hpsbuf (tun s2 i) = t_hpsbuf (tun s i) \<and>
     t_status (tun s2 i) = t_status (tun s i) \<and> t_server_mode (tun s2 i) = t_server_mode (tun s i) \<and>
     t_io_read (tun s2 i) \<and> t_fd (tun s2 i) = t_fd (tun s i) \<and> recv_ok (RecvData bs addr) (tun s2 i) \<and> rx_part s2 = rx_part s"
proof -
  have S': "sodium_ok (pe_sodium (penv E s))" using S by (simp add: penv_def)
  let ?t = "t\<lparr>t_recvbytes := t_recvbytes t + of_nat (length bs), t_recvpackets := t_recvpackets t + 1\<rparr>"
  define s1 where "s1 = upd i (\<lambda>_. ?t) s"
  have l: "link ?t = link (tun s i)" using protocol_read_ok(1) [OF S' acc] by (simp add: link_def)
  then have "link (tun s1 i) = link (tun s i)" by (simp add: s1_def)
  then have f: "t_sbuf (tun s1 i) = t_sbuf (tun s i)" "t_hpsbuf (tun s1 i) = t_hpsbuf (tun s i)"
    "t_status (tun s1 i) = t_status (tun s i)" "t_server_mode (tun s1 i) = t_server_mode (tun s i)"
    "t_io_read (tun s1 i) = t_io_read (tun s i)" "t_fd (tun s1 i) = t_fd (tun s i)" "t_addrinfo (tun s1 i) = t_addrinfo (tun s i)"
    by (simp_all add: link_def)
  have ne: "t_addrinfo (tun s1 i) \<noteq> []" using tunE [OF inv i] rd f(7) by (auto simp: tun_ok_def idle_def)
  then obtain a as where a: "t_addrinfo (tun s1 i) = a # as" by (cases "t_addrinfo (tun s1 i)") auto
  have len: "\<forall>ai \<in> set (t_addrinfo (tun s1 i)). length (ai_addr ai) = length addr" using r f(7) by (simp add: recv_ok_def)
  have 1: "runs False i s (Ok s1)" unfolding s1_def by (rule runs_link [where f = "\<lambda>_. ?t", OF inv l runs_Ok])
  note d1 = runs_Ok_dinv(1) [OF 1]
  have i1: "i \<in> set (d_rtuns s1)" using runs_Ok_dinv(2) [OF 1] i by simp
  obtain s2 as' where s2: "change_peer E addr i s1 = Ok (True, s2)" "t_addrinfo (tun s2 i) \<noteq> []"
    "\<forall>ai \<in> set (t_addrinfo (tun s2 i)). length (ai_addr ai) = length addr"
    "s2 = s1 \<or> s2 = upd i (\<lambda>t. t\<lparr>t_addrinfo := as'\<rparr>) s1" using change_peer_goes [OF a len, of E] by blast
  obtain go s2' where c: "change_peer E addr i s1 = Ok (go, s2')" "runs False i s1 (Ok s2')"
    using runs_change_peer [OF d1 i1 ne len, of E] by blast
  have 2: "runs False i s (Ok s2)" using runs_trans [OF 1 c(2)] c(1) s2(1) by simp
  have eq: "mlvpn_rtun_read E (RecvData bs addr) i s = mlvpn_rtun_dispatch E d i s2"
    using acc s2(1) by (simp add: mlvpn_rtun_read_def raw_pkt_def [symmetric] s1_def [symmetric])
  have "t_sbuf (tun s2 i) = t_sbuf (tun s i)" "t_hpsbuf (tun s2 i) = t_hpsbuf (tun s i)" "t_status (tun s2 i) = t_status (tun s i)"
    "t_server_mode (tun s2 i) = t_server_mode (tun s i)" "t_io_read (tun s2 i)" "t_fd (tun s2 i) = t_fd (tun s i)"
    using s2(4) f rd by (elim disjE; simp)+
  moreover have "recv_ok (RecvData bs addr) (tun s2 i)" using r s2(3) by (simp add: recv_ok_def)
  moreover have "rx_part s2 = rx_part s" using s2(4) by (elim disjE) (simp_all add: s1_def)
  ultimately show ?thesis using eq 2 s2(2) by blast
qed

lemma read_auth:
  assumes inv: "dinv s" and i: "i \<in> set (d_rtuns s)" and rd: "t_io_read (tun s i)" and r: "recv_ok (RecvData bs addr) (tun s i)"
    and S: "sodium_ok (en_sodium E)" and acc: "mlvpn_protocol_read (penv E s) (tun s i) (raw_pkt bs) = Some (t, d)" and d: "is_auth d"
  shows "\<exists>s2. mlvpn_rtun_read E (RecvData bs addr) i s = mlvpn_rtun_send_auth E i s2 \<and> runs False i s (Ok s2) \<and>
     t_addrinfo (tun s2 i) \<noteq> [] \<and> t_sbuf (tun s2 i) = t_sbuf (tun s i) \<and> t_hpsbuf (tun s2 i) = t_hpsbuf (tun s i) \<and>
     t_status (tun s2 i) = t_status (tun s i) \<and> t_server_mode (tun s2 i) = t_server_mode (tun s i) \<and>
     t_io_read (tun s2 i) \<and> t_fd (tun s2 i) = t_fd (tun s i)"
proof -
  have eq: "mlvpn_rtun_dispatch E d i s2 = mlvpn_rtun_send_auth E i s2" for s2
    using d by (auto simp: mlvpn_rtun_dispatch_def is_auth_def)
  show ?thesis using read_accepted [OF inv i rd r S acc] unfolding eq by blast
qed

lemma tick_fields:
  "t_status (tun (mlvpn_rtun_tick E i s) i) = t_status (tun s i)" "t_addrinfo (tun (mlvpn_rtun_tick E i s) i) = t_addrinfo (tun s i)"
  "t_sbuf (tun (mlvpn_rtun_tick E i s) i) = t_sbuf (tun s i)" "t_hpsbuf (tun (mlvpn_rtun_tick E i s) i) = t_hpsbuf (tun s i)"
  "d_rtuns (mlvpn_rtun_tick E i s) = d_rtuns s" "same_net s (mlvpn_rtun_tick E i s)"
  by (simp_all add: mlvpn_rtun_tick_def)

lemma up_fields:
  assumes "dinv s" and "i \<in> set (d_rtuns s)" and "t_addrinfo (tun s i) \<noteq> []"
  shows "\<exists>s'. mlvpn_rtun_status_up E i (mlvpn_rtun_tick E i s) = Ok s' \<and> dinv s' \<and> same_net s s' \<and> t_status (tun s' i) = MLVPN_AUTHOK \<and>
     t_addrinfo (tun s' i) = t_addrinfo (tun s i) \<and> t_sbuf (tun s' i) = t_sbuf (tun s i) \<and> t_hpsbuf (tun s' i) = t_hpsbuf (tun s i)"
proof -
  obtain s' where s': "mlvpn_rtun_status_up E i (mlvpn_rtun_tick E i s) = Ok s'" "dinv s'" "same_net (mlvpn_rtun_tick E i s) s'"
    "d_tunnels s' = (d_tunnels (mlvpn_rtun_tick E i s))(i := went_up E (tun (mlvpn_rtun_tick E i s) i))"
    using status_up_ok [OF dinv_tick [OF assms(1)], of i E i E] assms(2,3) by (auto simp only: tick_fields)
  have "tun s' i = went_up E (tun (mlvpn_rtun_tick E i s) i)" using s'(4) by simp
  then show ?thesis using s'(1,2) same_net_trans [OF tick_fields(6) s'(3)]
    by (intro exI conjI) (assumption | simp add: went_up_def tick_fields)+
qed

lemma client_up:
  assumes "dinv s" and "i \<in> set (d_rtuns s)" and "t_addrinfo (tun s i) \<noteq> []"
    and "\<not> t_server_mode (tun s i)" and "t_status (tun s i) = MLVPN_AUTHSENT"
  shows "\<exists>s'. mlvpn_rtun_send_auth E i s = Ok s' \<and> dinv s' \<and> t_status (tun s' i) = MLVPN_AUTHOK"
  using up_fields [OF assms(1-3), of E] assms(4,5) by (auto simp: mlvpn_rtun_send_auth_def)

lemma server_up:
  assumes inv: "dinv s" and i: "i \<in> set (d_rtuns s)" and ai: "t_addrinfo (tun s i) \<noteq> []"
    and sv: "t_server_mode (tun s i)" and st: "t_status (tun s i) = MLVPN_DISCONNECTED" and e: "mlvpn_cb_is_empty (t_hpsbuf (tun s i))"
  shows "\<exists>s' p. mlvpn_rtun_send_auth E i s = Ok s' \<and> dinv s' \<and> same_net s s' \<and> t_status (tun s' i) = MLVPN_AUTHOK \<and>
     t_addrinfo (tun s' i) = t_addrinfo (tun s i) \<and> t_sbuf (tun s' i) = t_sbuf (tun s i) \<and>
     cb_list (t_hpsbuf (tun s' i)) = [put_auth (CHR ''O'') (CHR ''K'') MLVPN_PKT_AUTH_OK p]"
proof -
  define h where "h = (if mlvpn_cb_is_full (t_hpsbuf (tun s i)) then mlvpn_cb_reset (t_hpsbuf (tun s i)) else t_hpsbuf (tun s i))"
  define b where "b = pktbuffer_put (put_auth (CHR ''O'') (CHR ''K'') MLVPN_PKT_AUTH_OK) h"
  define s1 where "s1 = upd i (\<lambda>t. t\<lparr>t_hpsbuf := b, t_status := (if t_status t < MLVPN_AUTHOK then MLVPN_AUTHSENT else t_status t)\<rparr>) s"
  have h: "buf_ok h" "cb_list h = []"
    using tunE [OF inv i] e by (auto simp: h_def tun_ok_def cb_empty_iff buf_ok_def cb_list_def ring_count_def mlvpn_cb_reset_def cb_wf_def)
  have b: "buf_ok b" using h(1) unfolding b_def by (rule buf_ok_put(1)) (rule pkt_wf_put_auth)
  have l: "cb_list b = [put_auth (CHR ''O'') (CHR ''K'') MLVPN_PKT_AUTH_OK (cb_fresh h)]"
    using h by (simp add: b_def cb_list_put buf_ok_def)
  have f: "t_hpsbuf (tun s1 i) = b" "t_sbuf (tun s1 i) = t_sbuf (tun s i)" "t_addrinfo (tun s1 i) = t_addrinfo (tun s i)" "same_net s s1"
    by (simp_all add: s1_def)
  have d1: "dinv s1" unfolding s1_def
    by (rule inv_upd [OF inv]) (use tunE [OF inv i] ai b st in \<open>auto simp: tun_ok_def authenticated_def\<close>)
  have i1: "i \<in> set (d_rtuns s1)" "t_addrinfo (tun s1 i) \<noteq> []" using i ai f by (simp_all add: same_net_def)
  obtain s2 where s2: "mlvpn_rtun_status_up E i (mlvpn_rtun_tick E i s1) = Ok s2" "dinv s2" "same_net s1 s2" "t_status (tun s2 i) = MLVPN_AUTHOK"
     "t_addrinfo (tun s2 i) = t_addrinfo (tun s1 i)" "t_sbuf (tun s2 i) = t_sbuf (tun s1 i)" "t_hpsbuf (tun s2 i) = t_hpsbuf (tun s1 i)"
    using up_fields [OF d1 i1, of E] by blast
  define s3 where "s3 = upd i (\<lambda>t. t\<lparr>t_io_write := True\<rparr>) s2"
  have eq: "mlvpn_rtun_send_auth E i s = Ok s3"
    using sv st s2(1) by (simp add: mlvpn_rtun_send_auth_def Let_def s1_def b_def h_def s3_def)
  have "dinv s3" using runs_send_auth [OF inv i ai, of E] eq by (simp add: runs_def)
  moreover have "same_net s s3" using same_net_trans [OF f(4) s2(3)] by (simp add: s3_def same_net_def)
  moreover have "t_status (tun s3 i) = MLVPN_AUTHOK" "t_addrinfo (tun s3 i) = t_addrinfo (tun s i)" "t_sbuf (tun s3 i) = t_sbuf (tun s i)"
    "cb_list (t_hpsbuf (tun s3 i)) = [put_auth (CHR ''O'') (CHR ''K'') MLVPN_PKT_AUTH_OK (cb_fresh h)]"
    using s2(4-7) f(1-3) l by (simp_all add: s3_def)
  ultimately show ?thesis using eq by blast
qed

section \<open>The exchange\<close>

lemma client_challenge:
  assumes inv: "dinv s" and i: "i \<in> set (d_rtuns s)" and cl: "\<not> t_server_mode (tun s i)" and st: "t_status (tun s i) < MLVPN_AUTHOK"
    and fd: "0 \<le> t_fd (tun s i)" and e: "mlvpn_cb_is_empty (t_hpsbuf (tun s i))"
  shows "\<exists>s' p. mlvpn_rtun_check_timeout E i s = Ok s' \<and> dinv s' \<and> same_net s s' \<and> t_status (tun s' i) = MLVPN_AUTHSENT \<and>
     \<not> t_server_mode (tun s' i) \<and> t_addrinfo (tun s' i) = t_addrinfo (tun s i) \<and> t_sbuf (tun s' i) = t_sbuf (tun s i) \<and>
     t_io_read (tun s' i) = t_io_read (tun s i) \<and> t_io_write (tun s' i) \<and>
     cb_list (t_hpsbuf (tun s' i)) = [put_auth (CHR ''A'') (CHR ''U'') MLVPN_PKT_AUTH p]"
proof -
  let ?b = "t_hpsbuf (tun s i)"
  define b where "b = pktbuffer_put (put_auth (CHR ''A'') (CHR ''U'') MLVPN_PKT_AUTH) ?b"
  have h: "buf_ok ?b" "cb_list ?b = []" using tunE [OF inv i] e by (auto simp: tun_ok_def cb_empty_iff buf_ok_def)
  have l: "cb_list b = [put_auth (CHR ''A'') (CHR ''U'') MLVPN_PKT_AUTH (cb_fresh ?b)]"
    using h by (simp add: b_def cb_list_put buf_ok_def)
  have ne: "\<not> mlvpn_cb_is_empty b" unfolding b_def by (rule buf_ok_put(2) [OF h(1)]) (rule pkt_wf_put_auth)
  define s1 where "s1 = mlvpn_rtun_challenge_send i
     (upd i (\<lambda>t. t\<lparr>t_conn_attempts := t_conn_attempts t + 1, t_last_connection_attempt := en_now E\<rparr>) s)"
  have f: "t_hpsbuf (tun s1 i) = b" "t_status (tun s1 i) = MLVPN_AUTHSENT" "t_addrinfo (tun s1 i) = t_addrinfo (tun s i)"
    "t_sbuf (tun s1 i) = t_sbuf (tun s i)" "t_io_read (tun s1 i) = t_io_read (tun s i)" "\<not> t_server_mode (tun s1 i)"
    using cl by (simp_all add: s1_def mlvpn_rtun_challenge_send_def b_def)
  have a: "check_alive E i s = Ok s1"
    using st iffD2 [OF not_le st] cl fd by (simp add: check_alive_def mlvpn_rtun_tick_connect_def Let_def s1_def)
  define s2 where "s2 = start_write_if_queued i s1"
  have g: "t_hpsbuf (tun s2 i) = b" "t_status (tun s2 i) = MLVPN_AUTHSENT" "t_addrinfo (tun s2 i) = t_addrinfo (tun s i)"
    "t_sbuf (tun s2 i) = t_sbuf (tun s i)" "t_io_read (tun s2 i) = t_io_read (tun s i)" "\<not> t_server_mode (tun s2 i)" "t_io_write (tun s2 i)"
    using f ne by (simp_all add: s2_def start_write_if_queued_def)
  have eq: "mlvpn_rtun_check_timeout E i s = Ok s2"
    using a g(2) by (simp add: mlvpn_rtun_check_timeout_def s2_def [symmetric] mlvpn_rtun_check_lossy_def mlvpn_rtun_check_slow_def Let_def)
  then have "dinv s2" "same_net s s2" using runs_check_timeout [OF inv i, of E] by (simp_all add: runs_def)
  then show ?thesis using eq g l by blast
qed

lemma raw_pkt_facts:
  assumes "length bs \<le> DEFAULT_MTU"
  shows "pkt_len (raw_pkt bs) = of_nat (length bs)" and "take (length bs) (pkt_data (raw_pkt bs)) = bs"
  using assms by (simp_all add: raw_pkt_def patch_def)

text \<open>A packet of authentication that one end writes and the other end, that shares the key, reads.\<close>

lemma auth_arrives:
  assumes inv: "dinv s" and i: "i \<in> set (d_rtuns s)" and rd: "t_io_read (tun s i)" and r: "recv_ok (RecvData [] addr) (tun s i)"
    and S: "sodium_ok (en_sodium E)" and keys: "same_keys (penv F c) (penv E s)" and len: "length wire \<le> DEFAULT_MTU"
    and enc: "rtun_encap (penv F c) t0 q p = Ok (Some wire, t', q')" and p: "pkt_wf p" "pkt_type p = MLVPN_PKT_AUTH \<or> pkt_type p = MLVPN_PKT_AUTH_OK"
  shows "\<exists>s2. mlvpn_rtun_read E (RecvData wire addr) i s = mlvpn_rtun_send_auth E i s2 \<and> runs False i s (Ok s2) \<and>
     t_addrinfo (tun s2 i) \<noteq> [] \<and> t_sbuf (tun s2 i) = t_sbuf (tun s i) \<and> t_hpsbuf (tun s2 i) = t_hpsbuf (tun s i) \<and>
     t_status (tun s2 i) = t_status (tun s i) \<and> t_server_mode (tun s2 i) = t_server_mode (tun s i)"
proof -
  have "en_sodium F = en_sodium E" using keys by (simp add: same_keys_def penv_def)
  then have S': "sodium_ok (pe_sodium (penv F c))" using S by (simp add: penv_def)
  have ty: "pkt_type p < 64" "pe_cleartext (penv F c) \<Longrightarrow> pkt_type p = MLVPN_PKT_DATA \<Longrightarrow> pkt_len p \<noteq> 0" using p(2) by auto
  obtain t d where d: "mlvpn_protocol_read (penv E s) (tun s i) (raw_pkt wire) = Some (t, d)" "pkt_type d = pkt_type p"
    using encap_read [OF keys S' p(1) ty enc len raw_pkt_facts [OF len], of "tun s i"] by blast
  have "recv_ok (RecvData wire addr) (tun s i)" using r len by (simp add: recv_ok_def)
  moreover have "is_auth d" using d(2) p(2) by (simp add: is_auth_def)
  ultimately show ?thesis using read_auth [OF inv i rd _ S d(1)] by blast
qed

text \<open>Both ends before the exchange: their socket is open and nothing is queued.\<close>

definition ready_client :: "mlvpn_tunnel_t \<Rightarrow> bool" where
  "ready_client t \<longleftrightarrow> \<not> t_server_mode t \<and> t_status t < MLVPN_AUTHOK \<and> 0 \<le> t_fd t \<and> t_io_read t \<and> mlvpn_cb_is_empty (t_hpsbuf t) \<and>
     mlvpn_cb_is_empty (t_sbuf t)"

definition ready_server :: "mlvpn_tunnel_t \<Rightarrow> bool" where
  "ready_server t \<longleftrightarrow> t_server_mode t \<and> t_status t = MLVPN_DISCONNECTED \<and> t_io_read t \<and> mlvpn_cb_is_empty (t_hpsbuf t) \<and>
     mlvpn_cb_is_empty (t_sbuf t)"

text \<open>The datagram a step sent: the last effect.\<close>

definition sent :: "bytes \<Rightarrow> daemon \<Rightarrow> daemon \<Rightarrow> bool" where
  "sent wire s s' \<longleftrightarrow> (\<exists>fd addr. d_out s' = d_out s @ [SendTo fd wire addr])"

lemma same_keysI:
  assumes "d_key s = d_key c" and "opt_cleartext_data (d_options s) = opt_cleartext_data (d_options c)" and "en_sodium E = en_sodium F"
  shows "same_keys (penv F c) (penv E s)"
  using assms by (simp add: same_keys_def penv_def)

text \<open>The first half: the client's timer and write, the server's read.\<close>

lemma challenge_arrives:
  assumes c: "dinv c" "i \<in> set (d_rtuns c)" "ready_client (tun c i)" and s: "dinv s" "j \<in> set (d_rtuns s)" "ready_server (tun s j)"
    and keys: "d_key s = d_key c" "opt_cleartext_data (d_options s) = opt_cleartext_data (d_options c)"
    and S: "sodium_ok S" "en_sodium E2 = S" "en_sodium E3 = S" and net: "\<And>fd w a. 0 \<le> en_sendto E2 fd w a" "recv_ok (RecvData [] from) (tun s j)"
  shows "\<exists>c1 c2 wire s1 p. mlvpn_rtun_check_timeout E1 i c = Ok c1 \<and> mlvpn_rtun_write E2 i c1 = Ok c2 \<and> sent wire c1 c2 \<and> length wire \<le> DEFAULT_MTU \<and>
     mlvpn_rtun_read E3 (RecvData wire from) j s = Ok s1 \<and>
     dinv c2 \<and> same_net c c2 \<and> t_status (tun c2 i) = MLVPN_AUTHSENT \<and> \<not> t_server_mode (tun c2 i) \<and> t_io_read (tun c2 i) \<and>
     t_addrinfo (tun c2 i) = t_addrinfo (tun c i) \<and>
     dinv s1 \<and> same_net s s1 \<and> t_status (tun s1 j) = MLVPN_AUTHOK \<and> t_addrinfo (tun s1 j) \<noteq> [] \<and> mlvpn_cb_is_empty (t_sbuf (tun s1 j)) \<and>
     cb_list (t_hpsbuf (tun s1 j)) = [put_auth (CHR ''O'') (CHR ''K'') MLVPN_PKT_AUTH_OK p]"
proof -
  note rc = c(3) [unfolded ready_client_def] and rs = s(3) [unfolded ready_server_def]
  obtain c1 p where c1: "mlvpn_rtun_check_timeout E1 i c = Ok c1" "dinv c1" "same_net c c1" "t_status (tun c1 i) = MLVPN_AUTHSENT"
    "\<not> t_server_mode (tun c1 i)" "t_addrinfo (tun c1 i) = t_addrinfo (tun c i)" "t_sbuf (tun c1 i) = t_sbuf (tun c i)"
    "t_io_read (tun c1 i) = t_io_read (tun c i)" "cb_list (t_hpsbuf (tun c1 i)) = [put_auth (CHR ''A'') (CHR ''U'') MLVPN_PKT_AUTH p]"
    using client_challenge [OF c(1,2), of E1] rc by blast
  have i1: "i \<in> set (d_rtuns c1)" using c(2) c1(3) by (simp add: same_net_def)
  have "t_addrinfo (tun c i) \<noteq> []" using tunE [OF c(1,2)] rc by (auto simp: tun_ok_def idle_def)
  then obtain a as where a: "t_addrinfo (tun c1 i) = a # as" using c1(6) by (cases "t_addrinfo (tun c i)") auto
  let ?p = "put_auth (CHR ''A'') (CHR ''U'') MLVPN_PKT_AUTH p"
  have "sodium_ok (en_sodium E2)" "unat (pkt_len ?p) \<le> 1456" "pkt_type ?p \<noteq> MLVPN_PKT_DATA" "mlvpn_cb_is_empty (t_sbuf (tun c1 i))"
    using S rc c1(7) by (simp_all add: put_auth_def)
  from hp_write [OF c1(2) i1 this(1) c1(9) this(2) a net(1) this(4)]
  obtain c2 wire t0 t' q' where c2: "mlvpn_rtun_write E2 i c1 = Ok c2" "runs False i c1 (Ok c2)" "conn (tun c2 i) = conn (tun c1 i)"
    "d_out c2 = d_out c1 @ [SendTo (t_fd (tun c1 i)) wire (ai_addr a)]" "length wire \<le> DEFAULT_MTU"
    "rtun_encap (penv E2 c1) t0 (d_data_seq c1) (?p\<lparr>pkt_reorder := 1\<rparr>) = Ok (Some wire, t', q')" "pkt_wf (?p\<lparr>pkt_reorder := 1\<rparr>)"
    by (elim exE conjE) (rule that)
  have k: "same_keys (penv E2 c1) (penv E3 s)" using keys S(2,3) c1(3) by (intro same_keysI) (simp_all add: same_net_def)
  have "t_io_read (tun s j)" "sodium_ok (en_sodium E3)" using rs S by simp_all
  from auth_arrives [OF s(1,2) this(1) net(2) this(2) k c2(5,6,7)] obtain s0 where s0:
    "mlvpn_rtun_read E3 (RecvData wire from) j s = mlvpn_rtun_send_auth E3 j s0" "runs False j s (Ok s0)"
    "t_addrinfo (tun s0 j) \<noteq> []" "t_sbuf (tun s0 j) = t_sbuf (tun s j)" "t_hpsbuf (tun s0 j) = t_hpsbuf (tun s j)"
    "t_status (tun s0 j) = t_status (tun s j)" "t_server_mode (tun s0 j) = t_server_mode (tun s j)" by (auto simp: put_auth_def)
  have j0: "j \<in> set (d_rtuns s0)" "dinv s0" "same_net s s0" using s0(2) s(2) by (simp_all add: runs_def same_net_def)
  obtain s1 p' where s1: "mlvpn_rtun_send_auth E3 j s0 = Ok s1" "dinv s1" "same_net s0 s1" "t_status (tun s1 j) = MLVPN_AUTHOK"
     "t_addrinfo (tun s1 j) = t_addrinfo (tun s0 j)" "t_sbuf (tun s1 j) = t_sbuf (tun s0 j)"
     "cb_list (t_hpsbuf (tun s1 j)) = [put_auth (CHR ''O'') (CHR ''K'') MLVPN_PKT_AUTH_OK p']"
    using server_up [OF j0(2,1) s0(3), of E3] rs s0(5-7) by auto
  have "dinv c2" "same_net c c2" using c2(2) same_net_trans [OF c1(3)] by (auto simp: runs_def)
  moreover have "t_status (tun c2 i) = MLVPN_AUTHSENT" "\<not> t_server_mode (tun c2 i)" "t_io_read (tun c2 i)" "t_addrinfo (tun c2 i) = t_addrinfo (tun c i)"
    using c2(3) c1(4-8) rc by (simp_all add: conn_def)
  moreover have "sent wire c1 c2" using c2(4) by (auto simp: sent_def)
  moreover have "mlvpn_rtun_read E3 (RecvData wire from) j s = Ok s1" "t_addrinfo (tun s1 j) \<noteq> []" "mlvpn_cb_is_empty (t_sbuf (tun s1 j))"
    using s0(1,3,4) s1(1,5,6) rs by simp_all
  ultimately show ?thesis using c1(1) c2(1,5) s1(2,4,7) same_net_trans [OF j0(3) s1(3)] by blast
qed


text \<open>A server whose timer has fired once, and a client whose timer has fired and whose connection then failed.\<close>

abbreviation ex_peer :: "addrinfo list" where
  "ex_peer \<equiv> [\<lparr>ai_family = 2, ai_socktype = 2, ai_protocol = 0, ai_addr = [1, 2]\<rparr>]"

lemma ex_start:
  "t_bindaddr t = '''' \<Longrightarrow> rtun_start_tunnel ex_os t = (True, t\<lparr>t_addrinfo := ex_peer, t_fd := 7, t_last_activity := 5, t_io_read := True,
     t_io_timeout_repeat := MLVPN_IO_TIMEOUT_DEFAULT\<rparr>)"
  by (simp add: rtun_start_tunnel_def Let_def)

lemma ex_node_more [simp]:
  "t_bindaddr (tun (ex_node server) 0) = ''''" "mlvpn_cb_is_empty (t_sbuf (tun (ex_node server) 0))"
  "mlvpn_cb_is_empty (t_hpsbuf (tun (ex_node server) 0))" "d_options (ex_node server) = ex_opts"
  by (simp_all add: ex_node_def rtun_new_struct_def tunnel_zero_def Let_def daemon_boot_def mlvpn_tuntap_init_def)

lemma ex_fired:
  "\<exists>s. handle ex_os (RtunTimeout 0) (ex_node server) = Ok s \<and> d_rtuns s = [0] \<and> d_key s = crypto_key_init \<and> d_options s = ex_opts \<and>
     t_server_mode (tun s 0) = server \<and> t_fd (tun s 0) = 7 \<and> t_io_read (tun s 0) \<and> mlvpn_cb_is_empty (t_sbuf (tun s 0)) \<and>
     t_addrinfo (tun s 0) = ex_peer \<and>
     (server \<longrightarrow> t_status (tun s 0) = MLVPN_DISCONNECTED \<and> mlvpn_cb_is_empty (t_hpsbuf (tun s 0)))"
  by (cases server)
    (simp_all add: handle_def mlvpn_rtun_check_timeout_def check_alive_def mlvpn_rtun_tick_connect_def mlvpn_rtun_start_def ex_start
      start_write_if_queued_def mlvpn_rtun_check_lossy_def mlvpn_rtun_check_slow_def mlvpn_rtun_challenge_send_def Let_def
      less_chap_status_def)

lemma ex_server: "\<exists>s. reachable s \<and> d_rtuns s = [0] \<and> d_key s = crypto_key_init \<and> d_options s = ex_opts \<and> t_addrinfo (tun s 0) = ex_peer \<and>
   ready_server (tun s 0)"
proof -
  obtain s where s: "handle ex_os (RtunTimeout 0) (ex_node True) = Ok s" "d_rtuns s = [0]" "d_key s = crypto_key_init" "d_options s = ex_opts"
    "t_server_mode (tun s 0)" "t_io_read (tun s 0)" "mlvpn_cb_is_empty (t_sbuf (tun s 0))" "t_addrinfo (tun s 0) = ex_peer"
    "t_status (tun s 0) = MLVPN_DISCONNECTED" "mlvpn_cb_is_empty (t_hpsbuf (tun s 0))" using ex_fired [of True] by auto
  have "reachable s" by (rule reachable.event [OF ex_node_reachable ex_os_simps(4) _ s(1)]) (simp add: enabled_def)
  then show ?thesis using s(2-10) by (auto simp: ready_server_def)
qed

lemma ex_client: "\<exists>s. reachable s \<and> d_rtuns s = [0] \<and> d_key s = crypto_key_init \<and> d_options s = ex_opts \<and> t_addrinfo (tun s 0) = ex_peer \<and>
   ready_client (tun s 0)"
proof -
  obtain s where s: "handle ex_os (RtunTimeout 0) (ex_node False) = Ok s" "d_rtuns s = [0]" "d_key s = crypto_key_init" "d_options s = ex_opts"
    "\<not> t_server_mode (tun s 0)" "t_fd (tun s 0) = 7" "t_io_read (tun s 0)" "t_addrinfo (tun s 0) = ex_peer" using ex_fired [of False] by auto
  have r: "reachable s" by (rule reachable.event [OF ex_node_reachable ex_os_simps(4) _ s(1)]) (simp add: enabled_def)
  let ?E = "ex_os\<lparr>en_again := False\<rparr>"
  have i: "0 \<in> set (d_rtuns s)" using s(2) by simp
  obtain s' where s': "mlvpn_rtun_status_down 0 s = Ok s'" "same_net s s'" "d_tunnels s' = (d_tunnels s)(0 := went_down (tun s 0))"
    using status_down_ok [OF reachable_dinv [OF r] i] by blast
  have "handle ?E (RtunRead 0 RecvError) s = Ok s'" using s'(1) by (simp add: handle_def mlvpn_rtun_read_def)
  then have "reachable s'"
    by (intro reachable.event [OF r, of ?E "RtunRead 0 RecvError"]) (use s in \<open>simp_all add: enabled_def recv_ok_def tag_box_ok\<close>)
  moreover have "ready_client (tun s' 0)"
    using s'(3) s(5-7) by (simp add: ready_client_def went_down_def less_chap_status_def cb_defs)
  ultimately show ?thesis using s' s(2-4,8) by (auto simp: same_net_def went_down_def)
qed


text \<open>
  C9: Only the shared key authenticates: whatever the events, a tunnel that becomes authenticated does so while a datagram is read on it whose content opens under the key of this
  daemon with the nonce of the datagram's header, and which is of type \<^verbatim>\<open>AUTH\<close> or \<^verbatim>\<open>AUTH_OK\<close>. No timer, no traffic of the device, no other tunnel and no datagram
  made without the key does.
\<close>

theorem auth_needs_shared_key:
  assumes "reachable s" and "sodium_ok (en_sodium E)" and "enabled E ev s" and "handle E ev s = Ok s'"
    and "authenticated (tun s' j)" and "\<not> authenticated (tun s j)"
  shows "\<exists>bs addr t d m. let p = proto_ntoh (proto_of_mem (zero_pad (PKTHDRSIZ + DEFAULT_MTU) bs)) in
     ev = RtunRead j (RecvData bs addr) \<and> mlvpn_protocol_read (penv E s) (tun s j) (raw_pkt bs) = Some (t, d) \<and> is_auth d \<and>
     crypto_decrypt (en_sodium E) (d_key s) (take (unat (bswap (proto_len p))) (proto_data p)) (mlvpn_nonce (proto_seq p) (proto_flow_id p)) = Some m"
proof -
  have "may_authenticate E ev s j"
    using handle_steps [OF reachable_dinv [OF assms(1)] assms(3,2)] assms(4-6) by (auto simp: steps_def)
  then obtain bs addr t d where d: "ev = RtunRead j (RecvData bs addr)"
    "mlvpn_protocol_read (penv E s) (tun s j) (raw_pkt bs) = Some (t, d)" "is_auth d"
    by (auto simp: may_authenticate_def carries_auth_def split: event.splits)
  have len: "length bs \<le> DEFAULT_MTU" using assms(3) d(1) by (simp add: enabled_def recv_ok_def)
  then have "unat (of_nat (length bs) :: u16) = length bs" by (simp only: unat_of_nat) simp
  then have bs: "take (unat (pkt_len (raw_pkt bs))) (pkt_data (raw_pkt bs)) = bs" using raw_pkt_facts [OF len] by simp
  have "sodium_ok (pe_sodium (penv E s))" using assms(2) by (simp add: penv_def)
  from accepted_packet [OF this d(2)] d(3) have
    "let p = proto_ntoh (proto_of_mem (zero_pad (PKTHDRSIZ + DEFAULT_MTU) bs)) in
       crypto_decrypt (en_sodium E) (d_key s) (take (unat (bswap (proto_len p))) (proto_data p)) (mlvpn_nonce (proto_seq p) (proto_flow_id p)) = Some (pkt_payload d)"
    unfolding bs by (auto simp: is_auth_def penv_def Let_def)
  then show ?thesis using d unfolding Let_def by blast
qed

theorem auth_needs_shared_key_witness:
  "\<exists>s s' bs addr m. let p = proto_ntoh (proto_of_mem (zero_pad (PKTHDRSIZ + DEFAULT_MTU) bs)) in
     reachable s \<and> handle ex_os (RtunRead 0 (RecvData bs addr)) s = Ok s' \<and> authenticated (tun s' 0) \<and> \<not> authenticated (tun s 0) \<and>
     crypto_decrypt tag_box (d_key s) (take (unat (bswap (proto_len p))) (proto_data p)) (mlvpn_nonce (proto_seq p) (proto_flow_id p)) = Some m"
proof -
  obtain c where c: "reachable c" "d_rtuns c = [0]" "d_key c = crypto_key_init" "d_options c = ex_opts" "ready_client (tun c 0)"
    using ex_client by blast
  obtain s where s: "reachable s" "d_rtuns s = [0]" "d_key s = crypto_key_init" "d_options s = ex_opts" "t_addrinfo (tun s 0) = ex_peer"
    "ready_server (tun s 0)" using ex_server by blast
  have f: "0 \<in> set (d_rtuns c)" "0 \<in> set (d_rtuns s)" "d_key s = d_key c" "opt_cleartext_data (d_options s) = opt_cleartext_data (d_options c)"
    "recv_ok (RecvData [] [3, 4]) (tun s 0)" and n: "\<And>fd w a. 0 \<le> en_sendto ex_os fd w a" and e: "en_sodium ex_os = tag_box"
    using c(2-4) s(2-5) by (simp_all add: recv_ok_def)
  obtain c1 c2 wire s1 where h: "mlvpn_rtun_write ex_os 0 c1 = Ok c2" "mlvpn_rtun_read ex_os (RecvData wire [3, 4]) 0 s = Ok s1"
    "t_status (tun s1 0) = MLVPN_AUTHOK" "length wire \<le> DEFAULT_MTU"
    using challenge_arrives [OF reachable_dinv [OF c(1)] f(1) c(5) reachable_dinv [OF s(1)] f(2) s(6) f(3,4) tag_box_ok e e n f(5), of ex_os] by blast
  have h': "handle ex_os (RtunRead 0 (RecvData wire [3, 4])) s = Ok s1" using h(2) by (simp add: handle_def)
  have en: "enabled ex_os (RtunRead 0 (RecvData wire [3, 4])) s" using f(2,5) s(6) h(4) by (simp add: enabled_def recv_ok_def ready_server_def)
  have a: "authenticated (tun s1 0)" "\<not> authenticated (tun s 0)"
    using h(3) s(6) by (simp_all add: authenticated_def ready_server_def less_eq_chap_status_def)
  from auth_needs_shared_key [OF s(1) ex_os_simps(4) en h' a] show ?thesis using s(1) h' a by (auto simp: Let_def)
qed

text \<open>
  The guard against a change of the peer's address, \<^verbatim>\<open>! tun->status >= MLVPN_AUTHOK\<close>, compares a negation, 0 or 1, with 2: it never holds, and an accepted packet from
  another address moves the tunnel there, authenticated or not.
\<close>

lemma peer_change_never_refused:
  assumes "t_addrinfo (tun s i) = a # as" and "length (ai_addr a) = length addr" and "0 \<le> en_getnameinfo E addr"
  shows "\<exists>s'. change_peer E addr i s = Ok (True, s') \<and> ai_addr (hd (t_addrinfo (tun s' i))) = addr"
  using assms by (auto simp: change_peer_def patch_def)

end
