(* ===== verification/Configlib.thy ===== *)
theory Configlib
  imports Tunnel
begin

text \<open>
  The configuration file (\<^verbatim>\<open>src/configlib.c\<close>): reading characters into lines, comments, section names, lines of the form \<open>variable = value\<close>, the
  chain of settings and its accessors. Shown here: reading never leaves the line buffer and ends with a well-formed chain for every file; a file written
  from settings is read back as those settings, in order; a lookup finds the first setting of a variable in its section.
\<close>

section \<open>The chain of settings\<close>

record confObj_t =
  co_var :: string
  co_val :: string

text \<open>A node of the chain; a chain is the list of its nodes, and \<^verbatim>\<open>_conf_parseConfig\<close> starts with one empty node.\<close>

record config_t =
  cf_conf :: "confObj_t option"
  cf_section :: "string option"

type_synonym config = "config_t list"

definition config_empty :: config_t where
  "config_empty = \<lparr>cf_conf = None, cf_section = None\<rparr>"

text \<open>\<open>None\<close> is the return of \<^verbatim>\<open>NULL\<close>. The empty list is a null pointer.\<close>

definition conf_set_node :: "config \<Rightarrow> confObj_t \<Rightarrow> string option \<Rightarrow> config option" where
  "conf_set_node start obj section =
     (case start of
        [] \<Rightarrow> None
      | node # rest \<Rightarrow>
          (case section of
             None \<Rightarrow> None
           | Some sec \<Rightarrow>
               if cf_conf node = None then Some [\<lparr>cf_conf = Some obj, cf_section = Some sec\<rparr>]
               else Some (start @ [\<lparr>cf_conf = Some obj, cf_section = Some sec\<rparr>])))"

definition conf_setValue :: "config \<Rightarrow> string option \<Rightarrow> string option \<Rightarrow> string option \<Rightarrow> config" where
  "conf_setValue start var val section =
     (case (var, val) of
        (Some v, Some x) \<Rightarrow>
          (case conf_set_node (if start = [] then [config_empty] else start) \<lparr>co_var = v, co_val = x\<rparr> section of
             None \<Rightarrow> [] | Some c \<Rightarrow> c)
      | _ \<Rightarrow> start)"

text \<open>The value, and the rest of the chain after it.\<close>

fun conf_getValue :: "config \<Rightarrow> string option \<Rightarrow> string \<Rightarrow> string option \<times> config" where
  "conf_getValue [] section var = (None, [])"
| "conf_getValue (node # rest) section var =
     (case cf_conf node of
        None \<Rightarrow> conf_getValue rest section var
      | Some obj \<Rightarrow>
          if \<not> mystr_eq (cf_section node) section then conf_getValue rest section var
          else if co_var obj = var then (Some (co_val obj), rest)
          else conf_getValue rest section var)"

text \<open>The lines \<^verbatim>\<open>_conf_printConfig\<close> prints.\<close>

fun conf_printConfig :: "config \<Rightarrow> string list" where
  "conf_printConfig [] = []"
| "conf_printConfig (node # rest) =
     (case cf_conf node of
        None \<Rightarrow> []
      | Some obj \<Rightarrow> [''section: '' @ (case cf_section node of None \<Rightarrow> ''(null)'' | Some s \<Rightarrow> s) @ '', var: `'' @ co_var obj @
          [CHR 0x27] @ '' val: `'' @ co_val obj @ [CHR 0x27, CHR 0x0A]]) @ conf_printConfig rest"

section \<open>Typed accessors\<close>

text \<open>
  \<^verbatim>\<open>atoi\<close>: white space, a sign, digits; a value outside of \<^verbatim>\<open>int\<close> is undefined. \<^verbatim>\<open>fatalx\<close> stops the program with the message.
\<close>

definition digit_of :: "char \<Rightarrow> int option" where
  "digit_of c = (let n = of_char c :: nat in if 48 \<le> n \<and> n \<le> 57 then Some (int n - 48) else None)"

fun atoi_digits :: "int \<Rightarrow> string \<Rightarrow> int" where
  "atoi_digits acc [] = acc"
| "atoi_digits acc (c # cs) = (case digit_of c of None \<Rightarrow> acc | Some d \<Rightarrow> atoi_digits (10 * acc + d) cs)"

definition is_space :: "char \<Rightarrow> bool" where
  "is_space c \<longleftrightarrow> c = CHR '' '' \<or> (9 \<le> (of_char c :: nat) \<and> (of_char c :: nat) \<le> 13)"

definition atoi :: "string \<Rightarrow> int outcome" where
  "atoi s =
     (let v = (case dropWhile is_space s of
                 [] \<Rightarrow> 0
               | c # cs \<Rightarrow> if c = CHR ''-'' then - atoi_digits 0 cs else if c = CHR ''+'' then atoi_digits 0 cs else atoi_digits 0 (c # cs))
      in if - (2 ^ 31) \<le> v \<and> v < 2 ^ 31 then Ok v else Fault Undefined)"

text \<open>\<open>msg\<close> is the message of a setting that is mandatory; the calls with \<^verbatim>\<open>exit_n\<close> 0 have none.\<close>

definition conf_set_str :: "config \<Rightarrow> string option \<Rightarrow> string \<Rightarrow> string option \<Rightarrow> string option \<Rightarrow> (string option) outcome" where
  "conf_set_str config section type def msg =
     (case fst (conf_getValue config section type) of
        None \<Rightarrow> (case msg of Some m \<Rightarrow> Fatal m | None \<Rightarrow> Ok def)
      | Some v \<Rightarrow> Ok (Some v))"

definition conf_set_uint :: "config \<Rightarrow> string option \<Rightarrow> string \<Rightarrow> u32 \<Rightarrow> u32 outcome" where
  "conf_set_uint config section type def =
     (case fst (conf_getValue config section type) of
        None \<Rightarrow> Ok def
      | Some v \<Rightarrow> obind (atoi v) (\<lambda>i. Ok (of_int i)))"

definition conf_set_bool :: "config \<Rightarrow> string option \<Rightarrow> string \<Rightarrow> int \<Rightarrow> int outcome" where
  "conf_set_bool config section type def =
     (case fst (conf_getValue config section type) of
        None \<Rightarrow> Ok def
      | Some v \<Rightarrow> obind (atoi v) (\<lambda>i. Ok (if i \<noteq> 1 then 0 else i)))"

section \<open>Lines\<close>

abbreviation (input) DQUOTE :: char where "DQUOTE \<equiv> CHR 0x22"
abbreviation (input) LF :: char where "LF \<equiv> CHR 0x0A"
abbreviation (input) CR :: char where "CR \<equiv> CHR 0x0D"

text \<open>The characters of a line before a comment; \<open>q\<close> is inside of quotes.\<close>

fun strip_loop :: "bool \<Rightarrow> string \<Rightarrow> string" where
  "strip_loop q [] = []"
| "strip_loop q (c # cs) =
     (if c = DQUOTE then c # strip_loop (\<not> q) cs
      else if c = CHR ''#'' \<and> \<not> q then []
      else c # strip_loop q cs)"

text \<open>The array of \<^verbatim>\<open>size + 1\<close> characters \<^verbatim>\<open>_conf_strip_comment\<close> returns, filled with NUL.\<close>

definition conf_strip_comment :: "string \<Rightarrow> string option" where
  "conf_strip_comment line =
     (let new = strip_loop False line in
      if new = [] then None else Some (new @ replicate (length line + 1 - length new) NUL))"

text \<open>The loop of \<^verbatim>\<open>_conf_get_section\<close>, with the name so far once a bracket was opened; the three errors return \<^verbatim>\<open>NULL\<close>.\<close>

fun section_loop :: "string option \<Rightarrow> string \<Rightarrow> string option" where
  "section_loop sec [] = None"
| "section_loop sec (c # cs) =
     (if c = CHR ''['' then (case sec of Some s \<Rightarrow> None | None \<Rightarrow> section_loop (Some []) cs)
      else if c = CHR '']'' then sec
      else section_loop (map_option (\<lambda>s. s @ [c]) sec) cs)"

definition conf_get_section :: "string \<Rightarrow> nat \<Rightarrow> string option" where
  "conf_get_section line linelen = map_option cstr (section_loop None (take linelen line))"

text \<open>The scan of \<^verbatim>\<open>_conf_parseLine\<close>: \<open>sc_buf\<close> is \<^verbatim>\<open>buf\<close> up to \<^verbatim>\<open>j\<close>.\<close>

record scan =
  sc_quote :: bool
  sc_space :: bool
  sc_var :: "string option"
  sc_buf :: string

definition isascii :: "char \<Rightarrow> bool" where
  "isascii c \<longleftrightarrow> (of_char c :: nat) < 128"

text \<open>\<^verbatim>\<open>for (k = len-1; (k > 0) && (buf[k] == ' '); k--); buf[k+1] = 0;\<close>\<close>

function strip_end :: "string \<Rightarrow> string" where
  "strip_end s = (if 1 < length s \<and> last s = CHR '' '' then strip_end (butlast s) else s)"
  by pat_completeness auto
termination
  by (relation "measure length") auto

declare strip_end.simps [simp del]

definition scan_char :: "char \<Rightarrow> scan \<Rightarrow> scan option" where
  "scan_char c s =
     (if c = DQUOTE then Some (s\<lparr>sc_quote := \<not> sc_quote s\<rparr>)
      else if c = CHR ''='' then
        if sc_quote s then Some (s\<lparr>sc_buf := sc_buf s @ [c]\<rparr>)
        else if sc_buf s = [] then None
        else if sc_var s \<noteq> None then None
        else Some (s\<lparr>sc_var := Some (strip_end (sc_buf s)), sc_buf := []\<rparr>)
      else
        let space = (if c = CHR '' '' \<and> \<not> sc_space s then True else if c \<noteq> CHR '' '' then False else sc_space s);
            s1 = s\<lparr>sc_space := space\<rparr> in
        if space \<and> \<not> sc_quote s then Some s1
        else if space \<and> sc_buf s = [] then Some s1
        else if \<not> isascii c then None
        else Some (s1\<lparr>sc_buf := sc_buf s @ [c]\<rparr>))"

fun scan_line :: "string \<Rightarrow> scan \<Rightarrow> scan option" where
  "scan_line [] s = Some s"
| "scan_line (c # cs) s = (case scan_char c s of None \<Rightarrow> None | Some s' \<Rightarrow> scan_line cs s')"

text \<open>\<^verbatim>\<open>for (k = 0; (k < len) && (buf[k] == ' '); k++) buf++;\<close> advances index and pointer.\<close>

function skip_lead :: "nat \<Rightarrow> nat \<Rightarrow> string \<Rightarrow> string" where
  "skip_lead k len b = (if k < len \<and> k < length b \<and> b ! k = CHR '' '' then skip_lead (k + 1) len (tl b) else b)"
  by pat_completeness auto
termination
  by (relation "measure (\<lambda>(k, len, b). len - k)") auto

declare skip_lead.simps [simp del]

definition conf_parseLine :: "string \<Rightarrow> confObj_t option" where
  "conf_parseLine line =
     (if line = [] then None
      else case scan_line line \<lparr>sc_quote = False, sc_space = False, sc_var = None, sc_buf = []\<rparr> of
          None \<Rightarrow> None
        | Some s \<Rightarrow>
            (case sc_var s of
               None \<Rightarrow> None
             | Some var \<Rightarrow>
                 if sc_buf s = [] then None
                 else let b = strip_end (sc_buf s); v = skip_lead 0 (length b - 1) b in
                   if v = [] then None else Some \<lparr>co_var = var, co_val = v\<rparr>))"

section \<open>Files\<close>

text \<open>The variables of \<^verbatim>\<open>_conf_parseConfig\<close>: \<open>pr_buf\<close> is \<^verbatim>\<open>buf\<close> up to \<^verbatim>\<open>i\<close>.\<close>

record parser =
  pr_buf :: string
  pr_bufsize :: nat
  pr_section :: "string option"
  pr_config :: config

definition parse_line :: "parser \<Rightarrow> parser" where
  "parse_line s =
     (case conf_strip_comment (pr_buf s) of
        None \<Rightarrow> s
      | Some newline \<Rightarrow>
          (case conf_get_section newline (length (pr_buf s)) of
             Some sec \<Rightarrow> s\<lparr>pr_section := Some sec\<rparr>
           | None \<Rightarrow>
               (case conf_parseLine (cstr newline) of
                  None \<Rightarrow> s
                | Some obj \<Rightarrow>
                    (case pr_section s of
                       None \<Rightarrow> s
                     | Some sec \<Rightarrow>
                         (case conf_set_node (pr_config s) obj (Some sec) of None \<Rightarrow> s | Some c \<Rightarrow> s\<lparr>pr_config := c\<rparr>)))))"

definition grow :: "parser \<Rightarrow> parser" where
  "grow s = (if pr_bufsize s < length (pr_buf s) + 64 then s\<lparr>pr_bufsize := pr_bufsize s + 64\<rparr> else s)"

definition parse_char :: "parser \<Rightarrow> char \<Rightarrow> parser outcome" where
  "parse_char s0 c =
     (let s = grow s0 in
      if c = CR then Ok s
      else if pr_bufsize s \<le> length (pr_buf s) then Fault OutOfBounds
      else if c = LF then Ok ((parse_line s)\<lparr>pr_buf := []\<rparr>)
      else Ok (s\<lparr>pr_buf := pr_buf s @ [c]\<rparr>))"

definition parser_init :: parser where
  "parser_init = \<lparr>pr_buf = [], pr_bufsize = 256, pr_section = None, pr_config = [config_empty]\<rparr>"

text \<open>The file as the characters up to its end or to a read error, for which \<^verbatim>\<open>NULL\<close> is returned.\<close>

definition conf_parseConfig :: "string \<Rightarrow> bool \<Rightarrow> (config option) outcome" where
  "conf_parseConfig chars error =
     obind (ofold parse_char parser_init chars) (\<lambda>s. Ok (if error then None else Some (pr_config s)))"

section \<open>Reading stays inside of the line buffer\<close>

definition buf_inv :: "parser \<Rightarrow> bool" where
  "buf_inv s \<longleftrightarrow> length (pr_buf s) + 63 \<le> pr_bufsize s"

lemma parse_line_frame [simp]: "pr_buf (parse_line s) = pr_buf s" "pr_bufsize (parse_line s) = pr_bufsize s"
  by (simp_all add: parse_line_def split: option.splits)

lemma grow_fields [simp]:
  "pr_buf (grow s) = pr_buf s" "pr_section (grow s) = pr_section s" "pr_config (grow s) = pr_config s"
  by (simp_all add: grow_def)

lemma grow_enough: "buf_inv s \<Longrightarrow> length (pr_buf s) + 64 \<le> pr_bufsize (grow s)"
  by (simp add: grow_def buf_inv_def)

lemma parse_char_ok:
  assumes "buf_inv s"
  shows "\<exists>s'. parse_char s c = Ok s' \<and> buf_inv s'"
  using grow_enough [OF assms] by (auto simp: parse_char_def Let_def buf_inv_def)

lemma parse_chars_ok:
  assumes "buf_inv s"
  shows "\<exists>s'. ofold parse_char s cs = Ok s' \<and> buf_inv s'"
  using assms
proof (induction cs arbitrary: s)
  case (Cons c cs)
  obtain s1 where "parse_char s c = Ok s1" "buf_inv s1" using parse_char_ok [OF Cons.prems] by blast
  then show ?case using Cons.IH [of s1] by simp
qed simp

lemma buf_inv_init: "buf_inv parser_init"
  by (simp add: buf_inv_def parser_init_def)

section \<open>What is read is well-formed\<close>

definition text_ok :: "string \<Rightarrow> bool" where
  "text_ok s \<longleftrightarrow> s \<noteq> [] \<and> (\<forall>c \<in> set s. isascii c)"

definition node_ok :: "config_t \<Rightarrow> bool" where
  "node_ok n \<longleftrightarrow> (\<exists>obj sec. n = \<lparr>cf_conf = Some obj, cf_section = Some sec\<rparr> \<and> text_ok (co_var obj) \<and> text_ok (co_val obj))"

definition config_ok :: "config \<Rightarrow> bool" where
  "config_ok c \<longleftrightarrow> c = [config_empty] \<or> c \<noteq> [] \<and> (\<forall>n \<in> set c. node_ok n)"

lemma strip_end_ok: "text_ok s \<Longrightarrow> text_ok (strip_end s)"
proof (induction s rule: strip_end.induct)
  case (1 s)
  show ?case
  proof (cases "1 < length s \<and> last s = CHR '' ''")
    case True
    then have "text_ok (butlast s)" using 1(2) by (auto simp: text_ok_def dest: in_set_butlastD simp flip: length_0_conv)
    then show ?thesis using 1(1) True by (subst strip_end.simps) simp
  next
    case False
    then show ?thesis using 1(2) by (subst strip_end.simps) auto
  qed
qed

lemma skip_lead_set: "set (skip_lead k len b) \<subseteq> set b"
proof (induction k len b rule: skip_lead.induct)
  case (1 k len b)
  moreover have "set (tl b) \<subseteq> set b" by (cases b) auto
  ultimately show ?case by (subst skip_lead.simps) auto
qed

definition scan_ok :: "scan \<Rightarrow> bool" where
  "scan_ok s \<longleftrightarrow> (\<forall>c \<in> set (sc_buf s). isascii c) \<and> (case sc_var s of None \<Rightarrow> True | Some v \<Rightarrow> text_ok v)"

lemma scan_char_ok: "scan_char c s = Some s' \<Longrightarrow> scan_ok s \<Longrightarrow> scan_ok s'"
  using strip_end_ok [of "sc_buf s"]
  by (auto simp: scan_char_def scan_ok_def Let_def isascii_def text_ok_def split: if_splits option.splits)

lemma scan_line_ok: "scan_line cs s = Some s' \<Longrightarrow> scan_ok s \<Longrightarrow> scan_ok s'"
  by (induction cs arbitrary: s) (auto split: option.splits dest: scan_char_ok)

lemma parseLine_ok:
  assumes "conf_parseLine line = Some obj"
  shows "text_ok (co_var obj) \<and> text_ok (co_val obj)"
proof -
  obtain s var where s: "scan_line line \<lparr>sc_quote = False, sc_space = False, sc_var = None, sc_buf = []\<rparr> = Some s" "sc_var s = Some var"
    "sc_buf s \<noteq> []" "obj = \<lparr>co_var = var, co_val = skip_lead 0 (length (strip_end (sc_buf s)) - 1) (strip_end (sc_buf s))\<rparr>"
    "co_val obj \<noteq> []"
    using assms by (auto simp: conf_parseLine_def Let_def split: if_splits option.splits)
  have "scan_ok s" by (rule scan_line_ok [OF s(1)]) (simp add: scan_ok_def)
  then have "text_ok (sc_buf s)" "text_ok var" using s(2,3) by (simp_all add: scan_ok_def text_ok_def)
  then show ?thesis using strip_end_ok [of "sc_buf s"] s(4,5) skip_lead_set [of 0 "length (strip_end (sc_buf s)) - 1" "strip_end (sc_buf s)"]
    by (auto simp: text_ok_def)
qed

lemma set_node_ok:
  assumes "config_ok c" and "conf_set_node c obj sec = Some c'" and "text_ok (co_var obj)" and "text_ok (co_val obj)"
  shows "config_ok c'"
proof -
  obtain x where x: "sec = Some x" using assms(2) by (auto simp: conf_set_node_def split: list.splits option.splits)
  have n: "node_ok \<lparr>cf_conf = Some obj, cf_section = Some x\<rparr>" using assms(3,4) by (simp add: node_ok_def)
  have "cf_conf n \<noteq> None" if "node_ok n" for n using that by (auto simp: node_ok_def)
  then show ?thesis using assms(1,2) n x by (auto simp: config_ok_def conf_set_node_def config_empty_def split: list.splits if_splits)
qed

lemma parse_line_config:
  assumes "config_ok (pr_config s)"
  shows "config_ok (pr_config (parse_line s))"
  using assms set_node_ok parseLine_ok by (auto simp: parse_line_def split: option.splits)

lemma parse_chars_config: "ofold parse_char s cs = Ok s' \<Longrightarrow> config_ok (pr_config s) \<Longrightarrow> config_ok (pr_config s')"
  by (erule ofold_invariant [where P = "\<lambda>s. config_ok (pr_config s)"])
    (auto simp: parse_char_def Let_def parse_line_config split: if_splits)

section \<open>Whole lines\<close>

text \<open>What a line does to the section and the chain.\<close>

definition line_effect :: "string \<Rightarrow> string option \<times> config \<Rightarrow> string option \<times> config" where
  "line_effect line x =
     (let s = parse_line \<lparr>pr_buf = line, pr_bufsize = 0, pr_section = fst x, pr_config = snd x\<rparr> in (pr_section s, pr_config s))"

lemma parse_line_effect: "(pr_section (parse_line s), pr_config (parse_line s)) = line_effect (pr_buf s) (pr_section s, pr_config s)"
  by (auto simp: line_effect_def parse_line_def Let_def split: option.splits)

lemma parse_plain:
  assumes "buf_inv s" and "CR \<notin> set cs" and "LF \<notin> set cs"
  shows "\<exists>s'. ofold parse_char s cs = Ok s' \<and> buf_inv s' \<and> pr_buf s' = pr_buf s @ cs \<and> pr_section s' = pr_section s \<and> pr_config s' = pr_config s"
  using assms
proof (induction cs arbitrary: s)
  case (Cons c cs)
  obtain s1 where s1: "parse_char s c = Ok s1" "buf_inv s1" "pr_buf s1 = pr_buf s @ [c]" "pr_section s1 = pr_section s" "pr_config s1 = pr_config s"
    using Cons.prems grow_enough [OF Cons.prems(1)] by (auto simp: parse_char_def Let_def buf_inv_def)
  then show ?case using Cons.IH [of s1] Cons.prems by auto
qed simp

lemma parse_one_line:
  assumes "buf_inv s" and "pr_buf s = []" and "CR \<notin> set cs" and "LF \<notin> set cs"
  shows "\<exists>s'. ofold parse_char s (cs @ [LF]) = Ok s' \<and> buf_inv s' \<and> pr_buf s' = [] \<and>
     (pr_section s', pr_config s') = line_effect cs (pr_section s, pr_config s)"
proof -
  obtain s1 where s1: "ofold parse_char s cs = Ok s1" "buf_inv s1" "pr_buf s1 = cs" "pr_section s1 = pr_section s" "pr_config s1 = pr_config s"
    using parse_plain [OF assms(1,3,4)] assms(2) by auto
  have g: "length cs + 64 \<le> pr_bufsize (grow s1)" using grow_enough [OF s1(2)] s1(3) by simp
  then have c: "parse_char s1 LF = Ok ((parse_line (grow s1))\<lparr>pr_buf := []\<rparr>)" using s1(3) by (simp add: parse_char_def Let_def)
  have "buf_inv ((parse_line (grow s1))\<lparr>pr_buf := []\<rparr>)" using g by (simp add: buf_inv_def)
  moreover have "(pr_section (parse_line (grow s1)), pr_config (parse_line (grow s1))) = line_effect cs (pr_section s, pr_config s)"
    using s1(3-5) by (simp add: parse_line_effect)
  ultimately show ?thesis using s1(1) c by (auto simp: ofold_append)
qed

section \<open>Files made of settings\<close>

type_synonym setting = "string \<times> string \<times> string"

definition node_of :: "setting \<Rightarrow> config_t" where
  "node_of x = (case x of (sec, var, val) \<Rightarrow> \<lparr>cf_conf = Some \<lparr>co_var = var, co_val = val\<rparr>, cf_section = Some sec\<rparr>)"

text \<open>A setting in a section of its own, the value in quotes.\<close>

definition section_line :: "string \<Rightarrow> string" where
  "section_line sec = CHR ''['' # sec @ '']''"

definition setting_line :: "string \<Rightarrow> string \<Rightarrow> string" where
  "setting_line var val = var @ '' = '' @ DQUOTE # val @ [DQUOTE]"

definition write_setting :: "setting \<Rightarrow> string" where
  "write_setting x = (case x of (sec, var, val) \<Rightarrow> section_line sec @ [LF] @ setting_line var val @ [LF])"

text \<open>
  Sections without brackets, quotes, comment signs and line ends; variables in addition without spaces and equality signs; values may contain comment signs,
  equality signs and spaces inside. A bracket in a value would be read as a section.
\<close>

definition section_ok :: "string \<Rightarrow> bool" where
  "section_ok s \<longleftrightarrow> set s \<inter> {NUL, LF, CR, DQUOTE, CHR ''#'', CHR ''['', CHR '']''} = {}"

definition var_ok :: "string \<Rightarrow> bool" where
  "var_ok s \<longleftrightarrow> text_ok s \<and> set s \<inter> {NUL, LF, CR, DQUOTE, CHR ''#'', CHR ''['', CHR '']'', CHR ''='', CHR '' ''} = {}"

definition val_ok :: "string \<Rightarrow> bool" where
  "val_ok s \<longleftrightarrow> text_ok s \<and> set s \<inter> {NUL, LF, CR, DQUOTE, CHR ''['', CHR '']''} = {} \<and> hd s \<noteq> CHR '' '' \<and> last s \<noteq> CHR '' ''"

definition setting_ok :: "setting \<Rightarrow> bool" where
  "setting_ok x \<longleftrightarrow> (case x of (sec, var, val) \<Rightarrow> section_ok sec \<and> var_ok var \<and> val_ok val)"

lemma strip_plain: "DQUOTE \<notin> set a \<Longrightarrow> q \<or> CHR ''#'' \<notin> set a \<Longrightarrow> strip_loop q (a @ b) = a @ strip_loop q b"
  by (induction a) auto

lemma section_none: "CHR ''['' \<notin> set a \<Longrightarrow> CHR '']'' \<notin> set a \<Longrightarrow> section_loop None a = None"
  by (induction a) auto

lemma section_name:
  "CHR ''['' \<notin> set a \<Longrightarrow> CHR '']'' \<notin> set a \<Longrightarrow> section_loop (Some s) (a @ CHR '']'' # r) = Some (s @ a)"
  by (induction a arbitrary: s) auto

lemma cstr_terminated: "NUL \<notin> set a \<Longrightarrow> cstr (a @ NUL # r) = a"
  by (induction a) (auto simp: cstr_def)

lemma cstr_plain: "NUL \<notin> set a \<Longrightarrow> cstr a = a"
  by (induction a) (auto simp: cstr_def)

lemma section_line_effect:
  assumes "section_ok sec"
  shows "line_effect (section_line sec) x = (Some sec, snd x)"
proof -
  have ok: "DQUOTE \<notin> set (section_line sec)" "CHR ''#'' \<notin> set (section_line sec)" "CHR ''['' \<notin> set sec" "CHR '']'' \<notin> set sec" "NUL \<notin> set sec"
    using assms by (auto simp: section_ok_def section_line_def)
  have "strip_loop False (section_line sec) = section_line sec" using strip_plain [of "section_line sec" False "[]"] ok by simp
  then have "conf_strip_comment (section_line sec) = Some (section_line sec @ [NUL])" by (simp add: conf_strip_comment_def section_line_def)
  moreover have "conf_get_section (section_line sec @ [NUL]) (length (section_line sec)) = Some sec"
    using section_name [OF ok(3,4), of "[]" "[]"] ok(5) by (simp add: conf_get_section_def section_line_def cstr_plain)
  ultimately show ?thesis by (simp add: line_effect_def parse_line_def)
qed

lemma scan_append: "scan_line (a @ b) s = (case scan_line a s of None \<Rightarrow> None | Some s' \<Rightarrow> scan_line b s')"
  by (induction a arbitrary: s) (auto split: option.split)

text \<open>A variable outside of quotes, a value inside.\<close>

lemma scan_var:
  assumes "set a \<inter> {DQUOTE, CHR ''='', CHR '' ''} = {}" and "\<forall>c \<in> set a. isascii c"
  shows "scan_line a s = Some (s\<lparr>sc_space := (if a = [] then sc_space s else False), sc_buf := sc_buf s @ a\<rparr>)"
  using assms by (induction a arbitrary: s) (auto simp: scan_char_def Let_def)

lemma scan_char_val:
  assumes "c \<noteq> DQUOTE" and "isascii c" and "sc_quote s" and "sc_buf s \<noteq> [] \<or> c \<noteq> CHR '' ''"
  shows "scan_char c s = Some (s\<lparr>sc_space := (if c = CHR ''='' then sc_space s else c = CHR '' ''), sc_buf := sc_buf s @ [c]\<rparr>)"
proof (cases "c = CHR ''=''")
  case True
  have "s\<lparr>sc_buf := x\<rparr> = s\<lparr>sc_space := sc_space s, sc_buf := x\<rparr>" for x by (cases s) simp
  then show ?thesis using True assms(3) by (simp add: scan_char_def)
next
  case False
  then show ?thesis using assms by (cases "c = CHR '' ''") (simp_all add: scan_char_def Let_def)
qed

lemma scan_val:
  assumes "DQUOTE \<notin> set a" and "\<forall>c \<in> set a. isascii c" and "sc_quote s" and "sc_buf s \<noteq> [] \<or> hd a \<noteq> CHR '' ''"
  shows "\<exists>b. scan_line a s = Some (s\<lparr>sc_space := b, sc_buf := sc_buf s @ a\<rparr>)"
  using assms
proof (induction a arbitrary: s)
  case Nil
  show ?case by (intro exI [of _ "sc_space s"]) (cases s, simp)
next
  case (Cons c a)
  obtain b where c: "scan_char c s = Some (s\<lparr>sc_space := b, sc_buf := sc_buf s @ [c]\<rparr>)"
  proof -
    have "c \<noteq> DQUOTE" "isascii c" "sc_buf s \<noteq> [] \<or> c \<noteq> CHR '' ''" using Cons.prems(1,2,4) by auto
    from scan_char_val [OF this(1,2) Cons.prems(3) this(3)] show ?thesis by (rule that)
  qed
  let ?s = "s\<lparr>sc_space := b, sc_buf := sc_buf s @ [c]\<rparr>"
  have "DQUOTE \<notin> set a" "\<forall>c \<in> set a. isascii c" "sc_quote ?s" "sc_buf ?s \<noteq> [] \<or> hd a \<noteq> CHR '' ''" using Cons.prems(1-3) by simp_all
  from Cons.IH [OF this] obtain b' where b': "scan_line a ?s = Some (?s\<lparr>sc_space := b', sc_buf := sc_buf ?s @ a\<rparr>)" ..
  show ?case by (intro exI [of _ b']) (simp only: scan_line.simps c option.case b', simp)
qed

lemma strip_end_id: "last s \<noteq> CHR '' '' \<Longrightarrow> strip_end s = s"
  by (subst strip_end.simps) simp

lemma skip_lead_id: "hd b \<noteq> CHR '' '' \<Longrightarrow> skip_lead 0 n b = b"
  by (subst skip_lead.simps) (auto simp: hd_conv_nth)

lemma parse_setting_line:
  assumes "var_ok var" and "val_ok val"
  shows "conf_parseLine (setting_line var val) = Some \<lparr>co_var = var, co_val = val\<rparr>"
proof -
  let ?s = "\<lparr>sc_quote = False, sc_space = False, sc_var = None, sc_buf = []\<rparr> :: scan"
  have var: "set var \<inter> {DQUOTE, CHR ''='', CHR '' ''} = {}" "\<forall>c \<in> set var. isascii c" "var \<noteq> []"
    using assms(1) by (auto simp: var_ok_def text_ok_def)
  have "CHR '' '' \<notin> set var" "last var \<in> set var" using var(1,3) by auto
  then have lv: "last var \<noteq> CHR '' ''" by metis
  have val: "DQUOTE \<notin> set val" "\<forall>c \<in> set val. isascii c" "val \<noteq> []" "last val \<noteq> CHR '' ''" "hd val \<noteq> CHR '' ''"
    using assms(2) by (auto simp: val_ok_def text_ok_def)
  let ?s2 = "?s\<lparr>sc_space := True, sc_quote := True, sc_var := Some var\<rparr>"
  have 1: "scan_line var ?s = Some (?s\<lparr>sc_buf := var\<rparr>)" using scan_var [OF var(1,2)] var(3) by simp
  define q where "q = '' = '' @ [DQUOTE]"
  have 2: "scan_line q (?s\<lparr>sc_buf := var\<rparr>) = Some ?s2"
    using var(3) lv by (simp add: q_def scan_char_def Let_def strip_end_id)
  obtain b where 3: "scan_line val ?s2 = Some (?s2\<lparr>sc_space := b, sc_buf := val\<rparr>)"
    using scan_val [OF val(1,2), of ?s2] val(5) by auto
  have "setting_line var val = var @ q @ val @ [DQUOTE]" by (simp add: setting_line_def q_def)
  then have "scan_line (setting_line var val) ?s = Some (?s2\<lparr>sc_space := b, sc_quote := False, sc_buf := val\<rparr>)"
    by (simp only: scan_append 1 2 3 option.case) (simp add: scan_char_def)
  moreover have "setting_line var val \<noteq> []" by (simp add: setting_line_def)
  ultimately show ?thesis using val(3-5) by (simp add: conf_parseLine_def Let_def strip_end_id skip_lead_id)
qed

lemma setting_line_effect:
  assumes "var_ok var" and "val_ok val"
  shows "line_effect (setting_line var val) (Some sec, c) =
     (Some sec, case conf_set_node c \<lparr>co_var = var, co_val = val\<rparr> (Some sec) of None \<Rightarrow> c | Some c' \<Rightarrow> c')"
proof -
  let ?l = "setting_line var val"
  have ok: "DQUOTE \<notin> set (var @ '' = '')" "CHR ''#'' \<notin> set (var @ '' = '')" "DQUOTE \<notin> set val" "CHR ''['' \<notin> set ?l" "CHR '']'' \<notin> set ?l" "NUL \<notin> set ?l"
    using assms by (auto simp: var_ok_def val_ok_def setting_line_def)
  have l: "?l = (var @ '' = '') @ DQUOTE # val @ [DQUOTE]" by (simp add: setting_line_def)
  have "strip_loop False ((var @ '' = '') @ DQUOTE # val @ [DQUOTE]) = (var @ '' = '') @ strip_loop False (DQUOTE # val @ [DQUOTE])"
    by (rule strip_plain) (use ok in auto)
  also have "strip_loop False (DQUOTE # val @ [DQUOTE]) = DQUOTE # val @ [DQUOTE]"
    using strip_plain [of val True "[DQUOTE]"] ok(3) by simp
  finally have "strip_loop False ?l = ?l" unfolding l .
  moreover have "?l \<noteq> []" by (simp add: setting_line_def)
  ultimately have "conf_strip_comment ?l = Some (?l @ [NUL])" by (simp add: conf_strip_comment_def)
  moreover have "conf_get_section (?l @ [NUL]) (length ?l) = None" using section_none [OF ok(4,5)] by (simp add: conf_get_section_def)
  moreover have "cstr (?l @ [NUL]) = ?l" using ok(6) by (rule cstr_terminated)
  ultimately show ?thesis using parse_setting_line [OF assms] by (simp add: line_effect_def parse_line_def split: option.split)
qed

text \<open>The chain after a setting was added.\<close>

definition add_node :: "config \<Rightarrow> setting \<Rightarrow> config" where
  "add_node c x = (if c = [config_empty] then [node_of x] else c @ [node_of x])"

lemma set_node_add:
  assumes "config_ok c"
  shows "conf_set_node c \<lparr>co_var = var, co_val = val\<rparr> (Some sec) = Some (add_node c (sec, var, val))"
proof (cases "c = [config_empty]")
  case True
  then show ?thesis by (simp add: conf_set_node_def add_node_def node_of_def config_empty_def)
next
  case False
  then obtain n r where c: "c = n # r" "node_ok n" using assms by (cases c) (auto simp: config_ok_def)
  then have "cf_conf n \<noteq> None" by (auto simp: node_ok_def)
  then show ?thesis using False c(1) by (simp add: conf_set_node_def add_node_def node_of_def)
qed

lemma write_setting_step:
  assumes "setting_ok x" and "buf_inv s" and "pr_buf s = []" and "config_ok (pr_config s)"
  shows "\<exists>s'. ofold parse_char s (write_setting x) = Ok s' \<and> buf_inv s' \<and> pr_buf s' = [] \<and> pr_config s' = add_node (pr_config s) x"
proof -
  obtain sec var val where x: "x = (sec, var, val)" by (cases x)
  then have ok: "section_ok sec" "var_ok var" "val_ok val" using assms(1) by (simp_all add: setting_ok_def)
  have "CR \<notin> set (section_line sec)" "LF \<notin> set (section_line sec)" using ok(1) by (auto simp: section_ok_def section_line_def)
  from parse_one_line [OF assms(2,3) this] obtain s1 where s1: "ofold parse_char s (section_line sec @ [LF]) = Ok s1" "buf_inv s1" "pr_buf s1 = []"
    "(pr_section s1, pr_config s1) = line_effect (section_line sec) (pr_section s, pr_config s)" by blast
  have f1: "pr_section s1 = Some sec" "pr_config s1 = pr_config s" using s1(4) section_line_effect [OF ok(1)] by simp_all
  have "CR \<notin> set (setting_line var val)" "LF \<notin> set (setting_line var val)" using ok(2,3) by (auto simp: var_ok_def val_ok_def setting_line_def)
  from parse_one_line [OF s1(2,3) this] obtain s2 where s2: "ofold parse_char s1 (setting_line var val @ [LF]) = Ok s2" "buf_inv s2" "pr_buf s2 = []"
    "(pr_section s2, pr_config s2) = line_effect (setting_line var val) (pr_section s1, pr_config s1)" by blast
  have "pr_config s2 = add_node (pr_config s) x"
    using s2(4) setting_line_effect [OF ok(2,3)] f1 set_node_add [OF assms(4)] x by simp
  moreover have "write_setting x = (section_line sec @ [LF]) @ (setting_line var val @ [LF])" using x by (simp add: write_setting_def)
  moreover have "ofold parse_char s ((section_line sec @ [LF]) @ (setting_line var val @ [LF])) = Ok s2"
    by (simp only: ofold_append [of _ _ "section_line sec @ [LF]"] s1(1) s2(1) obind.simps)
  ultimately show ?thesis using s2(2,3) by metis
qed

lemma parse_settings:
  assumes "\<forall>x \<in> set xs. setting_ok x" and "buf_inv s" and "pr_buf s = []" and "config_ok (pr_config s)"
  shows "\<exists>s'. ofold parse_char s (concat (map write_setting xs)) = Ok s' \<and> pr_config s' = foldl add_node (pr_config s) xs"
  using assms
proof (induction xs arbitrary: s)
  case (Cons x xs)
  obtain s1 where s1: "ofold parse_char s (write_setting x) = Ok s1" "buf_inv s1" "pr_buf s1 = []" "pr_config s1 = add_node (pr_config s) x"
    using write_setting_step [of x s] Cons.prems by auto
  have "config_ok (pr_config s1)" by (rule parse_chars_config [OF s1(1) Cons.prems(4)])
  then obtain s' where "ofold parse_char s1 (concat (map write_setting xs)) = Ok s'" "pr_config s' = foldl add_node (pr_config s1) xs"
    using Cons.IH [of s1] Cons.prems(1) s1(2,3) by auto
  then show ?case using s1(1,4) by (simp add: ofold_append)
qed simp

lemma foldl_add_node: "c \<noteq> [config_empty] \<Longrightarrow> c \<noteq> [] \<Longrightarrow> foldl add_node c xs = c @ map node_of xs"
proof (induction xs arbitrary: c)
  case (Cons x xs)
  have "node_of x \<noteq> config_empty" by (simp add: node_of_def config_empty_def split: prod.split)
  then have "c @ [node_of x] \<noteq> [config_empty]" by auto
  then show ?case using Cons by (simp add: add_node_def)
qed simp

lemma settings_chain: "xs \<noteq> [] \<Longrightarrow> foldl add_node [config_empty] xs = map node_of xs"
  using foldl_add_node [of "[node_of (hd xs)]" "tl xs"]
  by (cases xs) (auto simp: add_node_def node_of_def config_empty_def split: prod.splits)

lemma getValue_settings: "fst (conf_getValue (map node_of xs) (Some sec) var) = map_of (map (\<lambda>(s, v, x). ((s, v), x)) xs) (sec, var)"
  by (induction xs) (auto simp: node_of_def)

text \<open>A setting that is added does not replace an earlier one.\<close>

lemma getValue_setValue:
  assumes "config_ok c"
  shows "fst (conf_getValue (conf_setValue c (Some v) (Some x) (Some sec)) (Some sec') var) =
     (case fst (conf_getValue c (Some sec') var) of
        Some y \<Rightarrow> Some y
      | None \<Rightarrow> if sec' = sec \<and> var = v then Some x else None)"
proof -
  have "conf_setValue c (Some v) (Some x) (Some sec) = add_node c (sec, v, x)"
    using assms set_node_add [OF assms] by (auto simp: conf_setValue_def config_ok_def)
  moreover have "fst (conf_getValue (d @ [node_of (sec, v, x)]) (Some sec') var) =
     (case fst (conf_getValue d (Some sec') var) of Some y \<Rightarrow> Some y | None \<Rightarrow> if sec' = sec \<and> var = v then Some x else None)" for d
    by (induction d) (auto simp: node_of_def split: option.split)
  ultimately show ?thesis by (auto simp: add_node_def config_empty_def node_of_def)
qed

section \<open>Properties\<close>


lemma parse_written:
  assumes "xs \<noteq> []" and "\<forall>x \<in> set xs. setting_ok x"
  shows "conf_parseConfig (concat (map write_setting xs)) False = Ok (Some (map node_of xs))"
proof -
  have "\<exists>s'. ofold parse_char parser_init (concat (map write_setting xs)) = Ok s' \<and> pr_config s' = foldl add_node (pr_config parser_init) xs"
    by (rule parse_settings [OF assms(2) buf_inv_init]) (simp_all add: parser_init_def config_ok_def)
  then show ?thesis using settings_chain [OF assms(1)] by (auto simp: conf_parseConfig_def parser_init_def)
qed

text \<open>
  C24: What a file sets is what the daemon finds: a file of settings, each under its section and with its value in quotes, is read back as exactly
  those settings in order, and a lookup of a variable in a section finds the first one.
\<close>

theorem config_roundtrip:
  assumes "xs \<noteq> []" and "\<forall>x \<in> set xs. setting_ok x"
  shows "conf_parseConfig (concat (map write_setting xs)) False = Ok (Some (map node_of xs)) \<and>
     fst (conf_getValue (map node_of xs) (Some sec) var) = map_of (map (\<lambda>(s, v, x). ((s, v), x)) xs) (sec, var)"
  using parse_written [OF assms] getValue_settings by simp

theorem config_roundtrip_witness:
  "\<exists>c. conf_parseConfig (concat (map write_setting [(''general'', ''password'', ''a#b = c''), (''dsl'', ''timeout'', ''30'')])) False = Ok (Some c) \<and>
     fst (conf_getValue c (Some ''general'') ''password'') = Some ''a#b = c''"
proof -
  let ?xs = "[(''general'', ''password'', ''a#b = c''), (''dsl'', ''timeout'', ''30'')]"
  have "\<forall>x \<in> set ?xs. setting_ok x" "?xs \<noteq> []"
    by (simp_all add: setting_ok_def section_ok_def var_ok_def val_ok_def text_ok_def isascii_def)
  from config_roundtrip [OF this(2,1), of "''general''" "''password''"] show ?thesis by auto
qed

text \<open>
  A line with brackets anywhere is a section: the value below is lost, and the settings that follow go to a section of that name.
\<close>

lemma bracket_in_value_opens_section:
  "line_effect (''filter = '' @ [DQUOTE] @ ''ip[0] = 1'' @ [DQUOTE]) (Some ''filters'', c) = (Some ''0'', c)"
  by (simp add: line_effect_def parse_line_def conf_strip_comment_def conf_get_section_def cstr_def)

text \<open>The last line of a file that does not end with a line feed is not read.\<close>

lemma last_line_needs_line_feed:
  assumes "buf_inv s" and "CR \<notin> set cs" and "LF \<notin> set cs"
  shows "\<exists>s'. ofold parse_char s cs = Ok s' \<and> pr_config s' = pr_config s"
  using parse_plain [OF assms] by blast

end
