(* ===== verification/Config.thy ===== *)
theory Config
  imports Handshake Configlib
begin

text \<open>
  Applying the configuration (\<^verbatim>\<open>src/config.c\<close>, and \<^verbatim>\<open>mlvpn_config_reload\<close> of \<^verbatim>\<open>src/mlvpn.c\<close>): the general section, the sections of the tunnels, the removal of
  tunnels that are gone and the filters, at the start and on a reload. Shown here: a daemon that is configured or reconfigured keeps the invariant under
  which no event makes it fail, and the limits of the settings hold for every tunnel.
\<close>

section \<open>Variables\<close>

text \<open>The globals \<^verbatim>\<open>mlvpn_config\<close> writes, in addition to those of the daemon, and the scripts it hands to the privileged process.\<close>

record config_state =
  cs_daemon :: daemon
  cs_status_command :: "string option"
  cs_tuntap_type :: int
  cs_init_script :: "string list"

text \<open>Its local variables: \<^verbatim>\<open>lastSection\<close> and the defaults of the tunnels.\<close>

record config_locals =
  cl_last :: "string option"
  cl_loss :: u32
  cl_latency :: u32
  cl_timeout :: u32
  cl_server :: bool

definition config_locals_init :: config_locals where
  "config_locals_init = \<lparr>cl_last = None, cl_loss = 100, cl_latency = 1000, cl_timeout = 60, cl_server = False\<rparr>"

definition set_options :: "(mlvpn_options_s \<Rightarrow> mlvpn_options_s) \<Rightarrow> daemon \<Rightarrow> daemon" where
  "set_options f d = d\<lparr>d_options := f (d_options d)\<rparr>"

text \<open>\<^verbatim>\<open>strlcpy\<close> of a setting over an array of \<open>n\<close> characters, that keeps its value when there is none.\<close>

definition copy_setting :: "nat \<Rightarrow> string option \<Rightarrow> string \<Rightarrow> string" where
  "copy_setting n v old = (case v of Some x \<Rightarrow> fit n x | None \<Rightarrow> old)"

definition cap :: "u32 \<Rightarrow> u32 \<Rightarrow> u32" where
  "cap m x = (if m < x then m else x)"

definition at_least :: "u32 \<Rightarrow> u32 \<Rightarrow> u32" where
  "at_least m x = (if x < m then m else x)"

section \<open>The general section\<close>

text \<open>Settings only read at the start.\<close>

definition conf_first :: "config \<Rightarrow> string option \<Rightarrow> config_state \<Rightarrow> config_state outcome" where
  "conf_first c sec g =
     obind (conf_set_str c sec ''statuscommand'' None None) (\<lambda>cmd.
     obind (conf_set_str c sec ''interface_name'' (Some ''mlvpn0'') None) (\<lambda>dev.
     obind (conf_set_str c sec ''tuntap'' (Some ''tun'') None) (\<lambda>ty.
     obind (conf_set_str c sec ''control_unix_path'' None None) (\<lambda>path.
     obind (conf_set_str c sec ''control_bind_host'' None None) (\<lambda>host.
     obind (conf_set_str c sec ''control_bind_port'' None None) (\<lambda>port.
       Ok (g\<lparr>cs_status_command := cmd,
             cs_tuntap_type := (case ty of None \<Rightarrow> cs_tuntap_type g | Some t \<Rightarrow> if t = ''tun'' then 0 else 1),
             cs_daemon := set_options (\<lambda>o1. o1\<lparr>
                 opt_control_unix_path := copy_setting 4096 path (opt_control_unix_path o1),
                 opt_control_bind_host := copy_setting MLVPN_MAXHNAMSTR host (opt_control_bind_host o1),
                 opt_control_bind_port := copy_setting MLVPN_MAXHNAMSTR port (opt_control_bind_port o1)\<rparr>)
               ((cs_daemon g)\<lparr>d_devname := copy_setting MLVPN_IFNAMSIZ dev (d_devname (cs_daemon g))\<rparr>)\<rparr>)))))))"

text \<open>The reorder buffer, when its size changes.\<close>

definition conf_reorder :: "u32 \<Rightarrow> daemon \<Rightarrow> daemon outcome" where
  "conf_reorder sz d =
     (let old = opt_reorder_buffer_size (d_options d) in
      if sz \<noteq> old then
        let d1 = set_options (\<lambda>o1. o1\<lparr>opt_reorder_buffer_size := sz\<rparr>) (if sz \<noteq> 0 \<and> old \<noteq> 0 then d\<lparr>d_reorder := None\<rparr> else d) in
        if 0 < sz then
          (case mlvpn_reorder_create sz of
             None \<Rightarrow> Fatal ''reorder_buffer allocation failed''
           | Some b \<Rightarrow> Ok (d1\<lparr>d_reorder := Some b\<rparr>))
        else Ok d1
      else Ok d)"

text \<open>
  The addresses for the status script. Where \<^verbatim>\<open>ip4\<close> or \<^verbatim>\<open>ip6\<close> is missing the code clears \<^verbatim>\<open>ip4_gateway\<close>, which the next setting determines anyway, and
  keeps the address.
\<close>

definition conf_addresses :: "config \<Rightarrow> string option \<Rightarrow> daemon \<Rightarrow> daemon outcome" where
  "conf_addresses c sec d =
     obind (conf_set_str c sec ''ip4'' None None) (\<lambda>ip4.
     obind (conf_set_str c sec ''ip6'' None None) (\<lambda>ip6.
     obind (conf_set_str c sec ''ip4_gateway'' None None) (\<lambda>gw4.
     obind (conf_set_str c sec ''ip6_gateway'' None None) (\<lambda>gw6.
     obind (conf_set_str c sec ''ip4_routes'' None None) (\<lambda>r4.
     obind (conf_set_str c sec ''ip6_routes'' None None) (\<lambda>r6.
     obind (conf_set_uint c sec ''mtu'' 1432) (\<lambda>mtu.
       Ok (set_options (\<lambda>o1. o1\<lparr>
             opt_ip4 := copy_setting 24 ip4 (opt_ip4 o1),
             opt_ip6 := copy_setting 128 ip6 (opt_ip6 o1),
             opt_ip4_gateway := copy_setting 16 gw4 '''',
             opt_ip6_gateway := copy_setting 128 gw6 '''',
             opt_ip4_routes := copy_setting 4096 r4 '''',
             opt_ip6_routes := copy_setting 8192 r6 '''',
             opt_mtu := (if mtu \<noteq> 0 then sint mtu else opt_mtu o1)\<rparr>) d))))))))"

definition conf_general :: "env \<Rightarrow> config \<Rightarrow> bool \<Rightarrow> string option \<Rightarrow> config_locals \<Rightarrow> config_state \<Rightarrow> (config_locals \<times> config_state) outcome" where
  "conf_general E c first_time sec l g0 =
     obind (if first_time then conf_first c sec g0 else Ok g0) (\<lambda>g.
     obind (conf_set_str c sec ''mode'' None (Some ''Operation mode is mandatory.'')) (\<lambda>mode.
     obind (conf_set_str c sec ''password'' None (Some ''Password is mandatory.'')) (\<lambda>password.
     obind (conf_set_uint c sec ''cleartext_data'' 0) (\<lambda>cleartext.
     obind (conf_set_uint c sec ''timeout'' 60) (\<lambda>timeout.
     obind (conf_set_uint c sec ''reorder_buffer_size'' 0) (\<lambda>size.
     let d = cs_daemon g;
         d1 = set_options (\<lambda>o1. o1\<lparr>opt_cleartext_data := (cleartext \<noteq> 0)\<rparr>)
                (case password of None \<Rightarrow> d | Some p \<Rightarrow> d\<lparr>d_key := snd (crypto_set_password (en_sodium E) (d_key d) (map of_char p))\<rparr>) in
     obind (conf_reorder size d1) (\<lambda>d2.
     obind (conf_set_uint c sec ''loss_tolerence'' 100) (\<lambda>loss.
     obind (conf_set_uint c sec ''latency_tolerence'' 1000) (\<lambda>latency.
     obind (conf_addresses c sec d2) (\<lambda>d3.
       Ok (l\<lparr>cl_server := (if mystr_eq mode (Some ''server'') then True else cl_server l), cl_timeout := at_least 2 timeout,
             cl_loss := cap 100 loss, cl_latency := cap 1000 latency\<rparr>, g\<lparr>cs_daemon := d3\<rparr>)))))))))))"

section \<open>The section of a tunnel\<close>

record tunnel_conf =
  tc_bindaddr :: "string option"
  tc_bindport :: "string option"
  tc_bindfib :: u32
  tc_dstaddr :: "string option"
  tc_dstport :: "string option"
  tc_bandwidth :: u32
  tc_timeout :: u32
  tc_loss :: u32
  tc_latency :: u32
  tc_fallback :: u32

definition conf_tunnel_read :: "config \<Rightarrow> string option \<Rightarrow> config_locals \<Rightarrow> tunnel_conf outcome" where
  "conf_tunnel_read c sec l =
     obind (conf_set_str c sec ''bindhost'' None None) (\<lambda>bindaddr.
     obind (conf_set_str c sec ''bindport'' None (if cl_server l then Some ''bind port is mandatory in server mode.'' else None)) (\<lambda>bindport.
     obind (conf_set_uint c sec ''bindfib'' 0) (\<lambda>bindfib.
     obind (conf_set_str c sec ''remotehost'' None (if cl_server l then None else Some ''No remote address specified.'')) (\<lambda>dstaddr.
     obind (conf_set_str c sec ''remoteport'' None (if cl_server l then None else Some ''No remote port specified.'')) (\<lambda>dstport.
     obind (conf_set_uint c sec ''bandwidth_upload'' 0) (\<lambda>bwlimit.
     obind (conf_set_uint c sec ''timeout'' (cl_timeout l)) (\<lambda>timeout.
     obind (conf_set_uint c sec ''loss_tolerence'' (cl_loss l)) (\<lambda>loss.
     obind (conf_set_uint c sec ''latency_tolerence'' (cl_latency l)) (\<lambda>latency.
     obind (conf_set_uint c sec ''fallback_only'' 0) (\<lambda>fallback.
       Ok \<lparr>tc_bindaddr = bindaddr, tc_bindport = bindport, tc_bindfib = bindfib, tc_dstaddr = dstaddr, tc_dstport = dstport,
           tc_bandwidth = bwlimit, tc_timeout = at_least 2 timeout, tc_loss = cap 100 loss, tc_latency = cap 1000 latency,
           tc_fallback = fallback\<rparr>))))))))))"

text \<open>
  A tunnel of that name is changed; its timeout is not. An address that is not set counts as a change, since \<^verbatim>\<open>mystr_eq\<close> of a null pointer is false.
\<close>

definition tunnel_moved :: "tunnel_conf \<Rightarrow> mlvpn_tunnel_t \<Rightarrow> bool" where
  "tunnel_moved p t \<longleftrightarrow> \<not> mystr_eq (Some (t_bindaddr t)) (tc_bindaddr p) \<or> \<not> mystr_eq (Some (t_bindport t)) (tc_bindport p) \<or>
     t_bindfib t \<noteq> tc_bindfib p \<or> \<not> mystr_eq (Some (t_destaddr t)) (tc_dstaddr p) \<or> \<not> mystr_eq (Some (t_destport t)) (tc_dstport p)"

definition tunnel_apply :: "tunnel_conf \<Rightarrow> mlvpn_tunnel_t \<Rightarrow> mlvpn_tunnel_t" where
  "tunnel_apply p t = t\<lparr>t_bindaddr := copy_setting MLVPN_MAXHNAMSTR (tc_bindaddr p) (t_bindaddr t),
     t_bindport := copy_setting MLVPN_MAXPORTSTR (tc_bindport p) (t_bindport t), t_bindfib := tc_bindfib p,
     t_destaddr := copy_setting MLVPN_MAXHNAMSTR (tc_dstaddr p) (t_destaddr t),
     t_destport := copy_setting MLVPN_MAXPORTSTR (tc_dstport p) (t_destport t),
     t_fallback_only := sint (tc_fallback p), t_bandwidth := tc_bandwidth p, t_loss_tolerence := tc_loss p,
     t_latency_tolerence := tc_latency p\<rparr>"

definition conf_update :: "tunnel_conf \<Rightarrow> nat \<Rightarrow> daemon \<Rightarrow> daemon outcome" where
  "conf_update p i d =
     obind (if tunnel_moved p (tun d i) then mlvpn_rtun_status_down i d else Ok d) (\<lambda>d1. Ok (upd i (tunnel_apply p) d1))"

definition conf_tunnel :: "env \<Rightarrow> config \<Rightarrow> string \<Rightarrow> config_locals \<Rightarrow> daemon \<Rightarrow> daemon outcome" where
  "conf_tunnel E c sec l d =
     obind (conf_tunnel_read c (Some sec) l) (\<lambda>p.
       let d1 = (if tc_fallback p \<noteq> 0 then set_options (\<lambda>o1. o1\<lparr>opt_fallback_available := 1\<rparr>) d else d) in
       case find (\<lambda>i. mystr_eq (Some sec) (t_name (tun d1 i))) (d_rtuns d1) of
         Some i \<Rightarrow> conf_update p i d1
       | None \<Rightarrow>
           obind (mlvpn_rtun_new E sec (tc_bindaddr p) (tc_bindport p) (tc_bindfib p) (tc_dstaddr p) (tc_dstport p) (cl_server l)
               (tc_timeout p) (sint (tc_fallback p)) (tc_bandwidth p) (tc_loss p) (tc_latency p) d1) (\<lambda>(i, d2). Ok d2))"

section \<open>The whole configuration\<close>

definition is_filters :: "string \<Rightarrow> bool" where
  "is_filters s \<longleftrightarrow> take 7 s = ''filters''"

definition conf_node :: "env \<Rightarrow> config \<Rightarrow> bool \<Rightarrow> config_locals \<times> config_state \<Rightarrow> config_t \<Rightarrow> (config_locals \<times> config_state) outcome" where
  "conf_node E c first_time x node =
     (let (l, g) = x in
      case cf_section node of
        None \<Rightarrow> Ok (l, g)
      | Some sec \<Rightarrow>
          if mystr_eq (Some sec) (cl_last l) then Ok (l, g)
          else let l1 = l\<lparr>cl_last := Some sec\<rparr> in
            if sec = ''general'' then conf_general E c first_time (Some sec) l1 g
            else if \<not> is_filters sec then obind (conf_tunnel E c sec l1 (cs_daemon g)) (\<lambda>d. Ok (l1, g\<lparr>cs_daemon := d\<rparr>))
            else Ok (l1, g))"

text \<open>Tunnels without a setting in the file are dropped.\<close>

definition conf_keeps :: "config \<Rightarrow> string option \<Rightarrow> bool" where
  "conf_keeps c name \<longleftrightarrow> (\<exists>n \<in> set c. cf_conf n \<noteq> None \<and> cf_section n \<noteq> None \<and> mystr_eq (cf_section n) name)"

definition conf_delete :: "env \<Rightarrow> config \<Rightarrow> daemon \<Rightarrow> daemon outcome" where
  "conf_delete E c d =
     ofold (\<lambda>d i. if conf_keeps c (t_name (tun d i)) then Ok d else mlvpn_rtun_drop E i d) d (d_rtuns d)"

text \<open>A filter goes to the first tunnel of its name, as long as there is room. \<open>compile\<close> is whether \<^verbatim>\<open>pcap_compile\<close> accepts the expression.\<close>

fun conf_filter_add :: "string \<Rightarrow> string \<Rightarrow> nat list \<Rightarrow> daemon \<Rightarrow> daemon" where
  "conf_filter_add var val [] d = d"
| "conf_filter_add var val (i # is) d =
     (if t_name (tun d i) = Some var then
        let (r, d') = mlvpn_filters_add val i d in if r \<noteq> 0 then conf_filter_add var val is d' else d'
      else conf_filter_add var val is d)"

definition conf_filter :: "(string \<Rightarrow> bool) \<Rightarrow> daemon \<Rightarrow> config_t \<Rightarrow> daemon outcome" where
  "conf_filter compile d node =
     (case cf_section node of
        None \<Rightarrow> Ok d
      | Some sec \<Rightarrow>
          if is_filters sec then
            (case cf_conf node of
               None \<Rightarrow> Fault NullDeref
             | Some obj \<Rightarrow> Ok (if compile (co_val obj) then conf_filter_add (co_var obj) (co_val obj) (d_rtuns d) d else d))
          else Ok d)"

text \<open>\<open>parsed\<close> is what \<^verbatim>\<open>_conf_parseConfig\<close> returned.\<close>

definition mlvpn_config :: "env \<Rightarrow> (string \<Rightarrow> bool) \<Rightarrow> config option \<Rightarrow> bool \<Rightarrow> config_state \<Rightarrow> (int \<times> config_state) outcome" where
  "mlvpn_config E compile parsed first_time g =
     (let g0 = g\<lparr>cs_daemon := set_options (\<lambda>o1. o1\<lparr>opt_fallback_available := 0\<rparr>) ((cs_daemon g)\<lparr>d_filters := []\<rparr>)\<rparr> in
      case parsed of
        None \<Rightarrow> Ok (1, g0)
      | Some c \<Rightarrow>
          obind (ofold (conf_node E c first_time) (config_locals_init, g0) c) (\<lambda>(l, g1).
          obind (if first_time then Ok (cs_daemon g1) else conf_delete E c (cs_daemon g1)) (\<lambda>d2.
          obind (ofold (conf_filter compile) d2 c) (\<lambda>d3.
            Ok (0, g1\<lparr>cs_daemon := d3,
              cs_init_script := cs_init_script g1 @
                (case cs_status_command g1 of Some cmd \<Rightarrow> if first_time then [cmd] else [] | None \<Rightarrow> [])\<rparr>)))))"

text \<open>
  \<^verbatim>\<open>mlvpn_config_reload\<close>, on \<^verbatim>\<open>SIGHUP\<close>: \<open>fd\<close> is what the privileged process returned for the file, \<open>now\<close> the time, if there is one.
\<close>

definition recalc_weight :: "daemon \<Rightarrow> daemon" where
  "recalc_weight d = d\<lparr>d_tunnels := mlvpn_rtun_recalc_weight (d_tunnels d) (d_rtuns d)\<rparr>"

definition mlvpn_config_reload :: "env \<Rightarrow> (string \<Rightarrow> bool) \<Rightarrow> int \<Rightarrow> config option \<Rightarrow> int \<Rightarrow> config_state \<Rightarrow> config_state outcome" where
  "mlvpn_config_reload E compile fd parsed now g =
     (if 0 < fd then
        obind (mlvpn_config E compile parsed False g) (\<lambda>(r, g1).
          if r \<noteq> 0 then Ok g1
          else let d = cs_daemon g1 in
            Ok (g1\<lparr>cs_daemon := recalc_weight (d\<lparr>d_status := (d_status d)\<lparr>st_last_reload := now\<rparr>\<rparr>)\<rparr>))
      else Ok g)"

section \<open>Invariant\<close>

definition limits :: "mlvpn_tunnel_t \<Rightarrow> bool" where
  "limits t \<longleftrightarrow> 2 \<le> t_timeout t \<and> t_loss_tolerence t \<le> 100 \<and> t_latency_tolerence t \<le> 1000"

definition tunnel_names :: "daemon \<Rightarrow> string option list" where
  "tunnel_names d = map (\<lambda>i. t_name (tun d i)) (d_rtuns d)"

definition cinv :: "daemon \<Rightarrow> bool" where
  "cinv d \<longleftrightarrow> dinv d \<and> distinct (tunnel_names d) \<and> (\<forall>i \<in> set (d_rtuns d). limits (tun d i))"

lemma cap_le: "cap m x \<le> m"
  by (auto simp: cap_def not_less)

lemma at_least_le: "m \<le> at_least m x"
  by (auto simp: at_least_def not_less)

lemma set_options_fields [simp]:
  "d_tunnels (set_options f d) = d_tunnels d" "d_rtuns (set_options f d) = d_rtuns d" "d_next (set_options f d) = d_next d"
  "d_filters (set_options f d) = d_filters d" "d_reorder (set_options f d) = d_reorder d" "d_freebuf (set_options f d) = d_freebuf d"
  "d_wrr (set_options f d) = d_wrr d" "d_maxmtu (set_options f d) = d_maxmtu d"
  by (simp_all add: set_options_def)

lemma rx_ok_settings:
  "rx_ok (set_options f d) = rx_ok d" "rx_ok (d\<lparr>d_key := k\<rparr>) = rx_ok d" "rx_ok (d\<lparr>d_devname := n\<rparr>) = rx_ok d"
  by (simp_all add: rx_ok_def dev_ok_def set_options_def cong: option.case_cong)

lemma cinv_settings [simp]:
  "cinv (set_options f d) = cinv d" "cinv (d\<lparr>d_key := k\<rparr>) = cinv d" "cinv (d\<lparr>d_devname := n\<rparr>) = cinv d"
  "cinv (d\<lparr>d_status := st\<rparr>) = cinv d"
  by (simp_all add: cinv_def dinv_def base_ok_def wrr_inv_def rx_ok_settings tunnel_names_def)

lemma tunnel_names_settings [simp]:
  "tunnel_names (set_options f d) = tunnel_names d" "tunnel_names (d\<lparr>d_key := k\<rparr>) = tunnel_names d"
  "tunnel_names (d\<lparr>d_devname := n\<rparr>) = tunnel_names d" "tunnel_names (d\<lparr>d_reorder := r\<rparr>) = tunnel_names d"
  "tunnel_names (d\<lparr>d_filters := h\<rparr>) = tunnel_names d" "tunnel_names (d\<lparr>d_status := st\<rparr>) = tunnel_names d"
  by (simp_all add: tunnel_names_def)

lemma cinv_no_filters: "cinv d \<Longrightarrow> cinv (d\<lparr>d_filters := []\<rparr>)"
  by (simp add: cinv_def dinv_def base_ok_def wrr_inv_def tunnel_names_def)

section \<open>Each part keeps the invariant\<close>

lemma conf_first_cinv:
  assumes "conf_first c sec g = Ok g'" and "cinv (cs_daemon g)"
  shows "cinv (cs_daemon g')" and "tunnel_names (cs_daemon g') = tunnel_names (cs_daemon g)" and "d_filters (cs_daemon g') = d_filters (cs_daemon g)"
  using assms by (auto simp: conf_first_def obind_eq_Ok_iff)

text \<open>The size of the reorder buffer: none, or a power of two.\<close>

definition size_ok :: "u32 \<Rightarrow> bool" where
  "size_ok sz \<longleftrightarrow> sz = 0 \<or> (\<exists>k. 0 < k \<and> k \<le> 27 \<and> sz = 2 ^ k)"

lemma fresh_reorder:
  assumes "0 < k" and "k \<le> 27" and "mlvpn_reorder_create (2 ^ k) = Some b"
  shows "ro_pool k b fb"
proof -
  have b: "ro_inv k (pool_seq fb) b" "\<not> ro_initialized b" using create_spec [OF assms(1,2), of "pool_seq fb"] assms(3) by auto
  then have "some_of (window b) = []" by (simp add: ro_inv_def)
  then have "Some i \<notin> set (window b)" for i by (auto simp: filter_empty_conv)
  then show ?thesis using b(1) by (simp add: ro_pool_def)
qed

lemma cinv_reorder:
  assumes "cinv d" and "ro_pool k b (d_freebuf d)"
  shows "cinv (d\<lparr>d_reorder := Some b\<rparr>)"
  using assms by (auto simp: cinv_def dinv_def base_ok_def wrr_inv_def rx_ok_def dev_ok_def tunnel_names_def)

lemma conf_reorder_cinv:
  assumes "conf_reorder sz d = Ok d'" and "size_ok sz" and "cinv d"
  shows "cinv d'" and "tunnel_names d' = tunnel_names d" and "d_filters d' = d_filters d"
proof -
  show "tunnel_names d' = tunnel_names d" "d_filters d' = d_filters d"
    using assms(1) by (auto simp: conf_reorder_def Let_def split: if_splits option.splits)
  show "cinv d'"
  proof (cases "sz = opt_reorder_buffer_size (d_options d) \<or> sz = 0")
    case True
    then show ?thesis using assms(1,3) by (auto simp: conf_reorder_def Let_def split: if_splits)
  next
    case False
    then obtain k where k: "0 < k" "k \<le> 27" "sz = 2 ^ k" using assms(2) by (auto simp: size_ok_def)
    have pos: "0 < sz" using False by (simp add: word_gt_0)
    then obtain b where b: "mlvpn_reorder_create sz = Some b"
      "d' = (set_options (\<lambda>o1. o1\<lparr>opt_reorder_buffer_size := sz\<rparr>) (if opt_reorder_buffer_size (d_options d) \<noteq> 0 then d\<lparr>d_reorder := None\<rparr> else d))\<lparr>d_reorder := Some b\<rparr>"
      using assms(1) False by (auto simp: conf_reorder_def Let_def split: option.splits)
    have "d' = set_options (\<lambda>o1. o1\<lparr>opt_reorder_buffer_size := sz\<rparr>) (d\<lparr>d_reorder := Some b\<rparr>)" using b(2) by (simp add: set_options_def)
    moreover have "cinv (d\<lparr>d_reorder := Some b\<rparr>)" using fresh_reorder [OF k(1,2)] b(1) k(3) cinv_reorder [OF assms(3)] by blast
    ultimately show ?thesis by simp
  qed
qed

lemma conf_addresses_cinv:
  assumes "conf_addresses c sec d = Ok d'" and "cinv d"
  shows "cinv d'" and "tunnel_names d' = tunnel_names d" and "d_filters d' = d_filters d"
  using assms by (auto simp: conf_addresses_def obind_eq_Ok_iff)

text \<open>Every size the file gives is one of these.\<close>

definition sizes_ok :: "config \<Rightarrow> bool" where
  "sizes_ok c \<longleftrightarrow> (\<forall>sec v. conf_set_uint c sec ''reorder_buffer_size'' 0 = Ok v \<longrightarrow> size_ok v)"

lemma conf_general_cinv:
  assumes "conf_general E c first_time sec l g = Ok (l', g')" and "sizes_ok c" and "cinv (cs_daemon g)"
  shows "cinv (cs_daemon g') \<and> tunnel_names (cs_daemon g') = tunnel_names (cs_daemon g) \<and> d_filters (cs_daemon g') = d_filters (cs_daemon g)"
proof -
  obtain g1 where g1: "(if first_time then conf_first c sec g else Ok g) = Ok g1"
    using assms(1) by (auto simp: conf_general_def obind_eq_Ok_iff)
  have c1: "cinv (cs_daemon g1)" "tunnel_names (cs_daemon g1) = tunnel_names (cs_daemon g)" "d_filters (cs_daemon g1) = d_filters (cs_daemon g)"
    using g1 assms(3) conf_first_cinv by (auto split: if_splits)
  obtain size d1 d2 d3 where d: "conf_set_uint c sec ''reorder_buffer_size'' 0 = Ok size" "conf_reorder size d1 = Ok d2"
    "conf_addresses c sec d2 = Ok d3" "cs_daemon g' = d3" "cinv d1 = cinv (cs_daemon g1)" "tunnel_names d1 = tunnel_names (cs_daemon g1)"
    "d_filters d1 = d_filters (cs_daemon g1)"
    using assms(1) g1 by (auto simp: conf_general_def obind_eq_Ok_iff Let_def split: option.splits)
  have "size_ok size" using assms(2) d(1) by (auto simp: sizes_ok_def)
  then show ?thesis using conf_reorder_cinv [OF d(2)] conf_addresses_cinv [OF d(3)] d(4-7) c1 by simp
qed

lemma tunnel_read_limits:
  assumes "conf_tunnel_read c sec l = Ok p"
  shows "2 \<le> tc_timeout p \<and> tc_loss p \<le> 100 \<and> tc_latency p \<le> 1000"
  using assms by (auto simp: conf_tunnel_read_def obind_eq_Ok_iff cap_le at_least_le)

lemma tunnel_apply_fields:
  "tun_ok (tunnel_apply p t) = tun_ok t" "authenticated (tunnel_apply p t) = authenticated t" "t_name (tunnel_apply p t) = t_name t"
  "t_timeout (tunnel_apply p t) = t_timeout t" "t_loss_tolerence (tunnel_apply p t) = tc_loss p" "t_latency_tolerence (tunnel_apply p t) = tc_latency p"
  by (simp_all add: tunnel_apply_def tun_ok_def idle_def authenticated_def)

lemma cinv_tunnels:
  assumes "cinv d" and "dinv d'" and "d_rtuns d' = d_rtuns d" and "\<And>i. i \<in> set (d_rtuns d) \<Longrightarrow> t_name (tun d' i) = t_name (tun d i)"
    and "\<And>i. i \<in> set (d_rtuns d) \<Longrightarrow> limits (tun d' i)"
  shows "cinv d'"
proof -
  have "tunnel_names d' = tunnel_names d" using assms(3,4) by (simp add: tunnel_names_def)
  then show ?thesis using assms(1,2,3,5) by (simp add: cinv_def)
qed

lemma conf_update_cinv:
  assumes "conf_update p i d = Ok d'" and "cinv d" and i: "i \<in> set (d_rtuns d)" and p: "tc_loss p \<le> 100 \<and> tc_latency p \<le> 1000"
  shows "cinv d' \<and> tunnel_names d' = tunnel_names d \<and> d_filters d' = d_filters d"
proof -
  obtain d1 where d1: "(if tunnel_moved p (tun d i) then mlvpn_rtun_status_down i d else Ok d) = Ok d1" "d' = upd i (tunnel_apply p) d1"
    using assms(1) by (auto simp: conf_update_def obind_eq_Ok_iff)
  have inv: "dinv d" using assms(2) by (simp add: cinv_def)
  have 1: "dinv d1" "d_rtuns d1 = d_rtuns d" "\<And>j. t_name (tun d1 j) = t_name (tun d j)" "\<And>j. limits (tun d1 j) = limits (tun d j)"
    "d_filters d1 = d_filters d"
    using d1(1) status_down_ok [OF inv i] inv by (auto simp: same_net_def went_down_def limits_def split: if_splits)
  have "dinv d'" unfolding d1(2) by (rule inv_upd [OF 1(1)]) (use tunE [OF 1(1)] in \<open>simp_all add: tunnel_apply_fields\<close>)
  moreover have "d_rtuns d' = d_rtuns d" "d_filters d' = d_filters d" using 1(2,5) d1(2) by simp_all
  moreover have "limits (tun d' j)" if "j \<in> set (d_rtuns d)" for j
    using that assms(2) 1(4) p d1(2) by (auto simp: cinv_def limits_def tunnel_apply_fields)
  moreover have "t_name (tun d' j) = t_name (tun d j)" for j using 1(3) d1(2) by (simp add: tunnel_apply_fields)
  ultimately show ?thesis using cinv_tunnels [OF assms(2)] by (simp add: tunnel_names_def)
qed

text \<open>There is room for a tunnel whose name is one of \<open>A\<close> and not in use.\<close>

lemma name_room:
  assumes "distinct (tunnel_names d)" and "finite A" and "card A \<le> MAX_TUNNELS" and "set (tunnel_names d) \<subseteq> A" and "n \<in> A" and "n \<notin> set (tunnel_names d)"
  shows "length (d_rtuns d) < MAX_TUNNELS"
proof -
  have "set (tunnel_names d) \<subset> A" using assms(4-6) by blast
  then have "card (set (tunnel_names d)) < card A" by (rule psubset_card_mono [OF assms(2)])
  then show ?thesis using assms(1,3) distinct_card [OF assms(1)] by (simp add: tunnel_names_def)
qed

lemma rtun_new_result:
  assumes "mlvpn_rtun_new E name ba bp fib da dp server tmo fallback bw loss lat s = Ok (r, s')"
  shows "r = None \<and> s' = s \<or> r = Some (d_next s) \<and> d_rtuns s' = d_next s # d_rtuns s \<and> d_filters s' = d_filters s \<and>
     d_tunnels s' = (d_tunnels s)(d_next s := rtun_new_struct E name ba bp fib da dp server tmo fallback bw loss lat)"
proof -
  have t: "d_tunnels u' = d_tunnels u \<and> d_rtuns u' = d_rtuns u \<and> d_filters u' = d_filters u" if "update_process_title u = Ok u'" for u u'
    using that by (auto simp: update_process_title_def obind_eq_Ok_iff Let_def split: if_splits option.splits)
  show ?thesis using assms
    by (auto simp: mlvpn_rtun_new_def Let_def obind_eq_Ok_iff split: if_splits dest!: t)
qed

lemma conf_new_cinv:
  assumes new: "mlvpn_rtun_new E name ba bp fib da dp server tmo fallback bw loss lat d = Ok (r, d')" and "cinv d"
    and "length (d_rtuns d) < MAX_TUNNELS" and "length name < 30" and "2 \<le> tmo \<and> loss \<le> 100 \<and> lat \<le> 1000"
    and "\<forall>i \<in> set (d_rtuns d). t_name (tun d i) \<noteq> Some name"
  shows "cinv d' \<and> set (tunnel_names d') \<subseteq> insert (Some name) (set (tunnel_names d)) \<and> d_filters d' = d_filters d"
  using rtun_new_result [OF new]
proof (elim disjE conjE)
  assume r: "r = Some (d_next d)" and l: "d_rtuns d' = d_next d # d_rtuns d" and f: "d_filters d' = d_filters d"
    and t: "d_tunnels d' = (d_tunnels d)(d_next d := rtun_new_struct E name ba bp fib da dp server tmo fallback bw loss lat)"
  have inv: "dinv d" using assms(2) by (simp add: cinv_def)
  have fresh: "\<forall>i \<in> set (d_rtuns d). i \<noteq> d_next d" using inv by (auto simp: dinv_def base_ok_def)
  have "dinv d'" using new_ok [OF inv assms(3,4)] new r by blast
  moreover have "tunnel_names d' = Some name # tunnel_names d" using l t fresh by (simp add: rtun_new_struct_def tunnel_names_def)
  moreover have "Some name \<notin> set (tunnel_names d)" using assms(6) by (auto simp: tunnel_names_def)
  moreover have "\<forall>i \<in> set (d_rtuns d'). limits (tun d' i)"
    using l t fresh assms(2,5) by (auto simp: cinv_def limits_def rtun_new_struct_def)
  ultimately show ?thesis using assms(2) l f by (auto simp: cinv_def)
qed (use assms(2) in auto)

lemma conf_tunnel_cinv:
  assumes "conf_tunnel E c sec l d = Ok d'" and "cinv d" and A: "finite A" "card A \<le> MAX_TUNNELS" "set (tunnel_names d) \<subseteq> A" "Some sec \<in> A"
    and "length sec < 30"
  shows "cinv d' \<and> set (tunnel_names d') \<subseteq> A \<and> d_filters d' = d_filters d"
proof -
  obtain p where p: "conf_tunnel_read c (Some sec) l = Ok p" using assms(1) by (auto simp: conf_tunnel_def obind_eq_Ok_iff)
  define d1 where "d1 = (if tc_fallback p \<noteq> 0 then set_options (\<lambda>o1. o1\<lparr>opt_fallback_available := 1\<rparr>) d else d)"
  have 1: "cinv d1" "tunnel_names d1 = tunnel_names d" "d_filters d1 = d_filters d" using assms(2) by (simp_all add: d1_def tunnel_names_def)
  note lim = tunnel_read_limits [OF p]
  show ?thesis
  proof (cases "find (\<lambda>i. mystr_eq (Some sec) (t_name (tun d1 i))) (d_rtuns d1)")
    case (Some i)
    then have "i \<in> set (d_rtuns d1)" by (auto simp: find_Some_iff)
    moreover have "conf_update p i d1 = Ok d'" using assms(1) p Some by (simp add: conf_tunnel_def d1_def Let_def)
    ultimately show ?thesis using conf_update_cinv [of p i d1 d'] 1 lim A(3) by simp
  next
    case None
    then have n: "\<forall>i \<in> set (d_rtuns d1). t_name (tun d1 i) \<noteq> Some sec" by (auto simp: find_None_iff mystr_eq_iff)
    obtain r where new: "mlvpn_rtun_new E sec (tc_bindaddr p) (tc_bindport p) (tc_bindfib p) (tc_dstaddr p) (tc_dstport p) (cl_server l)
       (tc_timeout p) (sint (tc_fallback p)) (tc_bandwidth p) (tc_loss p) (tc_latency p) d1 = Ok (r, d')"
      using assms(1) p None by (auto simp: conf_tunnel_def d1_def Let_def obind_eq_Ok_iff)
    have "Some sec \<notin> set (tunnel_names d1)" using n by (auto simp: tunnel_names_def)
    then have "length (d_rtuns d1) < MAX_TUNNELS" using name_room [OF _ A(1,2) _ A(4), of d1] 1(1,2) A(3) by (simp add: cinv_def)
    from conf_new_cinv [OF new 1(1) this assms(7) lim n] show ?thesis using 1(2,3) A(3,4) by auto
  qed
qed

text \<open>Section names that fit the process title.\<close>

definition names_short :: "config \<Rightarrow> bool" where
  "names_short c \<longleftrightarrow> (\<forall>n \<in> set c. \<forall>s. cf_section n = Some s \<longrightarrow> length s < 30)"

text \<open>
  A configuration the daemon has room for: reorder buffers of such sizes, such names, and together with the names in use at most
  128 sections.
\<close>

definition config_fits :: "config \<Rightarrow> daemon \<Rightarrow> bool" where
  "config_fits c d \<longleftrightarrow> sizes_ok c \<and> names_short c \<and> card (set (tunnel_names d) \<union> set (map cf_section c)) \<le> MAX_TUNNELS"

lemma conf_node_cinv:
  assumes "conf_node E c first_time (l, g) node = Ok (l', g')" and "sizes_ok c" and "cinv (cs_daemon g)"
    and A: "finite A" "card A \<le> MAX_TUNNELS" "set (tunnel_names (cs_daemon g)) \<subseteq> A" "\<forall>s. cf_section node = Some s \<longrightarrow> Some s \<in> A"
    and "\<forall>s. cf_section node = Some s \<longrightarrow> length s < 30"
  shows "cinv (cs_daemon g') \<and> set (tunnel_names (cs_daemon g')) \<subseteq> A \<and>
     d_filters (cs_daemon g') = d_filters (cs_daemon g)"
proof (cases "cf_section node")
  case None
  then show ?thesis using assms(1,3) A(3) by (simp add: conf_node_def)
next
  case (Some sec)
  let ?l = "l\<lparr>cl_last := Some sec\<rparr>"
  consider "g' = g" | "conf_general E c first_time (Some sec) ?l g = Ok (l', g')"
    | d where "conf_tunnel E c sec ?l (cs_daemon g) = Ok d" "cs_daemon g' = d"
    using assms(1) Some by (auto simp: conf_node_def Let_def obind_eq_Ok_iff split: if_splits)
  then show ?thesis
  proof cases
    case 1
    then show ?thesis using assms(3) A(3) by simp
  next
    case 2
    then show ?thesis using conf_general_cinv [OF 2 assms(2,3)] A(3) by simp
  next
    case 3
    then show ?thesis using conf_tunnel_cinv [OF 3(1) assms(3) A(1-3)] A(4) assms(8) Some by simp
  qed
qed

lemma conf_nodes_cinv:
  assumes "ofold (conf_node E c first_time) (l, g) ns = Ok (l', g')" and "sizes_ok c" and "cinv (cs_daemon g)"
    and A: "finite A" "card A \<le> MAX_TUNNELS" and "set (tunnel_names (cs_daemon g)) \<subseteq> A" and "\<forall>n \<in> set ns. \<forall>s. cf_section n = Some s \<longrightarrow> Some s \<in> A"
    and "names_short ns"
  shows "cinv (cs_daemon g') \<and> d_filters (cs_daemon g') = d_filters (cs_daemon g)"
  using assms(1,3,6-8)
proof (induction ns arbitrary: l g)
  case (Cons n ns)
  obtain l1 g1 where 1: "conf_node E c first_time (l, g) n = Ok (l1, g1)" "ofold (conf_node E c first_time) (l1, g1) ns = Ok (l', g')"
    using Cons.prems(1) by (auto simp: obind_eq_Ok_iff)
  have "cinv (cs_daemon g1) \<and> set (tunnel_names (cs_daemon g1)) \<subseteq> A \<and> d_filters (cs_daemon g1) = d_filters (cs_daemon g)"
    using conf_node_cinv [OF 1(1) assms(2) Cons.prems(2) A Cons.prems(3)] Cons.prems(4,5) by (simp add: names_short_def)
  then show ?case using Cons.IH [OF 1(2)] Cons.prems(4,5) by (simp add: names_short_def)
qed simp

section \<open>Removing tunnels\<close>

lemma disconnect_unstarted:
  assumes inv: "dinv s" and i: "i \<in> set (d_rtuns s)" and S: "sodium_ok (en_sodium E)" and no: "t_addrinfo (tun s i) = []"
  shows "mlvpn_rtun_send_disconnect E i s = Fault NullDeref"
proof -
  let ?put = "\<lambda>t. t\<lparr>t_hpsbuf := pktbuffer_put (\<lambda>p. p\<lparr>pkt_type := MLVPN_PKT_DISCONNECT\<rparr>) (t_hpsbuf t)\<rparr>"
  define s0 where "s0 = upd i (\<lambda>t. if mlvpn_cb_is_full (t_hpsbuf t) then t else ?put t) s"
  have send: "mlvpn_rtun_send_disconnect E i s = mlvpn_rtun_send E i True s0" by (simp add: mlvpn_rtun_send_disconnect_def s0_def)
  have b: "buf_ok (t_hpsbuf (tun s0 i))" "buf_ok (t_hpsbuf (tun s i))"
    using tunE [OF inv i] buf_ok_put(1) [of "t_hpsbuf (tun s i)" "\<lambda>p. p\<lparr>pkt_type := MLVPN_PKT_DISCONNECT\<rparr>"]
    by (auto simp: s0_def tun_ok_def pkt_wf_def)
  have "cb_list (t_hpsbuf (tun s i)) = []" "\<not> mlvpn_cb_is_full (t_hpsbuf (tun s i))"
    using tunE [OF inv i] b(2) no by (auto simp: tun_ok_def idle_def buf_ok_def cb_empty_iff cb_full_iff cb_wf_def)
  then have l: "cb_list (t_hpsbuf (tun s0 i)) = [(cb_fresh (t_hpsbuf (tun s i)))\<lparr>pkt_type := MLVPN_PKT_DISCONNECT\<rparr>]"
    using b(2) by (simp add: s0_def cb_list_put buf_ok_def)
  then have ne: "\<not> mlvpn_cb_is_empty (t_hpsbuf (tun s0 i))" using b(1) by (simp add: cb_empty_iff buf_ok_def)
  note sb = sent_buf_ok [OF b(1)]
  have sp: "unat (pkt_len (sent_pkt (t_hpsbuf (tun s0 i)))) \<le> 1456" "pkt_type (sent_pkt (t_hpsbuf (tun s0 i))) \<noteq> MLVPN_PKT_DATA"
    using sent_pkt_hd [OF b(1) ne] l by (simp_all add: cb_fresh_def)
  have S': "sodium_ok (pe_sodium (penv E s0))" using S by (simp add: penv_def)
  obtain wire t' q' where e: "rtun_encap (penv E s0) (set_buf True (sent_buf (t_hpsbuf (tun s0 i))) (tun s0 i)) (d_data_seq s0)
      (sent_pkt (t_hpsbuf (tun s0 i))) = Ok (Some wire, t', q')" "link t' = link (set_buf True (sent_buf (t_hpsbuf (tun s0 i))) (tun s0 i))"
    using encap_sends [OF sb(2) S' sp(1)] by blast
  have "t_addrinfo t' = []" using e(2) no by (simp add: link_def set_buf_def s0_def)
  then show ?thesis unfolding send using e(1) sb(3) by (simp add: rtun_send_unfold Let_def get_buf_def)
qed

text \<open>Dropping a tunnel that was never started dereferences its address, which is a null pointer.\<close>

lemma drop_unstarted_tunnel_crashes:
  assumes "dinv s" and "i \<in> set (d_rtuns s)" and "sodium_ok (en_sodium E)" and "t_addrinfo (tun s i) = []"
  shows "mlvpn_rtun_drop E i s = Fault NullDeref"
  using disconnect_unstarted [OF assms] by (simp add: mlvpn_rtun_drop_def)

lemma runs_disconnect:
  assumes inv: "dinv s" and i: "i \<in> set (d_rtuns s)" and ai: "t_addrinfo (tun s i) \<noteq> []"
  shows "runs False i s (mlvpn_rtun_send_disconnect E i s)"
proof -
  let ?f = "\<lambda>t. if mlvpn_cb_is_full (t_hpsbuf t) then t
     else t\<lparr>t_hpsbuf := pktbuffer_put (\<lambda>p. p\<lparr>pkt_type := MLVPN_PKT_DISCONNECT\<rparr>) (t_hpsbuf t)\<rparr>"
  have b: "buf_ok (t_hpsbuf (?f (tun s i)))"
    using tunE [OF inv i] buf_ok_put(1) [of "t_hpsbuf (tun s i)" "\<lambda>p. p\<lparr>pkt_type := MLVPN_PKT_DISCONNECT\<rparr>"]
    by (auto simp: tun_ok_def pkt_wf_def)
  have "runs False i (upd i ?f s) (mlvpn_rtun_send E i True (upd i ?f s))" if "dinv (upd i ?f s)"
    by (rule runs_send [OF that]) (use i ai in simp_all)
  then show ?thesis unfolding mlvpn_rtun_send_disconnect_def
    by (intro runs_upd [where f = ?f, OF inv]) (use tunE [OF inv i] b ai in \<open>auto simp: tun_ok_def authenticated_def\<close>)
qed

text \<open>The tunnel with the name of \<open>i\<close> is \<open>i\<close>.\<close>

lemma find_by_name:
  assumes "distinct (tunnel_names d)" and "i \<in> set (d_rtuns d)" and "t_name (tun d i) = Some n"
  shows "find (\<lambda>j. mystr_eq (t_name (tun d j)) (t_name (tun d i))) (d_rtuns d) = Some i"
proof -
  have inj: "inj_on (\<lambda>i. t_name (tun d i)) (set (d_rtuns d))" using assms(1) by (simp add: tunnel_names_def distinct_map)
  have ex: "\<exists>j \<in> set (d_rtuns d). mystr_eq (t_name (tun d j)) (t_name (tun d i))"
    using assms(2,3) by (intro bexI [of _ i]) simp_all
  then obtain j where j: "find (\<lambda>j. mystr_eq (t_name (tun d j)) (t_name (tun d i))) (d_rtuns d) = Some j"
    by (cases "find (\<lambda>j. mystr_eq (t_name (tun d j)) (t_name (tun d i))) (d_rtuns d)") (auto simp: find_None_iff)
  then have "j \<in> set (d_rtuns d)" "mystr_eq (t_name (tun d j)) (t_name (tun d i))" by (auto simp: find_Some_iff)
  then have "j = i" using inj_onD [OF inj, of j i] assms(2) by (auto simp: mystr_eq_iff)
  then show ?thesis using j by simp
qed

lemma remove_cinv:
  assumes "dinv d" and "distinct (tunnel_names d)" and "\<forall>j \<in> set (d_rtuns d). j \<noteq> i \<longrightarrow> limits (tun d j)"
    and "\<not> authenticated (tun d i)" and "d_filters d = []"
  shows "cinv ((upd i (\<lambda>t. t\<lparr>t_name := None, t_addrinfo := []\<rparr>) d)\<lparr>d_rtuns := remove1 i (d_rtuns d)\<rparr>)" (is "cinv ?d")
proof -
  have dist: "distinct (d_rtuns d)" using assms(1) by (simp add: dinv_def base_ok_def)
  then have s: "set (remove1 i (d_rtuns d)) = set (d_rtuns d) - {i}" by simp
  have "length (remove1 i (d_rtuns d)) \<le> length (d_rtuns d)" by (simp add: length_remove1)
  then have base: "base_ok ?d" using assms(1,5) s dist by (auto simp: dinv_def base_ok_def distinct_remove1)
  have "wrr_inv ?d" using assms(1,4) s by (auto simp: dinv_def wrr_inv_def)
  moreover have "tunnel_names ?d = map (\<lambda>j. t_name (tun d j)) (remove1 i (d_rtuns d))" using s by (simp add: tunnel_names_def)
  moreover have "inj_on (\<lambda>j. t_name (tun d j)) (set (d_rtuns d))" using assms(2) by (simp add: tunnel_names_def distinct_map)
  then have "distinct (map (\<lambda>j. t_name (tun d j)) (remove1 i (d_rtuns d)))"
    using dist s by (simp add: distinct_map distinct_remove1 inj_on_diff)
  ultimately show ?thesis using base assms(3) s by (auto simp: cinv_def dinv_def)
qed

lemma drop_cinv:
  assumes d: "mlvpn_rtun_drop E i s = Ok s'" and "cinv s" and i: "i \<in> set (d_rtuns s)" and S: "sodium_ok (en_sodium E)" and "d_filters s = []"
  shows "cinv s' \<and> d_rtuns s' = remove1 i (d_rtuns s) \<and> d_filters s' = []"
proof -
  have inv: "dinv s" using assms(2) by (simp add: cinv_def)
  obtain s1 where s1: "mlvpn_rtun_send_disconnect E i s = Ok s1" using d by (auto simp: mlvpn_rtun_drop_def obind_eq_Ok_iff)
  have "t_addrinfo (tun s i) \<noteq> []" using disconnect_unstarted [OF inv i S] s1 by auto
  from runs_disconnect [OF inv i this, of E] s1
  have 1: "dinv s1" "same_net s s1" "\<forall>j. j \<noteq> i \<longrightarrow> tun s1 j = tun s j" by (simp_all add: runs_def)
  have r1: "t_name (tun s1 i) = t_name (tun s i)" using 1(2) by (simp add: same_net_def ident_def)
  have i1: "i \<in> set (d_rtuns s1)" using 1(2) i by (simp add: same_net_def)
  obtain s2 where s2: "mlvpn_rtun_status_down i s1 = Ok s2" "dinv s2" "same_net s1 s2" "d_tunnels s2 = (d_tunnels s1)(i := went_down (tun s1 i))"
    using status_down_ok [OF 1(1) i1] by blast
  define s3 where "s3 = upd i (\<lambda>t. t\<lparr>t_io_timeout := False, t_io_read := False\<rparr>) s2"
  obtain n where n: "t_name (tun s i) = Some n" using tunE [OF inv i] by (auto simp: tun_ok_def)
  have 3: "d_rtuns s3 = d_rtuns s" "d_filters s3 = []" "t_name (tun s3 i) = Some n" "\<not> authenticated (tun s3 i)" "\<forall>j. j \<noteq> i \<longrightarrow> tun s3 j = tun s j"
    using 1(2,3) s2(3,4) r1 n assms(5) by (simp_all add: s3_def same_net_def went_down_def authenticated_def)
  have names: "tunnel_names s3 = tunnel_names s" using 3 n by (auto simp: tunnel_names_def) metis
  have "tun_ok (tun s2 i)" using tunE [OF s2(2)] i1 s2(3) by (simp add: same_net_def)
  then have "tun_ok ((tun s2 i)\<lparr>t_io_timeout := False, t_io_read := False\<rparr>)" by (auto simp: tun_ok_def idle_def)
  then have d3: "dinv s3" unfolding s3_def by (intro inv_upd [OF s2(2)]) (simp_all add: authenticated_def)
  define s4 where "s4 = (upd i (\<lambda>t. t\<lparr>t_name := None, t_addrinfo := []\<rparr>) s3)\<lparr>d_rtuns := remove1 i (d_rtuns s3)\<rparr>"
  have c4: "cinv s4" unfolding s4_def
    by (rule remove_cinv [OF d3 _ _ 3(4,2)]) (use assms(2) names 3(1,5) in \<open>simp_all add: cinv_def\<close>)
  have f: "find (\<lambda>j. mystr_eq (t_name (tun s3 j)) (t_name (tun s3 i))) (d_rtuns s3) = Some i"
    by (rule find_by_name [OF _ _ 3(3)]) (use assms(2) names 3(1) i in \<open>simp_all add: cinv_def\<close>)
  have "update_process_title s4 = Ok s'"
    using d by (simp only: mlvpn_rtun_drop_def s1 s2(1) obind.simps Let_def s3_def [symmetric] f option.case s4_def)
  moreover obtain s5 where s5: "update_process_title s4 = Ok s5" "dinv s5" "same_net s4 s5" "d_tunnels s5 = d_tunnels s4"
    using title_inv [of s4] c4 by (auto simp: cinv_def)
  ultimately have "s' = s5" by simp
  have "tunnel_names s5 = tunnel_names s4" using s5(3,4) by (simp add: tunnel_names_def same_net_def)
  then show ?thesis using \<open>s' = s5\<close> s5 c4 3(1,2) by (auto simp: cinv_def same_net_def s4_def)
qed

lemma delete_cinv:
  assumes "ofold (\<lambda>d i. if conf_keeps c (t_name (tun d i)) then Ok d else mlvpn_rtun_drop E i d) d is = Ok d'" and "cinv d"
    and "d_filters d = []" and "sodium_ok (en_sodium E)" and "set is \<subseteq> set (d_rtuns d)" and "distinct is"
  shows "cinv d' \<and> d_filters d' = []"
  using assms(1,2,3,5,6)
proof (induction "is" arbitrary: d)
  case (Cons i "is")
  let ?f = "\<lambda>d i. if conf_keeps c (t_name (tun d i)) then Ok d else mlvpn_rtun_drop E i d"
  obtain d1 where d1: "?f d i = Ok d1" "ofold ?f d1 is = Ok d'" using Cons.prems(1) by (auto simp: obind_eq_Ok_iff)
  have "cinv d1 \<and> d_filters d1 = [] \<and> set is \<subseteq> set (d_rtuns d1)"
  proof (cases "conf_keeps c (t_name (tun d i))")
    case True
    then show ?thesis using d1(1) Cons.prems by simp
  next
    case False
    then have "mlvpn_rtun_drop E i d = Ok d1" using d1(1) by simp
    from drop_cinv [OF this Cons.prems(2) _ assms(4) Cons.prems(3)] Cons.prems(4,5)
    have d1': "cinv d1" "d_filters d1 = []" "d_rtuns d1 = remove1 i (d_rtuns d)" by auto
    have "distinct (d_rtuns d)" using Cons.prems(2) by (simp add: cinv_def dinv_def base_ok_def)
    then have "set (d_rtuns d1) = set (d_rtuns d) - {i}" using d1'(3) by simp
    then show ?thesis using d1'(1,2) Cons.prems(4,5) by auto
  qed
  then show ?case using Cons.IH [OF d1(2)] Cons.prems(5) by auto
qed simp

section \<open>Filters\<close>

lemma filter_add_cinv:
  assumes "cinv d" and "set is \<subseteq> set (d_rtuns d)"
  shows "cinv (conf_filter_add var val is d) \<and> d_rtuns (conf_filter_add var val is d) = d_rtuns d"
  using assms
proof (induction "is")
  case (Cons i "is")
  have a: "cinv (d\<lparr>d_filters := d_filters d @ [(val, i)]\<rparr>)"
    using Cons.prems by (simp add: cinv_def dinv_def base_ok_def wrr_inv_def tunnel_names_def ball_Un)
  have "cinv (conf_filter_add var val is d) \<and> d_rtuns (conf_filter_add var val is d) = d_rtuns d"
    using Cons.prems by (intro Cons.IH) simp_all
  then show ?case using a by (simp add: mlvpn_filters_add_def)
qed simp

lemma filters_cinv:
  assumes "ofold (conf_filter compile) d ns = Ok d'" and "cinv d"
  shows "cinv d'"
  using assms
proof (rule ofold_invariant [where P = cinv])
  fix s x s'
  assume "cinv s" "conf_filter compile s x = Ok s'"
  then show "cinv s'" using filter_add_cinv [of s "d_rtuns s"]
    by (auto simp: conf_filter_def split: option.splits if_splits)
qed

lemma config_cinv:
  assumes "mlvpn_config E compile parsed first_time g = Ok (r, g')" and "cinv (cs_daemon g)" and "sodium_ok (en_sodium E)"
    and "\<And>c. parsed = Some c \<Longrightarrow> config_fits c (cs_daemon g)"
  shows "cinv (cs_daemon g')"
proof -
  define g0 where "g0 = g\<lparr>cs_daemon := set_options (\<lambda>o1. o1\<lparr>opt_fallback_available := 0\<rparr>) ((cs_daemon g)\<lparr>d_filters := []\<rparr>)\<rparr>"
  have 0: "cinv (cs_daemon g0)" "tunnel_names (cs_daemon g0) = tunnel_names (cs_daemon g)"
    using cinv_no_filters [OF assms(2)] by (simp_all add: g0_def tunnel_names_def)
  show ?thesis
  proof (cases parsed)
    case None
    then show ?thesis using assms(1) 0 by (simp add: mlvpn_config_def g0_def [symmetric])
  next
    case (Some c)
    let ?A = "set (tunnel_names (cs_daemon g)) \<union> set (map cf_section c)"
    have ok: "sizes_ok c" "names_short c" "card ?A \<le> MAX_TUNNELS" using assms(4) [OF Some] by (simp_all add: config_fits_def)
    have sec: "\<forall>n \<in> set c. \<forall>s. cf_section n = Some s \<longrightarrow> Some s \<in> ?A" by (metis UnI2 image_eqI list.set_map)
    obtain l g1 d2 d3 where s: "ofold (conf_node E c first_time) (config_locals_init, g0) c = Ok (l, g1)"
      "(if first_time then Ok (cs_daemon g1) else conf_delete E c (cs_daemon g1)) = Ok d2" "ofold (conf_filter compile) d2 c = Ok d3"
      "cs_daemon g' = d3"
      using assms(1) Some by (auto simp: mlvpn_config_def g0_def [symmetric] obind_eq_Ok_iff)
    have 1: "cinv (cs_daemon g1)" "d_filters (cs_daemon g1) = []" 
      using conf_nodes_cinv [OF s(1) ok(1) 0(1) _ ok(3) _ sec ok(2)] 0(2) by (simp_all add: g0_def)
    have "set (d_rtuns (cs_daemon g1)) \<subseteq> set (d_rtuns (cs_daemon g1))" "distinct (d_rtuns (cs_daemon g1))"
      using 1(1) by (simp_all add: cinv_def dinv_def base_ok_def)
    then have "cinv d2" using s(2) 1 delete_cinv [of c E "cs_daemon g1" "d_rtuns (cs_daemon g1)" d2] assms(3)
      by (simp add: conf_delete_def split: if_splits)
    then show ?thesis using filters_cinv [OF s(3)] s(4) by simp
  qed
qed

end
