(* ===== verification/Program.thy ===== *)
theory Program
  imports Config
begin

text \<open>
  The daemon as a whole (\<^verbatim>\<open>main\<close> of \<^verbatim>\<open>src/mlvpn.c\<close> after its options are read): it starts from the text of a
  configuration file, handles the events of its sockets, timers and device, reads the file again on \<^verbatim>\<open>SIGHUP\<close>, and shuts down on the
  other signals. Shown here: none of the events, and no shut down, makes it fail, and the tunnels keep to the limits.
\<close>

section \<open>Runs\<close>

text \<open>
  From the first reading of the configuration to the event loop: the device is opened (\<open>tunfd\<close> and \<open>dev\<close> are what the privileged process answers) and the weights of the tunnels
  are computed. \<open>now\<close> is the time of the start.
\<close>

definition main_globals :: "mlvpn_options_s \<Rightarrow> int \<Rightarrow> config_state" where
  "main_globals opts now =
     \<lparr>cs_daemon = (daemon_boot opts crypto_key_init None)\<lparr>d_status := mlvpn_status_init\<lparr>st_start_time := now, st_last_reload := now\<rparr>\<rparr>,
      cs_status_command = None, cs_tuntap_type = 0, cs_init_script = []\<rparr>"

definition main_start :: "env \<Rightarrow> (string \<Rightarrow> bool) \<Rightarrow> mlvpn_options_s \<Rightarrow> int \<Rightarrow> config option \<Rightarrow> int \<Rightarrow> string \<Rightarrow> config_state outcome" where
  "main_start E compile opts now parsed tunfd dev =
     (let g0 = main_globals opts now in
      obind (if opt_change_process_title opts then obind (update_process_title (cs_daemon g0)) (\<lambda>d. Ok (g0\<lparr>cs_daemon := d\<rparr>)) else Ok g0) (\<lambda>g1.
      obind (mlvpn_config E compile parsed True g1) (\<lambda>(r, g).
       if r \<noteq> 0 then Fatal ''cannot open config file''
       else if tunfd \<le> 0 then Fatal ''cannot create tunnel device''
       else Ok (g\<lparr>cs_daemon := recalc_weight ((cs_daemon g)\<lparr>d_devname := dev\<rparr>)\<rparr>))))"

inductive operating :: "config_state \<Rightarrow> bool" where
  start: "sodium_ok (en_sodium E) \<Longrightarrow> conf_parseConfig chars False = Ok (Some c) \<Longrightarrow> config_fits c (cs_daemon (main_globals opts now)) \<Longrightarrow>
     main_start E compile opts now (Some c) tunfd dev = Ok g \<Longrightarrow> operating g"
| event: "operating g \<Longrightarrow> sodium_ok (en_sodium E) \<Longrightarrow> enabled E ev (cs_daemon g) \<Longrightarrow> handle E ev (cs_daemon g) = Ok d \<Longrightarrow>
     operating (g\<lparr>cs_daemon := d\<rparr>)"
| reload: "operating g \<Longrightarrow> sodium_ok (en_sodium E) \<Longrightarrow> conf_parseConfig chars err = Ok parsed \<Longrightarrow>
     (\<forall>c. parsed = Some c \<longrightarrow> config_fits c (cs_daemon g)) \<Longrightarrow> mlvpn_config_reload E compile fd parsed now g = Ok g' \<Longrightarrow> operating g'"

inductive_cases operatingE: "operating g"

section \<open>The invariant\<close>

lemma recalc_fields:
  "link (mlvpn_rtun_recalc_weight tuns rtuns i) = link (tuns i)"
proof -
  have "link (foldl (\<lambda>ts i. if 0 < t_bandwidth (ts i) \<and> 0 < total
      then ts(i := (ts i)\<lparr>t_weight := of_nat (unat (t_bandwidth (ts i))) / of_nat (unat total) * 100\<rparr>) else ts) tuns rtuns i) = link (tuns i)"
    for total :: u32
  proof (induction rtuns arbitrary: tuns)
    case (Cons j rtuns)
    show ?case unfolding foldl_Cons Cons.IH by (simp add: link_def)
  qed simp
  then show ?thesis by (simp add: mlvpn_rtun_recalc_weight_def Let_def)
qed

lemma recalc_cinv: "cinv d \<Longrightarrow> cinv (recalc_weight d)"
proof -
  assume c: "cinv d"
  let ?d = "recalc_weight d"
  note l = recalc_fields [of "d_tunnels d" "d_rtuns d"]
  have f: "d_rtuns ?d = d_rtuns d" "\<And>i. link (tun ?d i) = link (tun d i)" using l by (simp_all add: recalc_weight_def)
  have rx: "rx_ok ?d = rx_ok d" by (simp add: rx_ok_def dev_ok_def recalc_weight_def cong: option.case_cong)
  have "dinv ?d" using c link_ok [OF f(2)] rx
    by (simp add: cinv_def dinv_def base_ok_def wrr_inv_def) (simp add: recalc_weight_def)
  then show "cinv ?d" by (rule cinv_tunnels [OF c])
    (use c f link_ident [OF f(2)] in \<open>auto simp: cinv_def limits_def ident_def\<close>)
qed

lemma handle_cinv:
  assumes "cinv s" and "enabled E ev s" and "sodium_ok (en_sodium E)"
  obtains s' where "handle E ev s = Ok s'" "cinv s'"
proof -
  obtain s' where s': "handle E ev s = Ok s'" "dinv s'" "same_net s s'"
    using handle_steps [OF _ assms(2,3)] assms(1) by (auto simp: steps_def cinv_def)
  have "cinv s'" by (rule cinv_tunnels [OF assms(1) s'(2)])
    (use s'(3) assms(1) in \<open>simp_all add: same_net_def cinv_def limits_def ident_def\<close>)
  then show thesis using that s'(1) by blast
qed

lemma reload_cinv:
  assumes "mlvpn_config_reload E compile fd parsed now g = Ok g'" and "cinv (cs_daemon g)" and "sodium_ok (en_sodium E)"
    and "\<forall>c. parsed = Some c \<longrightarrow> config_fits c (cs_daemon g)"
  shows "cinv (cs_daemon g')"
proof (cases "0 < fd")
  case True
  then obtain r g1 where 1: "mlvpn_config E compile parsed False g = Ok (r, g1)"
    using assms(1) by (auto simp: mlvpn_config_reload_def obind_eq_Ok_iff)
  then have "cinv (cs_daemon g1)" using config_cinv [OF 1 assms(2,3)] assms(4) by simp
  then show ?thesis using assms(1) True 1 recalc_cinv by (auto simp: mlvpn_config_reload_def Let_def split: if_splits)
qed (use assms in \<open>simp add: mlvpn_config_reload_def\<close>)

lemma start_cinv:
  assumes "main_start E compile opts now (Some c) tunfd dev = Ok g" and "sodium_ok (en_sodium E)" and "config_fits c (cs_daemon (main_globals opts now))"
  shows "cinv (cs_daemon g)"
proof -
  define d0 where "d0 = cs_daemon (main_globals opts now)"
  have "d_rtuns (daemon_boot opts crypto_key_init None) = []" by (simp add: daemon_boot_def mlvpn_tuntap_init_def)
  then have "cinv (daemon_boot opts crypto_key_init None)" using boot_ok [of None] by (simp add: cinv_def tunnel_names_def)
  then have c0: "cinv d0" by (simp add: d0_def main_globals_def)
  then have "base_ok d0" by (simp add: cinv_def dinv_def)
  from update_process_title_ok [OF this] obtain x where x: "update_process_title d0 = Ok (d0\<lparr>d_title := x\<rparr>)" by blast
  define g2 where "g2 = (if opt_change_process_title opts then (main_globals opts now)\<lparr>cs_daemon := d0\<lparr>d_title := x\<rparr>\<rparr> else main_globals opts now)"
  have 2: "cs_daemon g2 = d0 \<or> cs_daemon g2 = d0\<lparr>d_title := x\<rparr>" by (simp add: g2_def d0_def)
  have "(if opt_change_process_title opts then obind (update_process_title (cs_daemon (main_globals opts now))) (\<lambda>d. Ok ((main_globals opts now)\<lparr>cs_daemon := d\<rparr>))
     else Ok (main_globals opts now)) = Ok g2" using x by (simp add: g2_def d0_def)
  then have m: "obind (mlvpn_config E compile (Some c) True g2) (\<lambda>(r, g).
       if r \<noteq> 0 then Fatal ''cannot open config file''
       else if tunfd \<le> 0 then Fatal ''cannot create tunnel device''
       else Ok (g\<lparr>cs_daemon := recalc_weight ((cs_daemon g)\<lparr>d_devname := dev\<rparr>)\<rparr>)) = Ok g"
    using assms(1) unfolding main_start_def Let_def by (simp only: obind.simps)
  obtain r g1 where 1: "mlvpn_config E compile (Some c) True g2 = Ok (r, g1)" "cs_daemon g = recalc_weight ((cs_daemon g1)\<lparr>d_devname := dev\<rparr>)"
    using m by (auto simp: obind_eq_Ok_iff split: if_splits)
  have "cinv (cs_daemon g2)" "config_fits c (cs_daemon g2)" using 2 c0 assms(3) unfolding d0_def [symmetric]
    by (auto simp: cinv_def tunnel_names_def config_fits_def)
  from config_cinv [OF 1(1) this(1) assms(2)] this(2) have "cinv (cs_daemon g1)" by simp
  then show ?thesis using 1(2) recalc_cinv by simp
qed

lemma operating_cinv: "operating g \<Longrightarrow> cinv (cs_daemon g)"
proof (induction rule: operating.induct)
  case (start E chars c opts now compile tunfd dev g)
  show ?case by (rule start_cinv [OF start(4,1,3)])
next
  case (event g E ev d)
  obtain s' where "handle E ev (cs_daemon g) = Ok s'" "cinv s'" by (rule handle_cinv [OF event.IH event.hyps(3,2)])
  then show ?case using event.hyps(4) by simp
next
  case (reload g E chars err parsed compile fd now g')
  show ?case by (rule reload_cinv [OF reload.hyps(5) reload.IH reload.hyps(2,4)])
qed

section \<open>Shutting down\<close>

text \<open>One tunnel: an authenticated tunnel was started, so there is an address to send to.\<close>

lemma quit_step:
  assumes inv: "dinv s" and i: "i \<in> set (d_rtuns s)"
  shows "runs False i s (let s1 = upd i (\<lambda>t. t\<lparr>t_io_timeout := False, t_io_read := False\<rparr>) s in
      if MLVPN_AUTHOK \<le> t_status (tun s1 i) then mlvpn_rtun_send_disconnect E i s1 else Ok s1)"
proof -
  let ?f = "\<lambda>t. t\<lparr>t_io_timeout := False, t_io_read := False\<rparr>"
  have ok: "tun_ok (?f (tun s i))" using tunE [OF inv i] by (auto simp: tun_ok_def idle_def)
  have "runs False i (upd i ?f s) (if MLVPN_AUTHOK \<le> t_status (tun (upd i ?f s) i) then mlvpn_rtun_send_disconnect E i (upd i ?f s) else Ok (upd i ?f s))"
    if d: "dinv (upd i ?f s)"
  proof (cases "MLVPN_AUTHOK \<le> t_status (tun (upd i ?f s) i)")
    case True
    then have "t_addrinfo (tun (upd i ?f s) i) \<noteq> []" using ok by (auto simp: tun_ok_def idle_def)
    from runs_disconnect [OF d _ this] show ?thesis using True i by simp
  qed (use runs_Ok [OF d] in simp)
  note r = this
  show ?thesis unfolding Let_def by (rule runs_upd [where f = ?f, OF inv _ _ r]) (use ok in \<open>simp_all add: authenticated_def\<close>)
qed

lemma quit_runs:
  assumes "dinv s" and "set is \<subseteq> set (d_rtuns s)"
  shows "\<exists>s'. ofold (\<lambda>s i. let s1 = upd i (\<lambda>t. t\<lparr>t_io_timeout := False, t_io_read := False\<rparr>) s in
      if MLVPN_AUTHOK \<le> t_status (tun s1 i) then mlvpn_rtun_send_disconnect E i s1 else Ok s1) s is = Ok s'"
  using assms
proof (induction "is" arbitrary: s)
  case (Cons i "is")
  obtain s1 where s1: "(let s1 = upd i (\<lambda>t. t\<lparr>t_io_timeout := False, t_io_read := False\<rparr>) s in
      if MLVPN_AUTHOK \<le> t_status (tun s1 i) then mlvpn_rtun_send_disconnect E i s1 else Ok s1) = Ok s1" "dinv s1" "same_net s s1"
    using quit_step [OF Cons.prems(1), of i E] Cons.prems(2) unfolding runs_def by auto
  then show ?case using Cons.IH [OF s1(2)] Cons.prems(2) by (simp add: same_net_def)
qed simp

lemma quit_ok: "dinv s \<Longrightarrow> \<exists>s'. mlvpn_quit E s = Ok s'"
  unfolding mlvpn_quit_def by (rule quit_runs) simp_all

section \<open>Properties of the whole daemon\<close>

text \<open>A file for a server with one tunnel.\<close>

definition ex_file :: "(string \<times> string \<times> string) list" where
  "ex_file = [(''general'', ''mode'', ''server''), (''general'', ''password'', ''secret''), (''dsl'', ''bindport'', ''5080'')]"

lemma ex_file_parsed: "conf_parseConfig (concat (map write_setting ex_file)) False = Ok (Some (map node_of ex_file))"
  by (rule parse_written)
    (simp_all add: ex_file_def setting_ok_def section_ok_def var_ok_def val_ok_def text_ok_def isascii_def)

lemma ex_file_read:
  "conf_getValue (map node_of ex_file) sec var = (if sec = Some ''general'' \<and> var = ''mode'' then (Some ''server'', map node_of (drop 1 ex_file))
     else if sec = Some ''general'' \<and> var = ''password'' then (Some ''secret'', map node_of (drop 2 ex_file))
     else if sec = Some ''dsl'' \<and> var = ''bindport'' then (Some ''5080'', []) else (None, []))"
  by (auto simp: ex_file_def node_of_def mystr_eq_iff)

lemma ex_file_settings:
  "conf_set_str (map node_of ex_file) (Some sec) var def msg =
     (if sec = ''general'' \<and> var = ''mode'' then Ok (Some ''server'') else if sec = ''general'' \<and> var = ''password'' then Ok (Some ''secret'')
      else if sec = ''dsl'' \<and> var = ''bindport'' then Ok (Some ''5080'') else (case msg of Some m \<Rightarrow> Fatal m | None \<Rightarrow> Ok def))"
  "var \<notin> {''mode'', ''password'', ''bindport''} \<Longrightarrow> conf_set_uint (map node_of ex_file) sec' var n = Ok n"
  by (simp_all add: conf_set_str_def conf_set_uint_def ex_file_read)

lemma ex_file_fits: "config_fits (map node_of ex_file) (cs_daemon (main_globals opts now))"
proof -
  have "sizes_ok (map node_of ex_file)" by (simp add: sizes_ok_def ex_file_settings size_ok_def)
  moreover have "names_short (map node_of ex_file)" by (simp add: names_short_def ex_file_def node_of_def)
  moreover have "card {Some ''general'', Some ''dsl''} \<le> MAX_TUNNELS" by simp
  ultimately show ?thesis
    by (simp add: config_fits_def main_globals_def tunnel_names_def daemon_boot_def mlvpn_tuntap_init_def ex_file_def node_of_def insert_commute)
qed

lemma ex_general:
  "\<exists>l' g'. conf_general ex_os (map node_of ex_file) True (Some ''general'') l g = Ok (l', g') \<and> d_rtuns (cs_daemon g') = d_rtuns (cs_daemon g) \<and>
     d_next (cs_daemon g') = d_next (cs_daemon g) \<and> cl_last l' = cl_last l \<and> cl_server l' \<and>
     d_process_title (cs_daemon g') = d_process_title (cs_daemon g)"
  by (simp add: conf_general_def conf_first_def ex_file_settings conf_reorder_def conf_addresses_def set_options_def mystr_eq_iff Let_def)

lemma ex_tunnel:
  assumes "d_rtuns d = []" and "d_next d = 0" and "d_process_title d = None" and "cl_server l"
  shows "\<exists>d'. conf_tunnel ex_os (map node_of ex_file) ''dsl'' l d = Ok d' \<and> d_rtuns d' = [0] \<and> t_io_timeout (tun d' 0)"
  using assms by (simp add: conf_tunnel_def conf_tunnel_read_def ex_file_settings mlvpn_rtun_new_def Let_def update_process_title_def
      rtun_new_struct_def set_options_def)

lemma ex_file_started:
  assumes "\<not> opt_change_process_title opts"
  shows "\<exists>g. main_start ex_os (\<lambda>f. True) opts 100 (Some (map node_of ex_file)) 9 ''mlvpn0'' = Ok g \<and> d_rtuns (cs_daemon g) = [0] \<and>
     t_io_timeout (tun (cs_daemon g) 0)"
proof -
  define c where "c = map node_of ex_file"
  define g00 where "g00 = main_globals opts 100"
  define g0 where "g0 = g00\<lparr>cs_daemon := set_options (\<lambda>o1. o1\<lparr>opt_fallback_available := 0\<rparr>) ((cs_daemon g00)\<lparr>d_filters := []\<rparr>)\<rparr>"
  define l0 where "l0 = config_locals_init\<lparr>cl_last := Some ''general''\<rparr>"
  have 0: "d_rtuns (cs_daemon g0) = []" "d_next (cs_daemon g0) = 0" "d_process_title (cs_daemon g0) = None"
    using assms by (simp_all add: g0_def g00_def main_globals_def set_options_def daemon_boot_def mlvpn_tuntap_init_def)
  obtain l1 g1 where 1: "conf_general ex_os c True (Some ''general'') l0 g0 = Ok (l1, g1)" "d_rtuns (cs_daemon g1) = []" "d_next (cs_daemon g1) = 0"
    "cl_last l1 = Some ''general''" "cl_server l1" "d_process_title (cs_daemon g1) = None"
    using ex_general [of l0 g0] 0 by (auto simp: l0_def c_def)
  obtain d where d: "conf_tunnel ex_os c ''dsl'' (l1\<lparr>cl_last := Some ''dsl''\<rparr>) (cs_daemon g1) = Ok d" "d_rtuns d = [0]" "t_io_timeout (tun d 0)"
    using ex_tunnel [OF 1(2,3,6), of "l1\<lparr>cl_last := Some ''dsl''\<rparr>"] 1(5) by (auto simp: c_def)
  have "ofold (conf_node ex_os c True) (config_locals_init, g0) (map node_of ex_file) = Ok (l1\<lparr>cl_last := Some ''dsl''\<rparr>, g1\<lparr>cs_daemon := d\<rparr>)"
    using 1 d by (simp add: ex_file_def node_of_def conf_node_def is_filters_def mystr_eq_iff l0_def config_locals_init_def)
  moreover have "ofold (conf_filter (\<lambda>f. True)) d (map node_of ex_file) = Ok d"
    by (simp add: ex_file_def node_of_def conf_filter_def is_filters_def)
  ultimately have "\<exists>g. mlvpn_config ex_os (\<lambda>f. True) (Some (map node_of ex_file)) True g00 = Ok (0, g) \<and> cs_daemon g = d"
    by (simp add: mlvpn_config_def c_def g0_def)
  moreover have "t_io_timeout (tun (recalc_weight (d\<lparr>d_devname := n\<rparr>)) 0)" for n
    using d(2,3) by (simp add: recalc_weight_def mlvpn_rtun_recalc_weight_def Let_def)
  ultimately show ?thesis using d(2) assms by (auto simp: main_start_def recalc_weight_def g00_def)
qed

text \<open>
  C2: The daemon as a whole never fails and keeps to its limits: started on any configuration file whose reorder buffer size is a power of two, whose names are
  shorter than 30 characters and that names at most 128 sections, and after any sequence of events and successful reloads of such files, the next event ends normally
  in such a state, a shut down ends normally, no two tunnels have the same name, and every tunnel has a timeout of at least 2 seconds, a
  loss tolerance of at most 100 percent and a latency tolerance of at most 1000 ms.
\<close>

theorem configured_daemon_never_fails:
  assumes "operating g" and "sodium_ok (en_sodium E)"
  shows "(enabled E ev (cs_daemon g) \<longrightarrow> (\<exists>d. handle E ev (cs_daemon g) = Ok d \<and> operating (g\<lparr>cs_daemon := d\<rparr>))) \<and>
     (\<exists>d. mlvpn_quit E (cs_daemon g) = Ok d) \<and> distinct (tunnel_names (cs_daemon g)) \<and>
     (\<forall>i \<in> set (d_rtuns (cs_daemon g)). 2 \<le> t_timeout (tun (cs_daemon g) i) \<and> t_loss_tolerence (tun (cs_daemon g) i) \<le> 100 \<and>
        t_latency_tolerence (tun (cs_daemon g) i) \<le> 1000)"
proof -
  note c = operating_cinv [OF assms(1)]
  have "\<exists>d. handle E ev (cs_daemon g) = Ok d \<and> operating (g\<lparr>cs_daemon := d\<rparr>)" if "enabled E ev (cs_daemon g)"
    using handle_cinv [OF c that assms(2)] operating.event [OF assms that] by blast
  then show ?thesis using c quit_ok [of "cs_daemon g" E] by (simp add: cinv_def limits_def)
qed

theorem configured_daemon_never_fails_witness:
  "\<exists>g. operating g \<and> d_rtuns (cs_daemon g) = [0] \<and> (\<exists>d. handle ex_os (RtunTimeout 0) (cs_daemon g) = Ok d \<and> operating (g\<lparr>cs_daemon := d\<rparr>)) \<and>
     (\<exists>d. mlvpn_quit ex_os (cs_daemon g) = Ok d) \<and> 2 \<le> t_timeout (tun (cs_daemon g) 0)"
proof -
  obtain g where g: "main_start ex_os (\<lambda>f. True) ex_opts 100 (Some (map node_of ex_file)) 9 ''mlvpn0'' = Ok g" "d_rtuns (cs_daemon g) = [0]"
    "t_io_timeout (tun (cs_daemon g) 0)" using ex_file_started [of ex_opts] by (auto simp: ex_opts_def)
  have op: "operating g" by (rule operating.start [OF ex_os_simps(4) ex_file_parsed ex_file_fits g(1)])
  have "enabled ex_os (RtunTimeout 0) (cs_daemon g)" using g(2,3) by (simp add: enabled_def)
  with configured_daemon_never_fails [OF op ex_os_simps(4), of "RtunTimeout 0"] op g(2) show ?thesis by auto
qed

end
