(* ===== verification/Privsep.thy ===== *)
theory Privsep
  imports Tunnel
begin

text \<open>
  Privilege separation (\<^verbatim>\<open>src/privsep.c\<close>, \<^verbatim>\<open>src/privsep_fdpass.c\<close>, \<^verbatim>\<open>root_tuntap_open\<close> of \<^verbatim>\<open>src/tuntap_linux.c\<close>): the privileged parent
  answers requests that arrive on a socket from the unprivileged child. The parent must not trust what it reads, so
  its input is an arbitrary sequence of read results. Shown here: reading and writing do not depend on how the bytes are cut into
  pieces; no input makes the parent access memory outside of its buffers; its state only moves towards less privilege; once it
  is running, the only file it opens and the only program it starts are those fixed before; and what the child's
  functions send is what the parent acts on.
\<close>

unbundle bit_operations_syntax

section \<open>Bytes, strings and the socket\<close>

definition chr8 :: "u8 \<Rightarrow> char" where
  "chr8 b = char_of (unat b)"

text \<open>The C string in an array of bytes, and the bytes of a string with its terminator.\<close>

definition bytes_str :: "bytes \<Rightarrow> string" where
  "bytes_str bs = cstr (map chr8 bs)"

definition str_bytes :: "string \<Rightarrow> bytes" where
  "str_bytes s = map of_char s @ [0]"

text \<open>
  What successive calls of \<^verbatim>\<open>read\<close> return: \<^verbatim>\<open>EINTR\<close> or \<^verbatim>\<open>EAGAIN\<close>, another error or the end, or some bytes, of which a call takes at most
  as many as it asked for. A sequence that ends is a closed socket.
\<close>

datatype read_ev = RdAgain | RdFail | RdData bytes

text \<open>The loop of \<^verbatim>\<open>may_read\<close> and \<^verbatim>\<open>must_read\<close> for \<open>n\<close> bytes; \<open>None\<close> is the return of 1.\<close>

fun may_read :: "nat \<Rightarrow> read_ev list \<Rightarrow> (bytes \<times> read_ev list) option" where
  "may_read n [] = (if n = 0 then Some ([], []) else None)"
| "may_read n (RdAgain # r) = (if n = 0 then Some ([], RdAgain # r) else may_read n r)"
| "may_read n (RdFail # r) = (if n = 0 then Some ([], RdFail # r) else None)"
| "may_read n (RdData d # r) =
     (if n = 0 then Some ([], RdData d # r)
      else if d = [] then None
      else if n < length d then Some (take n d, RdData (drop n d) # r)
      else map_option (\<lambda>(bs, r'). (d @ bs, r')) (may_read (n - length d) r))"

text \<open>The bytes a sequence of read results delivers in all.\<close>

fun stream :: "read_ev list \<Rightarrow> bytes" where
  "stream [] = []"
| "stream (RdAgain # r) = stream r"
| "stream (RdFail # r) = []"
| "stream (RdData d # r) = (if d = [] then [] else d @ stream r)"

text \<open>What successive calls of \<^verbatim>\<open>write\<close> return, and whether the loop of \<^verbatim>\<open>must_write\<close> gets all bytes out.\<close>

datatype write_ev = WrAgain | WrFail | WrDone nat

fun write_all :: "nat \<Rightarrow> write_ev list \<Rightarrow> bool" where
  "write_all n [] \<longleftrightarrow> n = 0"
| "write_all n (WrAgain # r) \<longleftrightarrow> n = 0 \<or> write_all n r"
| "write_all n (WrFail # r) \<longleftrightarrow> n = 0"
| "write_all n (WrDone k # r) \<longleftrightarrow> n = 0 \<or> k \<noteq> 0 \<and> write_all (n - k) r"

section \<open>State of the parent\<close>

datatype priv_state = STATE_INIT | STATE_CONFIG | STATE_RUNNING | STATE_QUIT

fun state_value :: "priv_state \<Rightarrow> nat" where
  "state_value STATE_INIT = 0"
| "state_value STATE_CONFIG = 1"
| "state_value STATE_RUNNING = 2"
| "state_value STATE_QUIT = 3"

datatype cmd_types = PRIV_OPEN_CONFIG | PRIV_INIT_SCRIPT | PRIV_OPEN_TUN | PRIV_RUN_SCRIPT | PRIV_RELOAD_RESOLVER
  | PRIV_GETADDRINFO | PRIV_SET_RUNNING_STATE

definition cmd_table :: "cmd_types list" where
  "cmd_table = [PRIV_OPEN_CONFIG, PRIV_INIT_SCRIPT, PRIV_OPEN_TUN, PRIV_RUN_SCRIPT, PRIV_RELOAD_RESOLVER, PRIV_GETADDRINFO,
     PRIV_SET_RUNNING_STATE]"

definition cmd_of :: "int \<Rightarrow> cmd_types option" where
  "cmd_of c = (if 0 \<le> c \<and> c < 7 then Some (cmd_table ! nat c) else None)"

fun cmd_value :: "cmd_types \<Rightarrow> int" where
  "cmd_value PRIV_OPEN_CONFIG = 0"
| "cmd_value PRIV_INIT_SCRIPT = 1"
| "cmd_value PRIV_OPEN_TUN = 2"
| "cmd_value PRIV_RUN_SCRIPT = 3"
| "cmd_value PRIV_RELOAD_RESOLVER = 4"
| "cmd_value PRIV_GETADDRINFO = 5"
| "cmd_value PRIV_SET_RUNNING_STATE = 6"

text \<open>An element of the list \<^verbatim>\<open>getaddrinfo\<close> returns.\<close>

record gai =
  g_flags :: u32
  g_family :: u32
  g_socktype :: u32
  g_protocol :: u32
  g_addr :: bytes

text \<open>What goes to the child: bytes, and descriptors with the \<^verbatim>\<open>errno\<close> in case there is none.\<close>

datatype priv_out = OutBytes bytes | OutFd int "int option"

text \<open>
  What the parent does with its privileges: open a file, look at the mode of one, create a device, run a program with arguments and
  environment.
\<close>

datatype priv_act =
    ActOpen string
  | ActStat string "u32 option"
  | ActTun int string int
  | ActScript string "string list" "string list"

record priv =
  pv_in :: "read_ev list"
  pv_state :: priv_state
  pv_config :: string
  pv_script :: string
  pv_out :: "priv_out list"
  pv_acts :: "priv_act list"

text \<open>Answers of the operating system to the parent.\<close>

record psys =
  ps_write :: "bytes \<Rightarrow> write_ev list"
  ps_open :: "string \<Rightarrow> int"
  ps_errno :: int
  ps_strerror :: string
  ps_stat :: "string \<Rightarrow> u32 option"
  ps_tun_open :: int
  ps_tunsetiff :: "int \<Rightarrow> string \<Rightarrow> string option"
  ps_socket :: int
  ps_setmtu :: "int \<Rightarrow> bool"
  ps_getaddrinfo :: "string option \<Rightarrow> string option \<Rightarrow> bytes \<Rightarrow> gai list"
  ps_alloc :: "nat \<Rightarrow> bool"
  ps_fork :: int
  ps_wait :: int

abbreviation (input) MAXPATHLEN :: nat where "MAXPATHLEN \<equiv> 4096"
abbreviation (input) ERRMSGSIZ :: nat where "ERRMSGSIZ \<equiv> 8192"

text \<open>\<^verbatim>\<open>sizeof(struct addrinfo)\<close>.\<close>

abbreviation (input) ADDRINFOSIZ :: nat where "ADDRINFOSIZ \<equiv> 48"

section \<open>Reading and writing\<close>

definition must_read :: "nat \<Rightarrow> priv \<Rightarrow> (bytes \<times> priv) outcome" where
  "must_read n s = (case may_read n (pv_in s) of
       None \<Rightarrow> Fatal ''_exit(0)''
     | Some (bs, r) \<Rightarrow> Ok (bs, s\<lparr>pv_in := r\<rparr>))"

definition must_write :: "psys \<Rightarrow> bytes \<Rightarrow> priv \<Rightarrow> priv outcome" where
  "must_write S bs s =
     (if write_all (length bs) (ps_write S bs) then Ok (s\<lparr>pv_out := pv_out s @ [OutBytes bs]\<rparr>) else Fatal ''_exit(0)'')"

text \<open>A \<^verbatim>\<open>size_t\<close> and an \<^verbatim>\<open>int\<close>.\<close>

definition read_size :: "priv \<Rightarrow> (nat \<times> priv) outcome" where
  "read_size s = obind (must_read 8 s) (\<lambda>(bs, s1). Ok (unat (word_of_le bs :: u64), s1))"

definition read_int :: "priv \<Rightarrow> (int \<times> priv) outcome" where
  "read_int s = obind (must_read 4 s) (\<lambda>(bs, s1). Ok (sint (word_of_le bs :: u32), s1))"

definition size_bytes :: "nat \<Rightarrow> bytes" where
  "size_bytes n = word_le (of_nat n :: u64)"

definition int_bytes :: "int \<Rightarrow> bytes" where
  "int_bytes i = word_le (of_int i :: u32)"

text \<open>Read \<open>len\<close> bytes into an array of \<open>sz\<close> bytes and terminate the string at \<open>len - 1\<close>.\<close>

definition read_str :: "nat \<Rightarrow> nat \<Rightarrow> priv \<Rightarrow> (string \<times> priv) outcome" where
  "read_str sz len s =
     (if sz < len \<or> len = 0 then Fault OutOfBounds
      else obind (must_read len s) (\<lambda>(bs, s1). Ok (bytes_str (butlast bs), s1)))"

definition send_fd :: "psys \<Rightarrow> int \<Rightarrow> priv \<Rightarrow> priv" where
  "send_fd S fd s = s\<lparr>pv_out := pv_out s @ [if 0 \<le> fd then OutFd 0 (Some fd) else OutFd (ps_errno S) None]\<rparr>"

text \<open>\<^verbatim>\<open>receive_fd\<close>; the kernel numbers the descriptor anew.\<close>

definition receive_fd :: "(int \<Rightarrow> int) \<Rightarrow> priv_out \<Rightarrow> int" where
  "receive_fd newfd m = (case m of
       OutFd result c \<Rightarrow> if result = 0 then (case c of None \<Rightarrow> - 1 | Some fd \<Rightarrow> newfd fd) else - 1
     | OutBytes bs \<Rightarrow> - 1)"

definition act :: "priv_act \<Rightarrow> priv \<Rightarrow> priv" where
  "act a s = s\<lparr>pv_acts := pv_acts s @ [a]\<rparr>"

section \<open>The requests\<close>

text \<open>\<^verbatim>\<open>increase_state\<close>; its second check cannot fail on a value of the enumeration.\<close>

definition increase_state :: "priv_state \<Rightarrow> priv \<Rightarrow> priv outcome" where
  "increase_state st s =
     (if state_value st \<le> state_value (pv_state s) then Fatal ''attempt to decrease or match current state''
      else Ok (s\<lparr>pv_state := st\<rparr>))"

definition root_open_file :: "psys \<Rightarrow> string \<Rightarrow> priv \<Rightarrow> int \<times> priv" where
  "root_open_file S path s =
     (if path \<noteq> [] \<and> hd path = CHR ''|'' then (- 1, s) else (ps_open S path, act (ActOpen path) s))"

text \<open>\<^verbatim>\<open>case PRIV_OPEN_CONFIG\<close>. \<^verbatim>\<open>strlcpy(allowed_configfile, path, len)\<close> keeps \<open>len - 1\<close> characters.\<close>

definition srv_open_config :: "psys \<Rightarrow> priv \<Rightarrow> priv outcome" where
  "srv_open_config S s0 =
     obind (read_size s0) (\<lambda>(len, s1).
       if len = 0 \<or> MAXPATHLEN < len then Fatal ''_exit(0)''
       else obind (read_str MAXPATHLEN len s1) (\<lambda>(path, s2).
         let s3 = (if pv_state s2 = STATE_CONFIG then s2\<lparr>pv_config := fit len path\<rparr> else s2) in
         if pv_config s3 = [] then Fatal ''empty configuration file path''
         else let (fd, s4) = root_open_file S (pv_config s3) s3 in Ok (send_fd S fd s4)))"

abbreviation (input) MLVPN_TUNTAPMODE_TUN :: int where "MLVPN_TUNTAPMODE_TUN \<equiv> 0"
abbreviation (input) MLVPN_TUNTAPMODE_TAP :: int where "MLVPN_TUNTAPMODE_TAP \<equiv> 1"

text \<open>\<^verbatim>\<open>root_tuntap_open\<close>: the descriptor and the name, which the kernel may have chosen.\<close>

definition root_tuntap_open :: "psys \<Rightarrow> int \<Rightarrow> string \<Rightarrow> int \<Rightarrow> int \<times> string" where
  "root_tuntap_open S mode devname mtu =
     (let fd = ps_tun_open S in
      if fd < 0 then (fd, devname)
      else case ps_tunsetiff S mode (fit MLVPN_IFNAMSIZ devname) of
          None \<Rightarrow> (- 1, devname)
        | Some ifname \<Rightarrow>
            if 0 \<le> ps_socket S \<and> \<not> ps_setmtu S mtu then (- 1, devname)
            else (fd, if 0 < fd then fit MLVPN_IFNAMSIZ ifname else devname))"

definition read_ifname :: "priv \<Rightarrow> (string \<times> priv) outcome" where
  "read_ifname s =
     obind (read_size s) (\<lambda>(len, s1).
       if MLVPN_IFNAMSIZ < len then Fatal ''_exit(0)''
       else if 0 < len then read_str MLVPN_IFNAMSIZ len s1
       else Ok ([], s1))"

definition srv_open_tun :: "psys \<Rightarrow> priv \<Rightarrow> priv outcome" where
  "srv_open_tun S s0 =
     (if pv_state s0 \<noteq> STATE_CONFIG then Fatal ''_exit(0)''
      else obind (read_int s0) (\<lambda>(mode, s1).
        if mode \<noteq> MLVPN_TUNTAPMODE_TUN \<and> mode \<noteq> MLVPN_TUNTAPMODE_TAP then Fatal ''_exit(0)''
        else obind (read_ifname s1) (\<lambda>(name, s3).
          obind (read_int s3) (\<lambda>(mtu, s4).
            if mtu < 0 \<or> 1500 < mtu then Fatal ''priv_open_tun: wrong mtu.''
            else let (fd, name') = root_tuntap_open S mode name mtu; s5 = act (ActTun mode name mtu) s4 in
              if fd < 0 then must_write S (size_bytes 0) s5
              else obind (must_write S (size_bytes (length name' + 1)) s5) (\<lambda>s6.
                   obind (must_write S (str_bytes name') s6) (\<lambda>s7. Ok (send_fd S fd s7)))))))"

text \<open>
  The check of the status script: the bits of \<^verbatim>\<open>S_IRWXG|S_IRWXO\<close> must be clear, \<^verbatim>\<open>S_IXUSR\<close> set. The message is empty
  when the script is accepted.
\<close>

definition script_error :: "psys \<Rightarrow> string \<Rightarrow> string" where
  "script_error S path = (case ps_stat S path of
       None \<Rightarrow> fit ERRMSGSIZ (''Unable to open file '' @ path @ '':'' @ ps_strerror S)
     | Some mode \<Rightarrow>
         if mode AND 0x3F \<noteq> 0 then fit ERRMSGSIZ (path @ '' is group/other accessible'')
         else if mode AND 0x40 = 0 then fit ERRMSGSIZ (path @ '' is not executable'')
         else [])"

definition srv_init_script :: "psys \<Rightarrow> priv \<Rightarrow> priv outcome" where
  "srv_init_script S s0 =
     (if pv_state s0 \<noteq> STATE_CONFIG then Fatal ''_exit(0)''
      else obind (read_size s0) (\<lambda>(len, s1).
        if len = 0 \<or> MAXPATHLEN < len then Fatal ''_exit(0)''
        else obind (read_str MAXPATHLEN len s1) (\<lambda>(path, s2).
          let msg = script_error S path;
              s2' = act (ActStat path (ps_stat S path)) s2;
              s3 = (if msg = [] then s2'\<lparr>pv_script := fit len path\<rparr> else s2')
          in obind (must_write S (size_bytes (length msg + 1)) s3) (must_write S (str_bytes msg)))))"

text \<open>A host or service name: an absent or an empty one is a null pointer.\<close>

definition read_name :: "priv \<Rightarrow> (string option \<times> priv) outcome" where
  "read_name s =
     obind (read_size s) (\<lambda>(len, s1).
       if MLVPN_MAXHNAMSTR < len then Fatal ''_exit(0)''
       else if 0 < len then obind (read_str MLVPN_MAXHNAMSTR len s1) (\<lambda>(n, s2). Ok (if n = [] then None else Some n, s2))
       else Ok (None, s1))"

definition gai_bytes :: "gai \<Rightarrow> bytes list" where
  "gai_bytes g = [word_le (g_flags g), word_le (g_family g), word_le (g_socktype g), word_le (g_protocol g),
     word_le (of_nat (length (g_addr g)) :: u32), g_addr g]"

definition srv_getaddrinfo :: "psys \<Rightarrow> priv \<Rightarrow> priv outcome" where
  "srv_getaddrinfo S s0 =
     obind (read_name s0) (\<lambda>(host, s1).
     obind (read_name s1) (\<lambda>(serv, s2).
     obind (must_read ADDRINFOSIZ s2) (\<lambda>(hints, s3).
       let res = ps_getaddrinfo S host serv hints in
       obind (must_write S (size_bytes (length res)) s3) (\<lambda>s4.
         ofold (\<lambda>s bs. must_write S bs s) s4 (concat (map gai_bytes res))))))"

text \<open>\<open>n\<close> strings of any length, each in memory allocated for it.\<close>

primrec read_args :: "psys \<Rightarrow> nat \<Rightarrow> priv \<Rightarrow> (string list \<times> priv) outcome" where
  "read_args S 0 s = Ok ([], s)"
| "read_args S (Suc n) s =
     obind (read_size s) (\<lambda>(len, s1).
       if len = 0 then Fatal ''_exit(0)''
       else if \<not> ps_alloc S len then Fatal ''_exit(0)''
       else obind (read_str len len s1) (\<lambda>(a, s2).
            obind (read_args S n s2) (\<lambda>(rest, s3). Ok (a # rest, s3))))"

text \<open>A counted list of strings: \<^verbatim>\<open>calloc(n + 1, sizeof(char *))\<close>, where the sum of \<^verbatim>\<open>int\<close>s may overflow.\<close>

definition read_vector :: "psys \<Rightarrow> priv \<Rightarrow> (string list \<times> priv) outcome" where
  "read_vector S s =
     obind (read_int s) (\<lambda>(n, s1).
       if n \<le> 0 then Fatal ''_exit(0)''
       else if n = 2 ^ 31 - 1 then Fault Undefined
       else if \<not> ps_alloc S (8 * (nat n + 1)) then Fatal ''_exit(0)''
       else read_args S (nat n) s1)"

text \<open>\<^verbatim>\<open>root_launch_script\<close>: the status of the script, or -1 when it was not started.\<close>

definition root_launch_script :: "psys \<Rightarrow> string \<Rightarrow> string list \<Rightarrow> string list \<Rightarrow> priv \<Rightarrow> int \<times> priv" where
  "root_launch_script S script argv env s =
     (if 0 < ps_fork S then (ps_wait S, act (ActScript script (script # argv) env) s) else (- 1, s))"

definition srv_run_script :: "psys \<Rightarrow> priv \<Rightarrow> priv outcome" where
  "srv_run_script S s0 =
     obind (read_vector S s0) (\<lambda>(argv, s1).
     obind (read_vector S s1) (\<lambda>(env, s2).
       let (i, s3) = (if pv_script s2 = [] then (- 1, s2) else root_launch_script S (pv_script s2) argv env s2)
       in must_write S (int_bytes i) s3))"

text \<open>One turn of the loop of \<^verbatim>\<open>priv_init\<close>: \<open>None\<close> when the command cannot be read, which ends the loop.\<close>

definition priv_serve :: "psys \<Rightarrow> priv \<Rightarrow> (priv option) outcome" where
  "priv_serve S s =
     (case may_read 4 (pv_in s) of
        None \<Rightarrow> Ok None
      | Some (bs, r) \<Rightarrow>
          let s1 = s\<lparr>pv_in := r\<rparr> in
          obind (case cmd_of (sint (word_of_le bs :: u32)) of
              Some PRIV_OPEN_CONFIG \<Rightarrow> srv_open_config S s1
            | Some PRIV_OPEN_TUN \<Rightarrow> srv_open_tun S s1
            | Some PRIV_INIT_SCRIPT \<Rightarrow> srv_init_script S s1
            | Some PRIV_GETADDRINFO \<Rightarrow> srv_getaddrinfo S s1
            | Some PRIV_RUN_SCRIPT \<Rightarrow> srv_run_script S s1
            | Some PRIV_RELOAD_RESOLVER \<Rightarrow> Ok s1
            | Some PRIV_SET_RUNNING_STATE \<Rightarrow> increase_state STATE_RUNNING s1
            | None \<Rightarrow> Fatal ''unknown command'') (\<lambda>s2. Ok (Some s2)))"

text \<open>\<^verbatim>\<open>sig_got_chld\<close>, when the process that ended is the child.\<close>

definition sig_got_chld :: "priv \<Rightarrow> priv" where
  "sig_got_chld s = (if state_value (pv_state s) < state_value STATE_QUIT then s\<lparr>pv_state := STATE_QUIT\<rparr> else s)"

section \<open>The child's side\<close>

text \<open>What each function of the child writes, then what it makes of the answer. The lengths include the terminator.\<close>

definition put_str :: "string \<Rightarrow> bytes" where
  "put_str s = size_bytes (length s + 1) @ str_bytes s"

definition priv_open_config :: "string \<Rightarrow> bytes" where
  "priv_open_config path = int_bytes (cmd_value PRIV_OPEN_CONFIG) @ put_str path"

definition priv_open_tun :: "int \<Rightarrow> string option \<Rightarrow> int \<Rightarrow> bytes" where
  "priv_open_tun mode devname mtu = int_bytes (cmd_value PRIV_OPEN_TUN) @ int_bytes mode @
     (case devname of None \<Rightarrow> size_bytes 0 | Some n \<Rightarrow> put_str n) @ int_bytes mtu"

definition priv_open_tun_reply :: "(int \<Rightarrow> int) \<Rightarrow> bool \<Rightarrow> priv_out \<Rightarrow> priv \<Rightarrow> (int \<times> string option) outcome" where
  "priv_open_tun_reply newfd named m s =
     obind (read_size s) (\<lambda>(len, s1).
       if 0 < len \<and> len < MLVPN_IFNAMSIZ \<and> named
       then obind (read_str MLVPN_IFNAMSIZ len s1) (\<lambda>(n, s2). Ok (receive_fd newfd m, Some n))
       else if len = 0 then Ok (0, None)
       else Fatal ''device name returned by privileged service is too long.'')"

definition put_name :: "string option \<Rightarrow> bytes" where
  "put_name n = (case n of None \<Rightarrow> size_bytes 0 | Some h \<Rightarrow> put_str (fit MLVPN_MAXHNAMSTR h))"

definition priv_getaddrinfo :: "string option \<Rightarrow> string option \<Rightarrow> bytes \<Rightarrow> bytes" where
  "priv_getaddrinfo host serv hints =
     int_bytes (cmd_value PRIV_GETADDRINFO) @ put_name host @ put_name serv @ hints"

text \<open>One address; the result of \<^verbatim>\<open>malloc\<close> is used unchecked.\<close>

definition read_gai :: "psys \<Rightarrow> priv \<Rightarrow> (gai \<times> priv) outcome" where
  "read_gai S s =
     (if \<not> ps_alloc S ADDRINFOSIZ then Fault NullDeref
      else obind (must_read 4 s) (\<lambda>(fl, s1).
           obind (must_read 4 s1) (\<lambda>(fa, s2).
           obind (must_read 4 s2) (\<lambda>(ty, s3).
           obind (must_read 4 s3) (\<lambda>(pr, s4).
           obind (must_read 4 s4) (\<lambda>(l, s5).
             let n = unat (word_of_le l :: u32) in
             if 0 < n \<and> \<not> ps_alloc S n then Fault NullDeref
             else obind (must_read n s5) (\<lambda>(a, s6).
               Ok (\<lparr>g_flags = word_of_le fl, g_family = word_of_le fa, g_socktype = word_of_le ty,
                    g_protocol = word_of_le pr, g_addr = a\<rparr>, s6))))))))"

primrec read_gais :: "psys \<Rightarrow> nat \<Rightarrow> priv \<Rightarrow> (gai list \<times> priv) outcome" where
  "read_gais S 0 s = Ok ([], s)"
| "read_gais S (Suc n) s =
     obind (read_gai S s) (\<lambda>(g, s1). obind (read_gais S n s1) (\<lambda>(gs, s2). Ok (g # gs, s2)))"

definition priv_getaddrinfo_reply :: "psys \<Rightarrow> priv \<Rightarrow> (gai list \<times> priv) outcome" where
  "priv_getaddrinfo_reply S s = obind (read_size s) (\<lambda>(n, s1). read_gais S n s1)"

definition priv_init_script :: "string \<Rightarrow> bytes" where
  "priv_init_script path = int_bytes (cmd_value PRIV_INIT_SCRIPT) @ put_str path"

definition priv_init_script_reply :: "priv \<Rightarrow> (int \<times> priv) outcome" where
  "priv_init_script_reply s =
     obind (read_size s) (\<lambda>(len, s1).
       if len = 0 then Fatal ''priv_init_script: invalid answer from server''
       else obind (read_str ERRMSGSIZ (min len ERRMSGSIZ) s1) (\<lambda>(msg, s2). Ok (if msg \<noteq> [] then - 1 else 0, s2)))"

definition put_vector :: "string list \<Rightarrow> bytes" where
  "put_vector xs = int_bytes (int (length xs)) @ concat (map put_str xs)"

definition priv_run_script :: "string list \<Rightarrow> string list \<Rightarrow> bytes" where
  "priv_run_script argv env = int_bytes (cmd_value PRIV_RUN_SCRIPT) @ put_vector argv @ put_vector env"

definition priv_reload_resolver :: bytes where
  "priv_reload_resolver = int_bytes (cmd_value PRIV_RELOAD_RESOLVER)"

definition priv_set_running_state :: bytes where
  "priv_set_running_state = int_bytes (cmd_value PRIV_SET_RUNNING_STATE)"

section \<open>Reading does not depend on how the bytes arrive\<close>

lemma may_read_stream:
  "may_read n evs = Some (bs, r) \<Longrightarrow> n \<le> length (stream evs) \<and> bs = take n (stream evs) \<and> stream r = drop n (stream evs)"
  by (induction n evs arbitrary: bs r rule: may_read.induct) (fastforce simp: le_diff_conv split: if_splits)+

lemma may_read_enough: "n \<le> length (stream evs) \<Longrightarrow> may_read n evs \<noteq> None"
  by (induction n evs rule: may_read.induct) (auto simp: le_diff_conv split: if_splits)

lemma may_read_app:
  assumes "stream evs = bs @ rest"
  shows "\<exists>r. may_read (length bs) evs = Some (bs, r) \<and> stream r = rest"
proof -
  obtain cs r where r: "may_read (length bs) evs = Some (cs, r)" using may_read_enough [of "length bs" evs] assms by auto
  then show ?thesis using may_read_stream [OF r] assms by simp
qed

lemma must_read_app:
  assumes "stream (pv_in s) = bs @ rest" and "n = length bs"
  shows "\<exists>r. must_read n s = Ok (bs, s\<lparr>pv_in := r\<rparr>) \<and> stream r = rest"
  using may_read_app [OF assms(1)] assms(2) by (auto simp: must_read_def)

section \<open>Memory safety\<close>

definition safe :: "'a outcome \<Rightarrow> bool" where
  "safe r \<longleftrightarrow> r \<noteq> Fault OutOfBounds \<and> r \<noteq> Fault NullDeref"

lemma safe_Ok [simp]: "safe (Ok x)" "safe (Fatal m)" "safe (Fault Undefined)"
  by (simp_all add: safe_def)

lemma safe_bind: "safe m \<Longrightarrow> (\<And>x. m = Ok x \<Longrightarrow> safe (f x)) \<Longrightarrow> safe (obind m f)"
  by (cases m) (auto simp: safe_def)

lemma safe_bind2: "safe m \<Longrightarrow> (\<And>a b. m = Ok (a, b) \<Longrightarrow> safe (f a b)) \<Longrightarrow> safe (obind m (\<lambda>(a, b). f a b))"
  by (rule safe_bind) auto

lemma safe_if: "(c \<Longrightarrow> safe a) \<Longrightarrow> (\<not> c \<Longrightarrow> safe b) \<Longrightarrow> safe (if c then a else b)"
  by simp

lemma safe_ofold: "(\<And>s x. safe (f s x)) \<Longrightarrow> safe (ofold f s xs)"
  by (induction xs arbitrary: s) (auto intro: safe_bind)

lemma safe_read: "safe (must_read n s)" "safe (read_size s)" "safe (read_int s)" "safe (must_write S bs s)"
  by (auto simp: must_read_def read_size_def read_int_def must_write_def intro!: safe_bind split: option.split)

lemma safe_read_str: "0 < len \<Longrightarrow> len \<le> sz \<Longrightarrow> safe (read_str sz len s)"
  unfolding read_str_def by (intro safe_if safe_bind2 safe_read safe_Ok) auto

lemmas safe_intros = safe_if safe_bind2 safe_read safe_read_str safe_Ok

lemma safe_read_ifname: "safe (read_ifname s)"
  unfolding read_ifname_def by (intro safe_intros) auto

lemma safe_read_name: "safe (read_name s)"
  unfolding read_name_def by (intro safe_intros) auto

lemma safe_read_args: "safe (read_args S n s)"
  by (induction n arbitrary: s) (auto intro!: safe_intros simp: not_less)

lemma safe_read_vector: "safe (read_vector S s)"
  unfolding read_vector_def by (intro safe_intros safe_read_args)

lemma safe_open_config: "safe (srv_open_config S s)"
  unfolding srv_open_config_def Let_def by (intro safe_intros) (auto split: prod.split)

lemma safe_open_tun: "safe (srv_open_tun S s)"
  unfolding srv_open_tun_def Let_def by (intro safe_intros safe_read_ifname) (auto split: prod.split intro!: safe_if safe_bind safe_read)

lemma safe_init_script: "safe (srv_init_script S s)"
  unfolding srv_init_script_def Let_def by (intro safe_intros) (auto intro!: safe_bind safe_read)

lemma safe_getaddrinfo: "safe (srv_getaddrinfo S s)"
  unfolding srv_getaddrinfo_def Let_def by (intro safe_intros safe_read_name safe_bind safe_ofold)

lemma safe_run_script: "safe (srv_run_script S s)"
  unfolding srv_run_script_def Let_def by (intro safe_intros safe_read_vector) (auto split: prod.split intro!: safe_read)

lemma safe_serve: "safe (priv_serve S s)"
  unfolding priv_serve_def Let_def
  by (auto intro!: safe_bind safe_open_config safe_open_tun safe_init_script safe_getaddrinfo safe_run_script
      simp: increase_state_def split: option.split cmd_types.split)

section \<open>What a request changes\<close>

text \<open>Reading only consumes input, writing only produces output.\<close>

definition only_io :: "priv \<Rightarrow> priv \<Rightarrow> bool" where
  "only_io s s' \<longleftrightarrow> pv_state s' = pv_state s \<and> pv_config s' = pv_config s \<and> pv_script s' = pv_script s \<and>
     pv_acts s' = pv_acts s \<and> length (stream (pv_in s')) \<le> length (stream (pv_in s))"

lemma only_io_refl [simp]: "only_io s s"
  by (simp add: only_io_def)

lemma only_io_trans [trans]: "only_io a b \<Longrightarrow> only_io b c \<Longrightarrow> only_io a c"
  by (simp add: only_io_def)

lemma must_read_only_io: "must_read n s = Ok (x, s') \<Longrightarrow> only_io s s' \<and> length (stream (pv_in s')) + n = length (stream (pv_in s))"
  using may_read_stream [of n "pv_in s"] by (auto simp: must_read_def only_io_def split: option.splits)

lemma read_only_io:
  "read_size s = Ok (k, s') \<Longrightarrow> only_io s s'" "read_int s = Ok (j, s') \<Longrightarrow> only_io s s'"
  "read_str sz len s = Ok (t, s') \<Longrightarrow> only_io s s'" "must_write S bs s = Ok s' \<Longrightarrow> only_io s s'"
  using must_read_only_io
  by (auto simp: read_size_def read_int_def read_str_def obind_eq_Ok_iff split: if_splits)
    (auto simp: must_write_def only_io_def split: if_splits)

lemma send_fd_only_io [simp]: "only_io s (send_fd S fd s)"
  by (simp add: send_fd_def only_io_def)

lemma read_name_only_io: "read_name s = Ok (x, s') \<Longrightarrow> only_io s s'"
  by (auto simp: read_name_def obind_eq_Ok_iff split: if_splits dest!: read_only_io intro: only_io_trans)

lemma read_ifname_only_io: "read_ifname s = Ok (x, s') \<Longrightarrow> only_io s s'"
  by (auto simp: read_ifname_def obind_eq_Ok_iff split: if_splits dest!: read_only_io intro: only_io_trans)

lemma read_args_only_io: "read_args S n s = Ok (x, s') \<Longrightarrow> only_io s s'"
  by (induction n arbitrary: s x)
    (auto simp: obind_eq_Ok_iff split: if_splits dest!: read_only_io intro: only_io_trans)

lemma read_vector_only_io: "read_vector S s = Ok (x, s') \<Longrightarrow> only_io s s'"
  by (auto simp: read_vector_def obind_eq_Ok_iff split: if_splits dest!: read_only_io read_args_only_io intro: only_io_trans)

lemma writes_only_io: "ofold (\<lambda>s bs. must_write S bs s) s xs = Ok s' \<Longrightarrow> only_io s s'"
  by (induction xs arbitrary: s) (auto simp: obind_eq_Ok_iff dest!: read_only_io intro: only_io_trans)

lemmas io_dests = read_only_io read_name_only_io read_args_only_io read_vector_only_io writes_only_io

text \<open>
  What one request may do: the state never moves back; the paths and devices are only touched while the configuration is read, and a script path
  only after its mode was found to be accessible to its owner alone and executable; the file opened is the configuration file and the program
  run the script.
\<close>

definition owner_only :: "u32 \<Rightarrow> bool" where
  "owner_only mode \<longleftrightarrow> mode AND 0x3F = 0 \<and> mode AND 0x40 \<noteq> 0"

fun permitted :: "priv \<Rightarrow> priv \<Rightarrow> priv_act \<Rightarrow> bool" where
  "permitted s s' (ActOpen p) \<longleftrightarrow> p = pv_config s'"
| "permitted s s' (ActStat p m) \<longleftrightarrow> pv_state s = STATE_CONFIG"
| "permitted s s' (ActTun mode name mtu) \<longleftrightarrow> pv_state s = STATE_CONFIG"
| "permitted s s' (ActScript p argv env) \<longleftrightarrow> p = pv_script s \<and> p \<noteq> [] \<and> hd argv = p"

abbreviation pending :: "priv \<Rightarrow> nat" where
  "pending s \<equiv> length (stream (pv_in s))"

definition priv_trans :: "priv \<Rightarrow> priv \<Rightarrow> bool" where
  "priv_trans s s' \<longleftrightarrow> pending s' \<le> pending s \<and> state_value (pv_state s) \<le> state_value (pv_state s') \<and>
     (pv_state s \<noteq> STATE_CONFIG \<longrightarrow> pv_config s' = pv_config s \<and> pv_script s' = pv_script s) \<and>
     (\<exists>as. pv_acts s' = pv_acts s @ as \<and> (\<forall>a \<in> set as. permitted s s' a) \<and>
        (pv_script s' \<noteq> pv_script s \<longrightarrow> (\<exists>m. ActStat (pv_script s') (Some m) \<in> set as \<and> owner_only m)))"

lemma read_str_length: "read_str sz len s = Ok (t, s') \<Longrightarrow> length t < len"
proof -
  assume "read_str sz len s = Ok (t, s')"
  then obtain bs where "0 < len" "must_read len s = Ok (bs, s')" "t = bytes_str (butlast bs)"
    by (auto simp: read_str_def obind_eq_Ok_iff split: if_splits)
  moreover from this(2) have "length bs = len"
    using may_read_stream [of len "pv_in s"] by (auto simp: must_read_def split: option.splits)
  ultimately show ?thesis
    using length_takeWhile_le [of "\<lambda>c. c \<noteq> NUL" "map chr8 (butlast bs)"] by (simp add: bytes_str_def cstr_def)
qed

lemma fit_id: "length s < n \<Longrightarrow> fit n s = s"
  by (simp add: fit_def)

lemma trans_only_io: "only_io s s' \<Longrightarrow> priv_trans s s'"
  by (simp add: priv_trans_def only_io_def)

lemma trans_after_io: "only_io s s1 \<Longrightarrow> priv_trans s1 s2 \<Longrightarrow> priv_trans s s2"
proof -
  assume io: "only_io s s1" and tr: "priv_trans s1 s2"
  have "permitted s s2 a = permitted s1 s2 a" for a using io by (cases a) (auto simp: only_io_def)
  then show ?thesis using io tr by (simp add: priv_trans_def only_io_def)
qed

lemma trans_before_io: "priv_trans s s1 \<Longrightarrow> only_io s1 s2 \<Longrightarrow> priv_trans s s2"
proof -
  assume tr: "priv_trans s s1" and io: "only_io s1 s2"
  have "permitted s s2 a = permitted s s1 a" for a using io by (cases a) (auto simp: only_io_def)
  then show ?thesis using io tr by (simp add: priv_trans_def only_io_def)
qed

lemma open_config_trans:
  assumes "srv_open_config S s = Ok s'"
  shows "priv_trans s s'"
proof -
  obtain len s1 path s2 where r: "read_size s = Ok (len, s1)" "read_str MAXPATHLEN len s1 = Ok (path, s2)"
    and s': "(let s3 = (if pv_state s2 = STATE_CONFIG then s2\<lparr>pv_config := fit len path\<rparr> else s2) in
         if pv_config s3 = [] then Fatal ''empty configuration file path''
         else let (fd, s4) = root_open_file S (pv_config s3) s3 in Ok (send_fd S fd s4)) = Ok s'"
    using assms by (auto simp: srv_open_config_def obind_eq_Ok_iff split: if_splits)
  have io: "only_io s s2" using r by (auto dest!: read_only_io intro: only_io_trans)
  have "priv_trans s2 s'"
    using s' by (auto simp: Let_def root_open_file_def act_def send_fd_def priv_trans_def split: if_splits)
  then show ?thesis by (rule trans_after_io [OF io])
qed

lemma open_tun_trans:
  assumes "srv_open_tun S s = Ok s'"
  shows "priv_trans s s'"
proof -
  obtain mode s1 name s3 mtu s4 where c: "pv_state s = STATE_CONFIG" and r: "read_int s = Ok (mode, s1)"
      "read_ifname s1 = Ok (name, s3)" "read_int s3 = Ok (mtu, s4)"
    and s': "(let (fd, name') = root_tuntap_open S mode name mtu; s5 = act (ActTun mode name mtu) s4 in
              if fd < 0 then must_write S (size_bytes 0) s5
              else obind (must_write S (size_bytes (length name' + 1)) s5) (\<lambda>s6.
                   obind (must_write S (str_bytes name') s6) (\<lambda>s7. Ok (send_fd S fd s7)))) = Ok s'"
    using assms by (auto simp: srv_open_tun_def obind_eq_Ok_iff split: if_splits)
  have io: "only_io s s4" using r by (auto dest!: read_only_io read_ifname_only_io intro: only_io_trans)
  have "priv_trans s4 (act (ActTun mode name mtu) s4)"
    using io c by (simp add: priv_trans_def act_def only_io_def)
  moreover have "only_io (act (ActTun mode name mtu) s4) s'"
    using s' send_fd_only_io by (auto simp: Let_def obind_eq_Ok_iff split: prod.splits if_splits dest!: read_only_io intro: only_io_trans)
  ultimately show ?thesis using trans_after_io [OF io] trans_before_io by blast
qed

lemma init_script_trans:
  assumes "srv_init_script S s = Ok s'"
  shows "priv_trans s s'"
proof -
  obtain len s1 path s2 where c: "pv_state s = STATE_CONFIG" and r: "read_size s = Ok (len, s1)" "read_str MAXPATHLEN len s1 = Ok (path, s2)"
    and s': "(let msg = script_error S path; s2' = act (ActStat path (ps_stat S path)) s2;
              s3 = (if msg = [] then s2'\<lparr>pv_script := fit len path\<rparr> else s2')
          in obind (must_write S (size_bytes (length msg + 1)) s3) (must_write S (str_bytes msg))) = Ok s'"
    using assms by (auto simp: srv_init_script_def obind_eq_Ok_iff split: if_splits)
  have io: "only_io s s2" using r by (auto dest!: read_only_io intro: only_io_trans)
  let ?s3 = "if script_error S path = [] then (act (ActStat path (ps_stat S path)) s2)\<lparr>pv_script := fit len path\<rparr>
     else act (ActStat path (ps_stat S path)) s2"
  have "\<exists>m. ps_stat S path = Some m \<and> owner_only m" if "script_error S path = []"
    using that by (auto simp: script_error_def owner_only_def fit_def split: option.splits if_splits)
  then have "priv_trans s2 ?s3"
    using io c fit_id [OF read_str_length [OF r(2)]] by (auto simp: priv_trans_def act_def only_io_def)
  moreover have "only_io ?s3 s'"
    using s' by (auto simp: Let_def obind_eq_Ok_iff dest!: read_only_io intro: only_io_trans split: if_splits)
  ultimately show ?thesis using trans_after_io [OF io] trans_before_io by blast
qed

lemma getaddrinfo_only_io: "srv_getaddrinfo S s = Ok s' \<Longrightarrow> only_io s s'"
  using must_read_only_io
  by (auto simp: srv_getaddrinfo_def Let_def obind_eq_Ok_iff dest!: io_dests intro: only_io_trans) (meson only_io_trans)

lemma run_script_trans:
  assumes "srv_run_script S s = Ok s'"
  shows "priv_trans s s'"
proof -
  obtain argv s1 env s2 where r: "read_vector S s = Ok (argv, s1)" "read_vector S s1 = Ok (env, s2)"
    and s': "(let (i, s3) = (if pv_script s2 = [] then (- 1, s2) else root_launch_script S (pv_script s2) argv env s2)
       in must_write S (int_bytes i) s3) = Ok s'"
    using assms by (auto simp: srv_run_script_def obind_eq_Ok_iff)
  have io: "only_io s s2" using r by (auto dest!: io_dests intro: only_io_trans)
  define s3 where "s3 = snd (if pv_script s2 = [] then (- 1, s2) else root_launch_script S (pv_script s2) argv env s2)"
  have "priv_trans s2 s3" by (auto simp: s3_def root_launch_script_def act_def priv_trans_def)
  moreover have "only_io s3 s'" using s' unfolding s3_def Let_def by (auto split: prod.splits dest!: read_only_io)
  ultimately show ?thesis using trans_after_io [OF io] trans_before_io by blast
qed

lemma increase_state_trans: "increase_state st s = Ok s' \<Longrightarrow> priv_trans s s'"
  by (auto simp: increase_state_def priv_trans_def split: if_splits)

lemma serve_cmd_trans:
  assumes "priv_serve S s = Ok (Some s')" and "may_read 4 (pv_in s) = Some (bs, r)"
  shows "priv_trans (s\<lparr>pv_in := r\<rparr>) s'"
  using assms trans_only_io open_config_trans open_tun_trans init_script_trans getaddrinfo_only_io run_script_trans increase_state_trans
  by (auto simp: priv_serve_def Let_def obind_eq_Ok_iff split: option.splits cmd_types.splits)

lemma serve_trans:
  assumes "priv_serve S s = Ok (Some s')"
  shows "priv_trans s s'"
proof -
  obtain bs r where r: "may_read 4 (pv_in s) = Some (bs, r)"
    using assms by (auto simp: priv_serve_def split: option.splits)
  have io: "only_io s (s\<lparr>pv_in := r\<rparr>)" using may_read_stream [OF r] by (simp add: only_io_def)
  show ?thesis by (rule trans_after_io [OF io serve_cmd_trans [OF assms r]])
qed

section \<open>Every request consumes input\<close>

lemma serve_pending:
  assumes "priv_serve S s = Ok (Some s')"
  shows "pending s' + 4 \<le> pending s"
proof -
  obtain bs r where r: "may_read 4 (pv_in s) = Some (bs, r)"
    using assms by (auto simp: priv_serve_def split: option.splits)
  have "pending (s\<lparr>pv_in := r\<rparr>) + 4 = pending s" using may_read_stream [OF r] by simp
  moreover have "pending s' \<le> pending (s\<lparr>pv_in := r\<rparr>)"
    using serve_cmd_trans [OF assms r] by (simp only: priv_trans_def)
  ultimately show ?thesis by simp
qed

text \<open>The loop of \<^verbatim>\<open>priv_init\<close>; at its end the parent exits.\<close>

function priv_loop :: "psys \<Rightarrow> priv \<Rightarrow> priv outcome" where
  "priv_loop S s =
     (if state_value STATE_QUIT \<le> state_value (pv_state s) then Ok s
      else case priv_serve S s of
          Ok None \<Rightarrow> Ok s
        | Ok (Some s') \<Rightarrow> priv_loop S s'
        | Fatal m \<Rightarrow> Fatal m
        | Fault f \<Rightarrow> Fault f)"
  by pat_completeness auto
termination
  by (relation "measure (\<lambda>(S, s). pending s)") (auto dest!: serve_pending)

declare priv_loop.simps [simp del]

section \<open>Runs of the parent\<close>

definition priv_start :: "read_ev list \<Rightarrow> priv" where
  "priv_start inp = \<lparr>pv_in = inp, pv_state = STATE_CONFIG, pv_config = [], pv_script = [], pv_out = [], pv_acts = []\<rparr>"

text \<open>Requests, each with the answers the system gives then, and the death of the child, in any order.\<close>

inductive priv_run :: "priv \<Rightarrow> priv \<Rightarrow> bool" for s0 where
  start: "priv_run s0 s0"
| serve: "priv_run s0 s \<Longrightarrow> state_value (pv_state s) < state_value STATE_QUIT \<Longrightarrow> priv_serve S s = Ok (Some s') \<Longrightarrow> priv_run s0 s'"
| child_died: "priv_run s0 s \<Longrightarrow> priv_run s0 (sig_got_chld s)"

inductive_cases priv_runE: "priv_run s0 s"

lemma chld_fields [simp]:
  "pv_config (sig_got_chld s) = pv_config s" "pv_script (sig_got_chld s) = pv_script s" "pv_acts (sig_got_chld s) = pv_acts s"
  "pv_state (sig_got_chld s) = STATE_QUIT"
  by (cases "pv_state s", simp_all add: sig_got_chld_def)+

lemma running_run:
  assumes "priv_run s0 s" and "pv_state s0 = STATE_RUNNING"
  shows "pv_state s \<in> {STATE_RUNNING, STATE_QUIT} \<and> pv_config s = pv_config s0 \<and> pv_script s = pv_script s0 \<and>
     (\<exists>as. pv_acts s = pv_acts s0 @ as \<and>
        (\<forall>a \<in> set as. a = ActOpen (pv_config s0) \<or> (\<exists>argv env. a = ActScript (pv_script s0) argv env)))"
  using assms(1)
proof induction
  case start
  then show ?case using assms(2) by simp
next
  case (serve s S s')
  then have st: "pv_state s = STATE_RUNNING" by auto
  obtain as where as: "pv_acts s = pv_acts s0 @ as"
    "\<forall>a \<in> set as. a = ActOpen (pv_config s0) \<or> (\<exists>argv env. a = ActScript (pv_script s0) argv env)" using serve.IH by blast
  from serve_trans [OF serve.hyps(3)] st obtain bs where tr: "2 \<le> state_value (pv_state s')" "pv_config s' = pv_config s"
    "pv_script s' = pv_script s" "pv_acts s' = pv_acts s @ bs" "\<forall>a \<in> set bs. permitted s s' a" by (auto simp: priv_trans_def)
  have "a = ActOpen (pv_config s0) \<or> (\<exists>argv env. a = ActScript (pv_script s0) argv env)" if "a \<in> set bs" for a
    using tr(2,3) st serve.IH bspec [OF tr(5) that] by (cases a) auto
  moreover have "pv_state s' \<in> {STATE_RUNNING, STATE_QUIT}" using tr(1) by (cases "pv_state s'") auto
  ultimately show ?case using serve.IH tr(2-4) as by (auto intro!: exI [of _ "as @ bs"])
next
  case (child_died s)
  then show ?case by simp
qed

lemma script_run:
  assumes "priv_run (priv_start inp) s"
  shows "(pv_script s \<noteq> [] \<longrightarrow> (\<exists>m. ActStat (pv_script s) (Some m) \<in> set (pv_acts s) \<and> owner_only m)) \<and>
     (\<forall>p argv env. ActScript p argv env \<in> set (pv_acts s) \<longrightarrow> hd argv = p \<and> (\<exists>m. ActStat p (Some m) \<in> set (pv_acts s) \<and> owner_only m))"
  using assms
proof induction
  case start
  then show ?case by (simp add: priv_start_def)
next
  case (serve s S s')
  from serve_trans [OF serve.hyps(3)] obtain bs where tr: "pv_acts s' = pv_acts s @ bs" "\<forall>a \<in> set bs. permitted s s' a"
    "pv_script s' \<noteq> pv_script s \<longrightarrow> (\<exists>m. ActStat (pv_script s') (Some m) \<in> set bs \<and> owner_only m)" by (auto simp: priv_trans_def)
  have "pv_script s' \<noteq> [] \<longrightarrow> (\<exists>m. ActStat (pv_script s') (Some m) \<in> set (pv_acts s') \<and> owner_only m)"
    using serve.IH tr(1,3) by (cases "pv_script s' = pv_script s") auto
  moreover have "hd argv = p \<and> (\<exists>m. ActStat p (Some m) \<in> set (pv_acts s') \<and> owner_only m)"
    if "ActScript p argv env \<in> set (pv_acts s')" for p argv env
  proof (cases "ActScript p argv env \<in> set bs")
    case True
    then have "permitted s s' (ActScript p argv env)" using tr(2) by blast
    then show ?thesis using serve.IH tr(1) by auto
  next
    case False
    then show ?thesis using that serve.IH tr(1) by auto
  qed
  ultimately show ?case by blast
next
  case (child_died s)
  then show ?case by simp
qed

section \<open>Requests as the child writes them\<close>

lemma chr8_of_char [simp]: "chr8 (of_char c) = c"
proof -
  have "unat (of_char c :: u8) = of_char c" by (simp add: of_char_def unat_of_nat) 
  then show ?thesis by (simp add: chr8_def)
qed

lemma bytes_str_of: "NUL \<notin> set s \<Longrightarrow> bytes_str (map of_char s) = s"
  unfolding bytes_str_def by (simp add: o_def cstr_def takeWhile_eq_all_conv) blast

lemma length_int_bytes [simp]: "length (int_bytes i) = 4"
  by (simp add: int_bytes_def)

lemma read_size_app:
  assumes "stream (pv_in s) = size_bytes n @ rest" and "n < 2 ^ 64"
  shows "\<exists>r. read_size s = Ok (n, s\<lparr>pv_in := r\<rparr>) \<and> stream r = rest"
proof -
  have "unat (of_nat n :: u64) = n" using assms(2) by (simp only: unat_of_nat) simp
  then show ?thesis using must_read_app [OF assms(1), of 8] by (auto simp: read_size_def size_bytes_def)
qed

lemma read_int_app:
  assumes "stream (pv_in s) = int_bytes i @ rest" and "- (2 ^ 31) \<le> i" and "i < 2 ^ 31"
  shows "\<exists>r. read_int s = Ok (i, s\<lparr>pv_in := r\<rparr>) \<and> stream r = rest"
proof -
  have "sint (of_int i :: u32) = i" using assms(2,3) by (simp add: sint_sbintrunc' signed_take_bit_int_eq_self)
  then show ?thesis using must_read_app [OF assms(1), of 4] by (auto simp: read_int_def int_bytes_def)
qed

lemma read_str_app:
  assumes "stream (pv_in s) = str_bytes t @ rest" and "NUL \<notin> set t" and "length t < sz" and "len = length t + 1"
  shows "\<exists>r. read_str sz len s = Ok (t, s\<lparr>pv_in := r\<rparr>) \<and> stream r = rest"
  using must_read_app [OF assms(1), of len] assms(2-4) bytes_str_of [OF assms(2)] by (auto simp: read_str_def str_bytes_def)

text \<open>Strings the child can send: no NUL inside, and a length that fits a \<^verbatim>\<open>size_t\<close>.\<close>

definition sendable :: "string \<Rightarrow> bool" where
  "sendable s \<longleftrightarrow> NUL \<notin> set s \<and> length s + 1 < 2 ^ 64"

lemma read_args_app:
  assumes "stream (pv_in s) = concat (map put_str xs) @ rest" and "\<forall>x \<in> set xs. sendable x" and "\<And>n. ps_alloc S n"
  shows "\<exists>r. read_args S (length xs) s = Ok (xs, s\<lparr>pv_in := r\<rparr>) \<and> stream r = rest"
  using assms(1,2)
proof (induction xs arbitrary: s)
  case Nil
  then show ?case by (auto intro: exI [of _ "pv_in s"])
next
  case (Cons x xs)
  have x: "NUL \<notin> set x" "length x + 1 < 2 ^ 64" using Cons.prems(2) by (auto simp: sendable_def)
  have "stream (pv_in s) = size_bytes (length x + 1) @ str_bytes x @ concat (map put_str xs) @ rest"
    using Cons.prems(1) by (simp add: put_str_def [of x])
  from read_size_app [OF this x(2)] obtain r1 where r1: "read_size s = Ok (length x + 1, s\<lparr>pv_in := r1\<rparr>)"
    "stream r1 = str_bytes x @ concat (map put_str xs) @ rest" by blast
  from read_str_app [of "s\<lparr>pv_in := r1\<rparr>" x _ "length x + 1"] r1(2) x(1) obtain r2 where r2:
    "read_str (length x + 1) (length x + 1) (s\<lparr>pv_in := r1\<rparr>) = Ok (x, s\<lparr>pv_in := r2\<rparr>)"
    "stream r2 = concat (map put_str xs) @ rest" by auto
  from Cons.IH [of "s\<lparr>pv_in := r2\<rparr>"] r2(2) Cons.prems(2) obtain r3 where
    "read_args S (length xs) (s\<lparr>pv_in := r2\<rparr>) = Ok (xs, s\<lparr>pv_in := r3\<rparr>)" "stream r3 = rest" by auto
  then show ?case using r1(1) r2(1) assms(3) by simp blast
qed

lemma read_vector_app:
  assumes "stream (pv_in s) = put_vector xs @ rest" and "\<forall>x \<in> set xs. sendable x" and "\<And>n. ps_alloc S n"
    and "xs \<noteq> []" and "length xs < 2 ^ 31 - 1"
  shows "\<exists>r. read_vector S s = Ok (xs, s\<lparr>pv_in := r\<rparr>) \<and> stream r = rest"
proof -
  have "stream (pv_in s) = int_bytes (int (length xs)) @ concat (map put_str xs) @ rest"
    using assms(1) by (simp add: put_vector_def)
  from read_int_app [OF this] assms(5) obtain r1 where r1: "read_int s = Ok (int (length xs), s\<lparr>pv_in := r1\<rparr>)"
    "stream r1 = concat (map put_str xs) @ rest" by auto
  moreover from read_args_app [of "s\<lparr>pv_in := r1\<rparr>" xs rest S] r1(2) assms(2,3) obtain r where
    "read_args S (length xs) (s\<lparr>pv_in := r1\<rparr>) = Ok (xs, s\<lparr>pv_in := r\<rparr>)" "stream r = rest" by auto
  ultimately show ?thesis using assms(3-5) by (auto simp: read_vector_def)
qed

lemma serve_cmd:
  assumes "stream (pv_in s) = int_bytes (cmd_value c) @ rest"
  shows "\<exists>r. may_read 4 (pv_in s) = Some (int_bytes (cmd_value c), r) \<and> stream r = rest \<and>
     cmd_of (sint (word_of_le (int_bytes (cmd_value c)) :: u32)) = Some c"
proof -
  have "sint (of_int (cmd_value c) :: u32) = cmd_value c" by (cases c) simp_all
  then have "cmd_of (sint (word_of_le (int_bytes (cmd_value c)) :: u32)) = Some c"
    by (cases c) (simp_all add: int_bytes_def cmd_of_def cmd_table_def)
  moreover have "length (int_bytes (cmd_value c)) = 4" by (simp add: int_bytes_def)
  ultimately show ?thesis using may_read_app [OF assms] by auto
qed

text \<open>A name the resolver of the child is asked for, or none.\<close>

definition name_ok :: "string option \<Rightarrow> bool" where
  "name_ok n \<longleftrightarrow> (case n of None \<Rightarrow> True | Some h \<Rightarrow> h \<noteq> [] \<and> NUL \<notin> set h \<and> length h < MLVPN_MAXHNAMSTR)"

lemma read_name_app:
  assumes "stream (pv_in s) = put_name n @ rest" and "name_ok n"
  shows "\<exists>r. read_name s = Ok (n, s\<lparr>pv_in := r\<rparr>) \<and> stream r = rest"
proof (cases n)
  case None
  then have "stream (pv_in s) = size_bytes 0 @ rest" using assms(1) by (simp add: put_name_def)
  from read_size_app [OF this] obtain r where "read_size s = Ok (0, s\<lparr>pv_in := r\<rparr>)" "stream r = rest" by auto
  then show ?thesis using None by (auto simp: read_name_def)
next
  case (Some h)
  then have h: "h \<noteq> []" "NUL \<notin> set h" "length h < MLVPN_MAXHNAMSTR" using assms(2) by (auto simp: name_ok_def)
  have "stream (pv_in s) = size_bytes (length h + 1) @ str_bytes h @ rest"
    using assms(1) Some h(3) by (simp add: put_name_def put_str_def fit_id)
  from read_size_app [OF this] h(3) obtain r1 where r1: "read_size s = Ok (length h + 1, s\<lparr>pv_in := r1\<rparr>)"
    "stream r1 = str_bytes h @ rest" by auto
  from read_str_app [of "s\<lparr>pv_in := r1\<rparr>" h rest MLVPN_MAXHNAMSTR "length h + 1"] r1(2) h(2,3) obtain r2 where
    "read_str MLVPN_MAXHNAMSTR (length h + 1) (s\<lparr>pv_in := r1\<rparr>) = Ok (h, s\<lparr>pv_in := r2\<rparr>)" "stream r2 = rest" by auto
  then show ?thesis using r1(1) Some h(1,3) by (auto simp: read_name_def)
qed

text \<open>The bytes among what was sent.\<close>

fun sent_bytes :: "priv_out list \<Rightarrow> bytes" where
  "sent_bytes [] = []"
| "sent_bytes (OutBytes bs # r) = bs @ sent_bytes r"
| "sent_bytes (OutFd a b # r) = sent_bytes r"

lemma sent_bytes_map [simp]: "sent_bytes (map OutBytes xs) = concat xs"
  by (induction xs) auto

lemma write_one:
  assumes "\<And>bs. write_all (length bs) (ps_write S bs)"
  shows "must_write S bs s = Ok (s\<lparr>pv_out := pv_out s @ [OutBytes bs]\<rparr>)"
  using assms by (simp add: must_write_def)

lemma write_many:
  "ofold (\<lambda>s bs. Ok (s\<lparr>pv_out := pv_out s @ [OutBytes bs]\<rparr>)) s xs = Ok (s\<lparr>pv_out := pv_out s @ map OutBytes xs\<rparr>)"
  by (induction xs arbitrary: s) simp_all

lemma read_gai_app:
  assumes "stream (pv_in s) = concat (gai_bytes g) @ rest" and "length (g_addr g) < 2 ^ 32" and "\<And>n. ps_alloc S n"
  shows "\<exists>r. read_gai S s = Ok (g, s\<lparr>pv_in := r\<rparr>) \<and> stream r = rest"
proof -
  let ?l = "word_le (of_nat (length (g_addr g)) :: u32)"
  have n: "unat (of_nat (length (g_addr g)) :: u32) = length (g_addr g)" using assms(2) by (simp only: unat_of_nat) simp
  have "stream (pv_in s) = word_le (g_flags g) @ word_le (g_family g) @ word_le (g_socktype g) @ word_le (g_protocol g) @ ?l @ g_addr g @ rest"
    using assms(1) by (simp add: gai_bytes_def)
  from must_read_app [OF this, of 4] obtain r1 where r1: "must_read 4 s = Ok (word_le (g_flags g), s\<lparr>pv_in := r1\<rparr>)"
    "stream r1 = word_le (g_family g) @ word_le (g_socktype g) @ word_le (g_protocol g) @ ?l @ g_addr g @ rest" by auto
  from must_read_app [of "s\<lparr>pv_in := r1\<rparr>", OF _, of "word_le (g_family g)" _ 4] r1(2) obtain r2 where
    r2: "must_read 4 (s\<lparr>pv_in := r1\<rparr>) = Ok (word_le (g_family g), s\<lparr>pv_in := r2\<rparr>)"
    "stream r2 = word_le (g_socktype g) @ word_le (g_protocol g) @ ?l @ g_addr g @ rest" by auto
  from must_read_app [of "s\<lparr>pv_in := r2\<rparr>", OF _, of "word_le (g_socktype g)" _ 4] r2(2) obtain r3 where
    r3: "must_read 4 (s\<lparr>pv_in := r2\<rparr>) = Ok (word_le (g_socktype g), s\<lparr>pv_in := r3\<rparr>)"
    "stream r3 = word_le (g_protocol g) @ ?l @ g_addr g @ rest" by auto
  from must_read_app [of "s\<lparr>pv_in := r3\<rparr>", OF _, of "word_le (g_protocol g)" _ 4] r3(2) obtain r4 where
    r4: "must_read 4 (s\<lparr>pv_in := r3\<rparr>) = Ok (word_le (g_protocol g), s\<lparr>pv_in := r4\<rparr>)" "stream r4 = ?l @ g_addr g @ rest" by auto
  from must_read_app [of "s\<lparr>pv_in := r4\<rparr>", OF _, of ?l _ 4] r4(2) obtain r5 where
    r5: "must_read 4 (s\<lparr>pv_in := r4\<rparr>) = Ok (?l, s\<lparr>pv_in := r5\<rparr>)" "stream r5 = g_addr g @ rest" by auto
  from must_read_app [of "s\<lparr>pv_in := r5\<rparr>", OF _, of "g_addr g" _ "length (g_addr g)"] r5(2) obtain r6 where
    r6: "must_read (length (g_addr g)) (s\<lparr>pv_in := r5\<rparr>) = Ok (g_addr g, s\<lparr>pv_in := r6\<rparr>)" "stream r6 = rest" by auto
  have "read_gai S s = Ok (g, s\<lparr>pv_in := r6\<rparr>)"
    using r1(1) r2(1) r3(1) r4(1) r5(1) r6(1) n assms(3) by (simp add: read_gai_def)
  then show ?thesis using r6(2) by blast
qed

lemma read_gais_app:
  assumes "stream (pv_in s) = concat (concat (map gai_bytes gs)) @ rest" and "\<forall>g \<in> set gs. length (g_addr g) < 2 ^ 32"
    and "\<And>n. ps_alloc S n"
  shows "\<exists>r. read_gais S (length gs) s = Ok (gs, s\<lparr>pv_in := r\<rparr>) \<and> stream r = rest"
  using assms(1,2)
proof (induction gs arbitrary: s)
  case Nil
  then show ?case by (auto intro: exI [of _ "pv_in s"])
next
  case (Cons g gs)
  from read_gai_app [of s g "concat (concat (map gai_bytes gs)) @ rest" S] Cons.prems assms(3) obtain r1 where
    r1: "read_gai S s = Ok (g, s\<lparr>pv_in := r1\<rparr>)" "stream r1 = concat (concat (map gai_bytes gs)) @ rest" by auto
  from Cons.IH [of "s\<lparr>pv_in := r1\<rparr>"] r1(2) Cons.prems(2) obtain r2 where
    "read_gais S (length gs) (s\<lparr>pv_in := r1\<rparr>) = Ok (gs, s\<lparr>pv_in := r2\<rparr>)" "stream r2 = rest" by auto
  then show ?case using r1(1) by simp blast
qed

lemma serve_getaddrinfo:
  assumes "stream (pv_in s) = priv_getaddrinfo host serv hints @ rest" and "name_ok host" and "name_ok serv"
    and "length hints = ADDRINFOSIZ" and "\<And>bs. write_all (length bs) (ps_write S bs)"
  shows "\<exists>r. stream r = rest \<and> priv_serve S s = Ok (Some (s\<lparr>pv_in := r, pv_out := pv_out s @ map OutBytes
     (size_bytes (length (ps_getaddrinfo S host serv hints)) # concat (map gai_bytes (ps_getaddrinfo S host serv hints)))\<rparr>))"
proof -
  have "stream (pv_in s) = int_bytes (cmd_value PRIV_GETADDRINFO) @ put_name host @ put_name serv @ hints @ rest"
    using assms(1) by (simp add: priv_getaddrinfo_def)
  from serve_cmd [OF this] obtain r1 where r1: "may_read 4 (pv_in s) = Some (int_bytes (cmd_value PRIV_GETADDRINFO), r1)"
    "stream r1 = put_name host @ put_name serv @ hints @ rest"
    "cmd_of (sint (word_of_le (int_bytes (cmd_value PRIV_GETADDRINFO)) :: u32)) = Some PRIV_GETADDRINFO" by blast
  from read_name_app [of "s\<lparr>pv_in := r1\<rparr>" host] r1(2) assms(2) obtain r2 where r2:
    "read_name (s\<lparr>pv_in := r1\<rparr>) = Ok (host, s\<lparr>pv_in := r2\<rparr>)" "stream r2 = put_name serv @ hints @ rest" by auto
  from read_name_app [of "s\<lparr>pv_in := r2\<rparr>" serv] r2(2) assms(3) obtain r3 where r3:
    "read_name (s\<lparr>pv_in := r2\<rparr>) = Ok (serv, s\<lparr>pv_in := r3\<rparr>)" "stream r3 = hints @ rest" by auto
  from must_read_app [of "s\<lparr>pv_in := r3\<rparr>" hints rest ADDRINFOSIZ] r3(2) assms(4) obtain r4 where r4:
    "must_read ADDRINFOSIZ (s\<lparr>pv_in := r3\<rparr>) = Ok (hints, s\<lparr>pv_in := r4\<rparr>)" "stream r4 = rest" by auto
  have "srv_getaddrinfo S (s\<lparr>pv_in := r1\<rparr>) = Ok (s\<lparr>pv_in := r4, pv_out := pv_out s @ map OutBytes
     (size_bytes (length (ps_getaddrinfo S host serv hints)) # concat (map gai_bytes (ps_getaddrinfo S host serv hints)))\<rparr>)"
    using r2(1) r3(1) r4(1) by (simp add: srv_getaddrinfo_def Let_def write_one [OF assms(5)] write_many)
  then show ?thesis using r1(1,3) r4(2) by (auto simp: priv_serve_def)
qed

section \<open>A parent and its system, for the examples\<close>

definition ex_psys :: psys where
  "ex_psys = \<lparr>ps_write = (\<lambda>bs. [WrDone (length bs)]), ps_open = (\<lambda>p. 7), ps_errno = 2, ps_strerror = ''No such file'',
     ps_stat = (\<lambda>p. Some 0x81C0), ps_tun_open = 8, ps_tunsetiff = (\<lambda>m n. Some n), ps_socket = 9, ps_setmtu = (\<lambda>m. True),
     ps_getaddrinfo = (\<lambda>h s hints. [\<lparr>g_flags = 0, g_family = 2, g_socktype = 2, g_protocol = 17, g_addr = [2, 0, 20, 80, 10, 0, 0, 1]\<rparr>]),
     ps_alloc = (\<lambda>n. True), ps_fork = 42, ps_wait = 0\<rparr>"

lemma ex_psys_simps [simp]:
  "ps_alloc ex_psys n" "write_all (length bs) (ps_write ex_psys bs)" "ps_fork ex_psys = 42" "ps_wait ex_psys = 0"
  "ps_open ex_psys p = 7" "ps_stat ex_psys p = Some 0x81C0"
  by (simp_all add: ex_psys_def)

text \<open>A parent that runs, with requests that wait in two pieces.\<close>

definition ex_running :: "bytes \<Rightarrow> priv" where
  "ex_running bs = \<lparr>pv_in = [RdData (take 3 bs), RdAgain, RdData (drop 3 bs)], pv_state = STATE_RUNNING, pv_config = ''/etc/mlvpn.conf'',
     pv_script = ''/etc/up.sh'', pv_out = [], pv_acts = []\<rparr>"

lemma ex_running_stream: "3 < length bs \<Longrightarrow> stream (pv_in (ex_running bs)) = bs"
  by (auto simp: ex_running_def)

text \<open>
  C14: The parent is memory safe against its child: whatever bytes arrive, in whatever pieces, and whatever the system answers, the whole service loop
  ends, and never because of an access outside of a buffer or through a null pointer.
\<close>

theorem privsep_memory_safe: "priv_loop S s \<noteq> Fault OutOfBounds \<and> priv_loop S s \<noteq> Fault NullDeref"
proof (induction S s rule: priv_loop.induct)
  case (1 S s)
  have "safe (priv_serve S s)" by (rule safe_serve)
  then show ?case using 1 by (subst (1 2) priv_loop.simps) (auto simp: safe_def split: outcome.split option.split)
qed

text \<open>
  C15: Once the child has declared the running state, no request can change the configuration path or the script path, open another file, create a
  device or start another program, and the state never goes back; only shutting down is left.
\<close>

theorem running_state_confined:
  assumes "priv_run s0 s" and "pv_state s0 = STATE_RUNNING"
  shows "pv_state s \<in> {STATE_RUNNING, STATE_QUIT} \<and> pv_config s = pv_config s0 \<and> pv_script s = pv_script s0 \<and>
     (\<exists>as. pv_acts s = pv_acts s0 @ as \<and>
        (\<forall>a \<in> set as. a = ActOpen (pv_config s0) \<or> (\<exists>argv env. a = ActScript (pv_script s0) argv env)))"
  by (rule running_run [OF assms])

theorem running_state_confined_witness:
  "pv_script (sig_got_chld (ex_running [])) = ''/etc/up.sh'' \<and> pv_state (ex_running []) = STATE_RUNNING"
  using running_state_confined [OF priv_run.child_died [OF priv_run.start], of "ex_running []"] by (simp add: ex_running_def)

text \<open>
  C17: The parent never runs a program as root whose file others may write, read or run: every script it starts is the one whose mode it has looked at before and
  found accessible to its owner only and executable.
\<close>

theorem script_checked_before_run:
  assumes "priv_run (priv_start inp) s" and "ActScript p argv env \<in> set (pv_acts s)"
  shows "hd argv = p \<and> (\<exists>m. ActStat p (Some m) \<in> set (pv_acts s) \<and> m AND 0x3F = 0 \<and> m AND 0x40 \<noteq> 0)"
  using script_run [OF assms(1)] assms(2) by (auto simp: owner_only_def)

text \<open>The requests of a child that fixes its script, then runs it.\<close>

definition ex_script_requests :: "read_ev list" where
  "ex_script_requests = [RdData (priv_init_script ''/etc/up.sh''), RdData (priv_run_script [''tun0'', ''rtun_up''] [''IP4=''])]"

lemma served_cases:
  "(case r of Ok (Some s) \<Rightarrow> P s | _ \<Rightarrow> False) \<Longrightarrow> \<exists>s. r = Ok (Some s) \<and> P s"
  by (simp split: outcome.splits option.splits)

lemma ex_script_serve:
  "case priv_serve ex_psys (priv_start ex_script_requests) of
     Ok (Some s1) \<Rightarrow> pv_state s1 = STATE_CONFIG \<and>
       (case priv_serve ex_psys s1 of
          Ok (Some s2) \<Rightarrow> ActScript ''/etc/up.sh'' [''/etc/up.sh'', ''tun0'', ''rtun_up''] [''IP4=''] \<in> set (pv_acts s2)
        | _ \<Rightarrow> False)
   | _ \<Rightarrow> False"
  by code_simp

theorem script_checked_before_run_witness:
  "\<exists>s m. priv_run (priv_start ex_script_requests) s \<and> ActScript ''/etc/up.sh'' [''/etc/up.sh'', ''tun0'', ''rtun_up''] [''IP4=''] \<in> set (pv_acts s) \<and>
     ActStat ''/etc/up.sh'' (Some m) \<in> set (pv_acts s) \<and> m AND 0x3F = 0"
proof -
  obtain s1 s2 where s: "priv_serve ex_psys (priv_start ex_script_requests) = Ok (Some s1)" "pv_state s1 = STATE_CONFIG"
    "priv_serve ex_psys s1 = Ok (Some s2)"
    "ActScript ''/etc/up.sh'' [''/etc/up.sh'', ''tun0'', ''rtun_up''] [''IP4=''] \<in> set (pv_acts s2)"
    using served_cases [OF ex_script_serve] by (auto dest!: served_cases)
  have "priv_run (priv_start ex_script_requests) s2"
    using s(1-3) by (intro priv_run.serve [OF priv_run.serve [OF priv_run.start]]) (simp_all add: priv_start_def)
  then show ?thesis using script_checked_before_run [OF _ s(4)] s(4) by blast
qed



text \<open>
  C21: Name resolution through the parent is transparent: the child that asks for a host and a service gets exactly the list of addresses \<^verbatim>\<open>getaddrinfo\<close> returned to the
  parent for that host, service and hints, in order and complete, however the bytes of the request and of the answer are cut.
\<close>

theorem getaddrinfo_roundtrip:
  assumes "stream (pv_in s) = priv_getaddrinfo host serv hints @ rest" and "name_ok host" and "name_ok serv"
    and "length hints = ADDRINFOSIZ" and "\<And>bs. write_all (length bs) (ps_write S bs)"
    and "ps_getaddrinfo S host serv hints = gs" and "length gs < 2 ^ 64" and "\<forall>g \<in> set gs. length (g_addr g) < 2 ^ 32"
    and "\<And>n. ps_alloc C n"
  shows "\<exists>s' outs. priv_serve S s = Ok (Some s') \<and> pv_out s' = pv_out s @ outs \<and> stream (pv_in s') = rest \<and>
     (\<forall>c rest'. stream (pv_in c) = sent_bytes outs @ rest' \<longrightarrow>
        (\<exists>r. priv_getaddrinfo_reply C c = Ok (gs, c\<lparr>pv_in := r\<rparr>) \<and> stream r = rest'))"
proof -
  let ?outs = "map OutBytes (size_bytes (length gs) # concat (map gai_bytes gs))"
  obtain r where r: "stream r = rest" "priv_serve S s = Ok (Some (s\<lparr>pv_in := r, pv_out := pv_out s @ ?outs\<rparr>))"
    using serve_getaddrinfo [OF assms(1-5)] assms(6) by auto
  have "\<exists>r. priv_getaddrinfo_reply C c = Ok (gs, c\<lparr>pv_in := r\<rparr>) \<and> stream r = rest'"
    if c: "stream (pv_in c) = sent_bytes ?outs @ rest'" for c rest'
  proof -
    have "stream (pv_in c) = size_bytes (length gs) @ concat (concat (map gai_bytes gs)) @ rest'"
      using c by simp
    from read_size_app [OF this assms(7)] obtain r1 where r1: "read_size c = Ok (length gs, c\<lparr>pv_in := r1\<rparr>)"
      "stream r1 = concat (concat (map gai_bytes gs)) @ rest'" by blast
    from read_gais_app [of "c\<lparr>pv_in := r1\<rparr>" gs rest' C] r1(2) assms(8,9) show ?thesis
      using r1(1) by (simp add: priv_getaddrinfo_reply_def)
  qed
  then show ?thesis using r by (intro exI [of _ "s\<lparr>pv_in := r, pv_out := pv_out s @ ?outs\<rparr>"] exI [of _ ?outs]) simp
qed

theorem getaddrinfo_roundtrip_witness:
  "\<exists>s' outs. priv_serve ex_psys (ex_running (priv_getaddrinfo (Some ''vpn'') None (replicate 48 0))) = Ok (Some s') \<and>
     (\<exists>c c'. priv_getaddrinfo_reply ex_psys c = Ok (ps_getaddrinfo ex_psys (Some ''vpn'') None (replicate 48 0), c'))"
proof -
  let ?q = "priv_getaddrinfo (Some ''vpn'') None (replicate 48 0)"
  let ?gs = "ps_getaddrinfo ex_psys (Some ''vpn'') None (replicate 48 0)"
  have "3 < length ?q" by (simp add: priv_getaddrinfo_def)
  then have "stream (pv_in (ex_running ?q)) = ?q @ []" by (simp only: ex_running_stream append_Nil2)
  from getaddrinfo_roundtrip [OF this, of ex_psys ?gs ex_psys] obtain s' outs where
    s': "priv_serve ex_psys (ex_running ?q) = Ok (Some s')"
    "\<forall>c rest'. stream (pv_in c) = sent_bytes outs @ rest' \<longrightarrow>
        (\<exists>r. priv_getaddrinfo_reply ex_psys c = Ok (?gs, c\<lparr>pv_in := r\<rparr>) \<and> stream r = rest')"
    by (auto simp: name_ok_def ex_psys_def)
  obtain r where "priv_getaddrinfo_reply ex_psys (priv_start [RdData (sent_bytes outs @ [0])]) =
     Ok (?gs, priv_start [RdData (sent_bytes outs @ [0])]\<lparr>pv_in := r\<rparr>)"
    using s'(2) [rule_format, of "priv_start [RdData (sent_bytes outs @ [0])]" "[0]"] by (auto simp: priv_start_def)
  then show ?thesis using s'(1) by blast
qed

text \<open>
  A device name of 15 characters, the longest that fits the 16 bytes both sides reserve, is accepted and sent back by the parent and then refused by the child.
\<close>

lemma device_name_15_refused:
  assumes "stream (pv_in s) = size_bytes 16 @ rest"
  shows "priv_open_tun_reply newfd named m s = Fatal ''device name returned by privileged service is too long.''"
  using read_size_app [OF assms] by (auto simp: priv_open_tun_reply_def)

section \<open>The child gives up its privileges\<close>

text \<open>Credentials and directories of a process, an entry of the password file, and the answers of the system to \<^verbatim>\<open>priv_init\<close>.\<close>

record cred =
  c_uids :: "nat \<times> nat \<times> nat"
  c_gids :: "nat \<times> nat \<times> nat"
  c_groups :: "nat list"
  c_root :: string
  c_cwd :: string

record passwd =
  pw_uid :: nat
  pw_gid :: nat
  pw_dir :: string

record ksys =
  k_valgrind :: bool
  k_socketpair :: bool
  k_getpwnam :: "string \<Rightarrow> passwd option"
  k_fork :: int
  k_grants :: "string \<Rightarrow> bool"

text \<open>The effective user decides what a process may do; a call may also fail for another reason.\<close>

fun euid :: "cred \<Rightarrow> nat" where
  "euid c = fst (snd (c_uids c))"

definition k_chroot :: "ksys \<Rightarrow> string \<Rightarrow> cred \<Rightarrow> cred outcome" where
  "k_chroot k d c = (if euid c = 0 \<and> k_grants k ''chroot'' then Ok (c\<lparr>c_root := d\<rparr>) else Fatal ''unable to chroot'')"

definition k_chdir_root :: "ksys \<Rightarrow> cred \<Rightarrow> cred outcome" where
  "k_chdir_root k c = (if k_grants k ''chdir'' then Ok (c\<lparr>c_cwd := c_root c\<rparr>) else Fatal ''unable to chdir'')"

definition k_setgroups :: "ksys \<Rightarrow> nat list \<Rightarrow> cred \<Rightarrow> cred outcome" where
  "k_setgroups k gs c = (if euid c = 0 \<and> k_grants k ''setgroups'' then Ok (c\<lparr>c_groups := gs\<rparr>) else Fatal ''setgroups() failed'')"

definition k_setresgid :: "ksys \<Rightarrow> nat \<Rightarrow> cred \<Rightarrow> cred outcome" where
  "k_setresgid k g c = (if euid c = 0 \<and> k_grants k ''setresgid'' then Ok (c\<lparr>c_gids := (g, g, g)\<rparr>) else Fatal ''setresgid() failed'')"

definition k_setresuid :: "ksys \<Rightarrow> nat \<Rightarrow> cred \<Rightarrow> cred outcome" where
  "k_setresuid k u c = (if euid c = 0 \<and> k_grants k ''setresuid'' then Ok (c\<lparr>c_uids := (u, u, u)\<rparr>) else Fatal ''setresuid() failed'')"

text \<open>The child's part of \<^verbatim>\<open>priv_init\<close> after \<^verbatim>\<open>fork\<close>, then all of it up to the loop; \<open>None\<close> is the parent, that goes on to its loop.\<close>

definition priv_child :: "ksys \<Rightarrow> bool \<Rightarrow> passwd option \<Rightarrow> cred \<Rightarrow> cred outcome" where
  "priv_child k is_root pw c =
     (if k_valgrind k then Ok c
      else
        obind (case pw of Some p \<Rightarrow> if is_root then k_chroot k (pw_dir p) c else Ok c | None \<Rightarrow> Ok c) (\<lambda>c1.
        obind (k_chdir_root k c1) (\<lambda>c2.
          case pw of
            Some p \<Rightarrow>
              if is_root then
                obind (k_setgroups k [pw_gid p] c2) (\<lambda>c3.
                obind (k_setresgid k (pw_gid p) c3) (\<lambda>c4.
                k_setresuid k (pw_uid p) c4))
              else Ok c2
          | None \<Rightarrow> Ok c2)))"

definition priv_init :: "ksys \<Rightarrow> string option \<Rightarrow> cred \<Rightarrow> cred option outcome" where
  "priv_init k username c =
     (let is_root = (fst (c_uids c) = 0);
          named = (case username of None \<Rightarrow> False | Some u \<Rightarrow> u \<noteq> []);
          pw = (if named then k_getpwnam k (the username) else None) in
      if \<not> k_socketpair k then Fatal ''socketpair() failed''
      else if named \<and> pw = None then Fatal ''unknown user''
      else if k_fork k < 0 then Fatal ''fork() failed''
      else if k_fork k = 0 then obind (priv_child k is_root pw c) (\<lambda>c'. Ok (Some c'))
      else Ok None)"

text \<open>
  C19: A daemon started by root with a user name never hands the network to a process that still has privileges: the child returns only with all three user ids and group ids
  of that user, no other group, and with root and working directory inside of the user's home. If the system grants every call,
  the child does return.
\<close>

theorem child_drops_privileges:
  assumes "c_uids c = (0, 0, 0)" and "u \<noteq> []" and "\<not> k_valgrind k" and "k_fork k = 0"
  shows "(\<forall>c'. priv_init k (Some u) c = Ok (Some c') \<longrightarrow> (\<exists>p. k_getpwnam k u = Some p \<and>
       c' = \<lparr>c_uids = (pw_uid p, pw_uid p, pw_uid p), c_gids = (pw_gid p, pw_gid p, pw_gid p), c_groups = [pw_gid p],
             c_root = pw_dir p, c_cwd = pw_dir p\<rparr>)) \<and>
     (k_socketpair k \<and> k_getpwnam k u \<noteq> None \<and> (\<forall>x. k_grants k x) \<longrightarrow> (\<exists>c'. priv_init k (Some u) c = Ok (Some c')))"
  using assms
  by (auto simp: priv_init_def priv_child_def k_chroot_def k_chdir_root_def k_setgroups_def k_setresgid_def k_setresuid_def Let_def
      split: if_splits option.splits)

text \<open>A system that grants everything, with one user.\<close>

definition ex_ksys :: ksys where
  "ex_ksys = \<lparr>k_valgrind = False, k_socketpair = True,
     k_getpwnam = (\<lambda>u. Some \<lparr>pw_uid = 100, pw_gid = 200, pw_dir = ''/var/run/mlvpn''\<rparr>), k_fork = 0, k_grants = (\<lambda>x. True)\<rparr>"

definition ex_root :: cred where
  "ex_root = \<lparr>c_uids = (0, 0, 0), c_gids = (0, 0, 0), c_groups = [0, 1], c_root = ''/'', c_cwd = ''/root''\<rparr>"

theorem child_drops_privileges_witness:
  "\<exists>c'. priv_init ex_ksys (Some ''mlvpn'') ex_root = Ok (Some c') \<and> c_uids c' = (100, 100, 100) \<and> c_groups c' = [200] \<and>
     c_cwd c' = ''/var/run/mlvpn''"
  using child_drops_privileges [of ex_root "''mlvpn''" ex_ksys] by (auto simp: ex_ksys_def ex_root_def)

section \<open>How the bytes are cut does not matter\<close>

definition same :: "priv \<Rightarrow> priv \<Rightarrow> bool" where
  "same s t \<longleftrightarrow> stream (pv_in s) = stream (pv_in t) \<and> pv_state s = pv_state t \<and> pv_config s = pv_config t \<and>
     pv_script s = pv_script t \<and> pv_out s = pv_out t \<and> pv_acts s = pv_acts t"

abbreviation agree :: "('a \<Rightarrow> 'b \<Rightarrow> bool) \<Rightarrow> 'a outcome \<Rightarrow> 'b outcome \<Rightarrow> bool" where
  "agree \<equiv> rel_outcome"

abbreviation same_result :: "'a \<times> priv \<Rightarrow> 'a \<times> priv \<Rightarrow> bool" where
  "same_result \<equiv> rel_prod (=) same"

lemma agree_bind:
  assumes "agree same x y" and "\<And>s t. same s t \<Longrightarrow> agree Q (f s) (g t)"
  shows "agree Q (obind x f) (obind y g)"
  using assms by (cases x; cases y) auto

lemma agree_bind_pair:
  assumes "agree same_result x y" and "\<And>a s t. same s t \<Longrightarrow> agree Q (f a s) (g a t)"
  shows "agree Q (obind x (\<lambda>(a, s). f a s)) (obind y (\<lambda>(a, s). g a s))"
  using assms by (cases x; cases y) auto

lemma agree_if:
  assumes "b = b'" and "b' \<Longrightarrow> agree R x x'" and "\<not> b' \<Longrightarrow> agree R y y'"
  shows "agree R (if b then x else y) (if b' then x' else y')"
  using assms by simp

lemma agree_Fatal: "agree R (Fatal m) (Fatal m)"
  by simp

lemma agree_Ok: "R a b \<Longrightarrow> agree R (Ok a) (Ok b)"
  by simp

lemma agree_may_read:
  assumes "stream r = stream r'"
  shows "rel_option (rel_prod (=) (\<lambda>a b. stream a = stream b)) (may_read n r) (may_read n r')"
proof (cases "may_read n r")
  case None
  then have "\<not> n \<le> length (stream r')" using may_read_enough [of n r] assms by auto
  then have "may_read n r' = None" using may_read_stream [of n r'] by (cases "may_read n r'") auto
  then show ?thesis using None by simp
next
  case (Some x)
  obtain bs q where x: "may_read n r = Some (bs, q)" using Some by (cases x) simp
  note a = may_read_stream [OF x]
  obtain cs q' where y: "may_read n r' = Some (cs, q')" using may_read_enough [of n r'] a assms by auto
  show ?thesis using x y a may_read_stream [OF y] assms by simp
qed

named_theorems agreement

lemma agree_must_read [agreement]: "same s t \<Longrightarrow> agree same_result (must_read n s) (must_read n t)"
  using agree_may_read [of "pv_in s" "pv_in t" n]
  by (cases "may_read n (pv_in s)"; cases "may_read n (pv_in t)") (auto simp: must_read_def same_def)

lemma agree_must_write [agreement]: "same s t \<Longrightarrow> agree same (must_write S bs s) (must_write S bs t)"
  by (simp add: must_write_def same_def)

lemma agree_Fault: "agree R (Fault m) (Fault m)"
  by simp

lemma agree_Ok_pair: "same s t \<Longrightarrow> agree same_result (Ok (a, s)) (Ok (a, t))"
  by simp

lemma agree_read_size [agreement]: "same s t \<Longrightarrow> agree same_result (read_size s) (read_size t)"
  unfolding read_size_def by (assumption | rule agree_bind_pair agree_Ok_pair agreement)+

lemma agree_read_int [agreement]: "same s t \<Longrightarrow> agree same_result (read_int s) (read_int t)"
  unfolding read_int_def by (assumption | rule agree_bind_pair agree_Ok_pair agreement)+

lemma agree_read_str [agreement]: "same s t \<Longrightarrow> agree same_result (read_str sz len s) (read_str sz len t)"
  unfolding read_str_def by (assumption | rule agree_bind_pair agree_if agree_Fault agree_Ok_pair refl agreement)+

lemma agree_read_ifname [agreement]: "same s t \<Longrightarrow> agree same_result (read_ifname s) (read_ifname t)"
  unfolding read_ifname_def by (assumption | rule agree_bind_pair agree_if agree_Fatal agree_Ok_pair refl agreement)+

lemma agree_read_name [agreement]: "same s t \<Longrightarrow> agree same_result (read_name s) (read_name t)"
  unfolding read_name_def by (assumption | rule agree_bind_pair agree_if agree_Fatal agree_Ok_pair refl agreement)+

lemma agree_read_args [agreement]: "same s t \<Longrightarrow> agree same_result (read_args S n s) (read_args S n t)"
proof (induction n arbitrary: s t)
  case (Suc n)
  show ?case unfolding read_args.simps
    by (assumption | rule Suc.prems agree_bind_pair agree_if agree_Fatal agree_Ok_pair refl agreement Suc.IH)+
qed simp

lemma agree_read_vector [agreement]: "same s t \<Longrightarrow> agree same_result (read_vector S s) (read_vector S t)"
  unfolding read_vector_def by (assumption | rule agree_bind_pair agree_if agree_Fatal agree_Fault refl agreement)+

lemma agree_write_many [agreement]:
  "same s t \<Longrightarrow> agree same (ofold (\<lambda>s bs. must_write S bs s) s xs) (ofold (\<lambda>s bs. must_write S bs s) t xs)"
proof (induction xs arbitrary: s t)
  case (Cons x xs)
  show ?case unfolding ofold.simps by (assumption | rule Cons.prems agree_bind agreement Cons.IH)+
qed simp

lemma same_state: "same s t \<Longrightarrow> (pv_state s = st) = (pv_state t = st)"
  by (simp add: same_def)

lemma same_act: "same s t \<Longrightarrow> same (act a s) (act a t)"
  by (simp add: same_def act_def)

lemma same_send_fd: "same s t \<Longrightarrow> same (send_fd S fd s) (send_fd S fd t)"
  by (simp add: same_def send_fd_def)

lemma same_open:
  assumes "same s t"
  shows "agree same (if pv_config s = [] then Fatal m else let (fd, s') = root_open_file S (pv_config s) s in Ok (send_fd S fd s'))
     (if pv_config t = [] then Fatal m else let (fd, s') = root_open_file S (pv_config t) t in Ok (send_fd S fd s'))"
proof -
  have "pv_config s = pv_config t" using assms by (simp add: same_def)
  then show ?thesis using assms same_act [OF assms] by (simp add: root_open_file_def same_send_fd)
qed

lemma same_set_config: "same s t \<Longrightarrow> same (s\<lparr>pv_config := p\<rparr>) (t\<lparr>pv_config := p\<rparr>)"
  by (simp add: same_def)

lemma same_set_script: "same s t \<Longrightarrow> same (s\<lparr>pv_script := p\<rparr>) (t\<lparr>pv_script := p\<rparr>)"
  by (simp add: same_def)

lemma same_if: "b = b' \<Longrightarrow> same s t \<Longrightarrow> same s' t' \<Longrightarrow> same (if b then s else s') (if b' then t else t')"
  by simp

lemma agree_open_config [agreement]: "same s t \<Longrightarrow> agree same (srv_open_config S s) (srv_open_config S t)"
  unfolding srv_open_config_def Let_def [of "if pv_state _ = _ then _ else _"]
  by (assumption | rule same_open same_if same_set_config same_state agree_bind_pair agree_bind agree_if agree_Fatal refl agreement)+

lemma agree_open_tun [agreement]: "same s t \<Longrightarrow> agree same (srv_open_tun S s) (srv_open_tun S t)"
  unfolding srv_open_tun_def Let_def case_prod_beta [of _ "root_tuntap_open _ _ _ _"]
  by (assumption | rule arg_cong [of _ _ Not] same_state same_act same_send_fd agree_Ok agree_bind_pair agree_bind agree_if agree_Fatal refl agreement)+

lemma agree_init_script [agreement]: "same s t \<Longrightarrow> agree same (srv_init_script S s) (srv_init_script S t)"
  unfolding srv_init_script_def Let_def
  by (assumption | rule arg_cong [of _ _ Not] same_state same_if same_set_script same_act agree_bind_pair agree_bind agree_if agree_Fatal refl agreement)+

lemma agree_getaddrinfo [agreement]: "same s t \<Longrightarrow> agree same (srv_getaddrinfo S s) (srv_getaddrinfo S t)"
  unfolding srv_getaddrinfo_def Let_def by (assumption | rule agree_bind_pair agree_bind agree_if agree_Fatal refl agreement)+

lemma agree_launch:
  assumes "same s t"
  shows "agree same
     (let (i, s') = (if pv_script s = [] then (- 1, s) else root_launch_script S (pv_script s) argv env s) in must_write S (int_bytes i) s')
     (let (i, s') = (if pv_script t = [] then (- 1, t) else root_launch_script S (pv_script t) argv env t) in must_write S (int_bytes i) s')"
proof -
  have "pv_script s = pv_script t" using assms by (simp add: same_def)
  then show ?thesis using assms same_act [OF assms] by (simp add: root_launch_script_def agree_must_write)
qed

lemma agree_run_script [agreement]: "same s t \<Longrightarrow> agree same (srv_run_script S s) (srv_run_script S t)"
  unfolding srv_run_script_def by (assumption | rule agree_launch agree_bind_pair agree_bind agree_if agree_Fatal refl agreement)+

lemma agree_increase_state [agreement]: "same s t \<Longrightarrow> agree same (increase_state st s) (increase_state st t)"
  by (simp add: increase_state_def same_def)

lemma agree_cmd:
  assumes "same s t"
  shows "agree same
    (case c of Some PRIV_OPEN_CONFIG \<Rightarrow> srv_open_config S s | Some PRIV_OPEN_TUN \<Rightarrow> srv_open_tun S s
       | Some PRIV_INIT_SCRIPT \<Rightarrow> srv_init_script S s | Some PRIV_GETADDRINFO \<Rightarrow> srv_getaddrinfo S s
       | Some PRIV_RUN_SCRIPT \<Rightarrow> srv_run_script S s | Some PRIV_RELOAD_RESOLVER \<Rightarrow> Ok s
       | Some PRIV_SET_RUNNING_STATE \<Rightarrow> increase_state STATE_RUNNING s | None \<Rightarrow> Fatal ''unknown command'')
    (case c of Some PRIV_OPEN_CONFIG \<Rightarrow> srv_open_config S t | Some PRIV_OPEN_TUN \<Rightarrow> srv_open_tun S t
       | Some PRIV_INIT_SCRIPT \<Rightarrow> srv_init_script S t | Some PRIV_GETADDRINFO \<Rightarrow> srv_getaddrinfo S t
       | Some PRIV_RUN_SCRIPT \<Rightarrow> srv_run_script S t | Some PRIV_RELOAD_RESOLVER \<Rightarrow> Ok t
       | Some PRIV_SET_RUNNING_STATE \<Rightarrow> increase_state STATE_RUNNING t | None \<Rightarrow> Fatal ''unknown command'')"
proof (cases c)
  case (Some d)
  then show ?thesis using assms agreement [OF assms] by (cases d) simp_all
qed simp

lemma agree_serve:
  assumes "same s t"
  shows "agree (rel_option same) (priv_serve S s) (priv_serve S t)"
proof (cases "may_read 4 (pv_in s)")
  case None
  then have "may_read 4 (pv_in t) = None" using agree_may_read [of "pv_in s" "pv_in t" 4] assms by (simp add: same_def)
  then show ?thesis using None by (simp add: priv_serve_def)
next
  case (Some x)
  then obtain bs r r' where r: "may_read 4 (pv_in s) = Some (bs, r)" "may_read 4 (pv_in t) = Some (bs, r')" "stream r = stream r'"
    using agree_may_read [of "pv_in s" "pv_in t" 4] assms
    by (cases x; cases "may_read 4 (pv_in t)") (auto simp: same_def)
  have "same (s\<lparr>pv_in := r\<rparr>) (t\<lparr>pv_in := r'\<rparr>)" using assms r(3) by (simp add: same_def)
  then show ?thesis unfolding priv_serve_def r option.case prod.case Let_def
    by (intro agree_bind [OF agree_cmd]) simp_all
qed

lemma agree_loop: "same s t \<Longrightarrow> agree same (priv_loop S s) (priv_loop S t)"
proof (induction S s arbitrary: t rule: priv_loop.induct)
  case (1 S s)
  have st: "pv_state s = pv_state t" using 1(2) by (simp add: same_def)
  show ?case
  proof (cases "state_value STATE_QUIT \<le> state_value (pv_state s)")
    case True
    then show ?thesis using 1(2) st by (simp add: priv_loop.simps)
  next
    case False
    then show ?thesis using 1(1) [OF False] 1(2) st agree_serve [OF 1(2), of S]
      by (cases "priv_serve S s"; cases "priv_serve S t")
        (auto simp: priv_loop.simps [of S s] priv_loop.simps [of S t] elim!: option.rel_cases)
  qed
qed

text \<open>
  C22: What the privileged parent does depends only on the bytes the child has sent: cut into other pieces, delayed or interrupted in other places, the same bytes lead the
  whole service loop to the same state, the same privileged actions and the same answers, or to the same exit.
\<close>

theorem fragmentation_irrelevant:
  assumes "stream r = stream r'"
  shows "agree same (priv_loop S (s\<lparr>pv_in := r\<rparr>)) (priv_loop S (s\<lparr>pv_in := r'\<rparr>))"
  using assms by (intro agree_loop) (simp add: same_def)

theorem fragmentation_irrelevant_witness:
  "stream [RdData [6, 0, 0, 0]] = stream [RdData [6], RdAgain, RdData [0, 0], RdData [0], RdFail] \<and>
   agree same (priv_loop ex_psys (priv_start [RdData [6, 0, 0, 0]]))
     (priv_loop ex_psys (priv_start [RdData [6], RdAgain, RdData [0, 0], RdData [0], RdFail]))"
  using fragmentation_irrelevant [of "[RdData [6, 0, 0, 0]]" "[RdData [6], RdAgain, RdData [0, 0], RdData [0], RdFail]" ex_psys "priv_start []"]
  by (simp add: priv_start_def)

end
