(* ===== verification/Signals.thy ===== *)
theory Signals
  imports Privsep
begin

text \<open>
  The signals of the privileged parent (\<^verbatim>\<open>src/privsep.c\<close>): the dispositions and the mask it sets, the two handlers, and what a network script
  inherits. Requests of the child and signals come in any order; a signal is handled between two requests. The mask only grows between requests, so a
  blocked signal stays pending for good.
\<close>

section \<open>Dispositions\<close>

text \<open>The signal numbers of Linux.\<close>

abbreviation (input) SIGHUP :: nat where "SIGHUP \<equiv> 1"
abbreviation (input) SIGINT :: nat where "SIGINT \<equiv> 2"
abbreviation (input) SIGQUIT :: nat where "SIGQUIT \<equiv> 3"
abbreviation (input) SIGKILL :: nat where "SIGKILL \<equiv> 9"
abbreviation (input) SIGPIPE :: nat where "SIGPIPE \<equiv> 13"
abbreviation (input) SIGTERM :: nat where "SIGTERM \<equiv> 15"
abbreviation (input) SIGCHLD :: nat where "SIGCHLD \<equiv> 17"
abbreviation (input) SIGCONT :: nat where "SIGCONT \<equiv> 18"
abbreviation (input) SIGSTOP :: nat where "SIGSTOP \<equiv> 19"
abbreviation (input) SIGURG :: nat where "SIGURG \<equiv> 23"
abbreviation (input) SIGWINCH :: nat where "SIGWINCH \<equiv> 28"
abbreviation (input) NSIG :: nat where "NSIG \<equiv> 65"

datatype sighandler = SIG_DFL | SIG_IGN | Sig_pass_to_chld | Sig_got_chld

type_synonym dispositions = "nat \<Rightarrow> sighandler"

text \<open>\<^verbatim>\<open>sigaction\<close> refuses two signals; no caller looks at its result.\<close>

definition sigaction :: "nat \<Rightarrow> sighandler \<Rightarrow> dispositions \<Rightarrow> dispositions" where
  "sigaction n h d = (if n = SIGKILL \<or> n = SIGSTOP then d else d(n := h))"

definition reset_default_signals :: "dispositions \<Rightarrow> dispositions" where
  "reset_default_signals d = fold (\<lambda>i. sigaction i SIG_DFL) [1..<NSIG] d"

text \<open>What both processes start with, and what the parent adds.\<close>

definition init_signals :: "dispositions \<Rightarrow> dispositions" where
  "init_signals d = sigaction SIGPIPE SIG_IGN (reset_default_signals d)"

definition parent_signals :: "dispositions \<Rightarrow> dispositions" where
  "parent_signals d =
     (let d1 = sigaction SIGTERM Sig_pass_to_chld d;
          d2 = sigaction SIGHUP Sig_pass_to_chld d1;
          d3 = sigaction SIGINT Sig_pass_to_chld d2;
          d4 = sigaction SIGQUIT Sig_pass_to_chld d3
      in sigaction SIGCHLD Sig_got_chld d4)"

section \<open>The handlers\<close>

text \<open>
  The parent as a process: \<open>pa_child\<close> is \<^verbatim>\<open>child_pid\<close>, \<open>pa_ended\<close> the processes that have ended and were not waited for, and \<open>pa_kills\<close> the signals
  it has sent.
\<close>

record parent =
  pa_priv :: priv
  pa_child :: int
  pa_disp :: dispositions
  pa_mask :: "nat set"
  pa_ended :: "int list"
  pa_kills :: "(int \<times> nat) list"

definition sig_pass_to_chld :: "nat \<Rightarrow> parent \<Rightarrow> parent" where
  "sig_pass_to_chld n s = (if pa_child s \<noteq> - 1 then s\<lparr>pa_kills := pa_kills s @ [(pa_child s, n)]\<rparr> else s)"

text \<open>The loop of \<^verbatim>\<open>sig_got_chld\<close>: \<open>True\<close> is a call of \<^verbatim>\<open>waitpid\<close> that was interrupted.\<close>

fun reap_children :: "int \<Rightarrow> bool list \<Rightarrow> int list \<Rightarrow> priv \<Rightarrow> priv" where
  "reap_children child (True # is) ps s = reap_children child is ps s"
| "reap_children child is [] s = s"
| "reap_children child is (p # ps) s = reap_children child (tl is) ps (if p = child then sig_got_chld s else s)"

text \<open>A signal is delivered: \<open>None\<close> when its default action ends or stops the process.\<close>

definition run_handler :: "bool list \<Rightarrow> nat \<Rightarrow> parent \<Rightarrow> parent option" where
  "run_handler is n s =
     (case pa_disp s n of
        SIG_IGN \<Rightarrow> Some s
      | SIG_DFL \<Rightarrow> if n \<in> {SIGCHLD, SIGCONT, SIGURG, SIGWINCH} then Some s else None
      | Sig_pass_to_chld \<Rightarrow> Some (sig_pass_to_chld n s)
      | Sig_got_chld \<Rightarrow> Some (s\<lparr>pa_priv := reap_children (pa_child s) is (pa_ended s) (pa_priv s), pa_ended := []\<rparr>))"

section \<open>The network script\<close>

text \<open>
  The signals of \<^verbatim>\<open>root_launch_script\<close>: \<^verbatim>\<open>SIGCHLD\<close> is blocked before the fork; what the script starts with, and the mask of the parent afterwards. The mask is only restored when the fork
  worked.
\<close>

definition script_signals :: "parent \<Rightarrow> dispositions \<times> nat set" where
  "script_signals s = (reset_default_signals (pa_disp s), insert SIGCHLD (pa_mask s))"

definition launch_mask :: "psys \<Rightarrow> parent \<Rightarrow> nat set" where
  "launch_mask S s = (if 0 < ps_fork S then pa_mask s else insert SIGCHLD (pa_mask s))"

definition launches :: "priv \<Rightarrow> bool" where
  "launches s = (case may_read 4 (pv_in s) of
       None \<Rightarrow> False
     | Some (bs, r) \<Rightarrow> cmd_of (sint (word_of_le bs :: u32)) = Some PRIV_RUN_SCRIPT \<and> pv_script s \<noteq> [])"

section \<open>Runs with signals\<close>

datatype pevent = Serve psys | Signal nat "bool list" | Ended int

text \<open>One turn of the service loop, which is over in \<^verbatim>\<open>STATE_QUIT\<close>; a signal; the end of some process.\<close>

definition parent_step :: "parent \<Rightarrow> pevent \<Rightarrow> parent outcome" where
  "parent_step s e =
     (case e of
        Serve S \<Rightarrow>
          if state_value STATE_QUIT \<le> state_value (pv_state (pa_priv s)) then Ok s
          else obind (priv_serve S (pa_priv s)) (\<lambda>r. case r of
              None \<Rightarrow> Ok s
            | Some v \<Rightarrow> Ok (s\<lparr>pa_priv := v, pa_mask := (if launches (pa_priv s) then launch_mask S s else pa_mask s)\<rparr>))
      | Signal n is \<Rightarrow>
          if n \<in> pa_mask s then Ok s
          else (case run_handler is n s of None \<Rightarrow> Fatal ''terminated by a signal'' | Some s' \<Rightarrow> Ok s')
      | Ended pid \<Rightarrow> Ok (s\<lparr>pa_ended := pa_ended s @ [pid]\<rparr>))"

definition parent_start :: "int \<Rightarrow> dispositions \<Rightarrow> read_ev list \<Rightarrow> parent" where
  "parent_start child d inp = \<lparr>pa_priv = priv_start inp, pa_child = child, pa_disp = parent_signals (init_signals d), pa_mask = {}, pa_ended = [],
     pa_kills = []\<rparr>"

section \<open>What the dispositions are\<close>

lemma fold_sigaction:
  "fold (\<lambda>i. sigaction i h) xs d n = (if n \<in> set xs \<and> n \<noteq> SIGKILL \<and> n \<noteq> SIGSTOP then h else d n)"
  by (induction xs arbitrary: d) (auto simp: sigaction_def)

lemma reset_all:
  "reset_default_signals d n = (if 0 < n \<and> n < NSIG \<and> n \<noteq> SIGKILL \<and> n \<noteq> SIGSTOP then SIG_DFL else d n)"
  unfolding reset_default_signals_def fold_sigaction by (simp add: Suc_le_eq)

abbreviation (input) passed :: "nat set" where "passed \<equiv> {SIGHUP, SIGINT, SIGQUIT, SIGTERM}"

lemma start_dispositions:
  "n \<in> passed \<Longrightarrow> pa_disp (parent_start child d inp) n = Sig_pass_to_chld"
  "pa_disp (parent_start child d inp) SIGCHLD = Sig_got_chld" "pa_disp (parent_start child d inp) SIGPIPE = SIG_IGN"
  by (auto simp: parent_start_def parent_signals_def init_signals_def sigaction_def)

lemma chld_twice: "sig_got_chld (sig_got_chld s) = sig_got_chld s"
  by (simp add: sig_got_chld_def)

lemma reap_children_spec: "reap_children child is ps s = (if child \<in> set ps then sig_got_chld s else s)"
  by (induction child "is" ps s rule: reap_children.induct) (simp_all add: chld_twice)

section \<open>Properties\<close>

text \<open>The signals among the events that are meant for the child.\<close>

fun for_child :: "pevent list \<Rightarrow> nat list" where
  "for_child [] = []"
| "for_child (Signal n is # es) = (if n \<in> passed then n # for_child es else for_child es)"
| "for_child (_ # es) = for_child es"

lemma for_child_append: "for_child (xs @ ys) = for_child xs @ for_child ys"
  by (induction xs rule: for_child.induct) simp_all

text \<open>The child has ended and the parent was told.\<close>

definition child_over :: "int \<Rightarrow> pevent list \<Rightarrow> bool" where
  "child_over child evs \<longleftrightarrow> (\<exists>xs is ys. evs = xs @ Signal SIGCHLD is # ys \<and> Ended child \<in> set xs)"

lemma child_over_snoc:
  "child_over child (evs @ [e]) \<longleftrightarrow> child_over child evs \<or> (\<exists>is. e = Signal SIGCHLD is) \<and> Ended child \<in> set evs"
  (is "?L \<longleftrightarrow> ?R")
proof
  assume ?L
  then obtain xs "is" ys where x: "evs @ [e] = xs @ Signal SIGCHLD is # ys" "Ended child \<in> set xs" by (auto simp: child_over_def)
  then show ?R by (cases ys rule: rev_cases) (auto simp: child_over_def)
next
  assume ?R
  then show ?L
  proof
    assume "child_over child evs"
    then obtain xs "is" ys where "evs = xs @ Signal SIGCHLD is # ys" "Ended child \<in> set xs" by (auto simp: child_over_def)
    then show ?L unfolding child_over_def by (intro exI [of _ xs] exI [of _ "is"] exI [of _ "ys @ [e]"]) simp
  qed (auto simp: child_over_def)
qed

definition parent_inv :: "int \<Rightarrow> dispositions \<Rightarrow> read_ev list \<Rightarrow> pevent list \<Rightarrow> parent \<Rightarrow> bool" where
  "parent_inv child d inp evs s \<longleftrightarrow> pa_child s = child \<and> pa_disp s = pa_disp (parent_start child d inp) \<and> pa_mask s = {} \<and>
     pa_kills s = map (Pair child) (for_child evs) \<and> priv_run (priv_start inp) (pa_priv s) \<and>
     (Ended child \<in> set evs \<longrightarrow> child \<in> set (pa_ended s) \<or> pv_state (pa_priv s) = STATE_QUIT) \<and>
     (child_over child evs \<longrightarrow> pv_state (pa_priv s) = STATE_QUIT)"

lemma handled_returns:
  assumes "parent_inv child d inp evs s" and "child \<noteq> - 1" and "n \<in> passed \<union> {SIGPIPE, SIGCHLD}"
  shows "\<exists>s'. parent_step s (Signal n is) = Ok s' \<and> parent_inv child d inp (evs @ [Signal n is]) s'"
proof -
  note inv = assms(1) [unfolded parent_inv_def]
  have run: "priv_run (priv_start inp) (sig_got_chld (pa_priv s))" using inv by (blast intro: priv_run.child_died)
  consider (pass) "n \<in> passed" | (pipe) "n = SIGPIPE" | (chld) "n = SIGCHLD" using assms(3) by blast
  then show ?thesis
  proof cases
    case pass
    then have "n \<noteq> SIGCHLD" by auto
    then show ?thesis using inv pass start_dispositions(1) [OF pass, of child d inp] assms(2)
      by (simp add: parent_step_def run_handler_def sig_pass_to_chld_def parent_inv_def for_child_append child_over_snoc)
  next
    case pipe
    then show ?thesis using inv start_dispositions(3) [of child d inp]
      by (simp add: parent_step_def run_handler_def parent_inv_def for_child_append child_over_snoc)
  next
    case chld
    then show ?thesis using inv run start_dispositions(2) [of child d inp]
      by (auto simp: parent_step_def run_handler_def reap_children_spec parent_inv_def for_child_append child_over_snoc)
  qed
qed

lemma parent_step_inv:
  assumes "parent_inv child d inp evs s" and "child \<noteq> - 1" and "parent_step s e = Ok s'"
    and "\<And>n is. e = Signal n is \<Longrightarrow> n \<in> passed \<union> {SIGPIPE, SIGCHLD}" and "\<And>S. e = Serve S \<Longrightarrow> 0 < ps_fork S"
  shows "parent_inv child d inp (evs @ [e]) s'"
proof (cases e)
  case (Signal n "is")
  then show ?thesis using handled_returns [OF assms(1,2) assms(4) [OF Signal], of "is"] assms(3) by auto
next
  case (Ended pid)
  then show ?thesis using assms(1,3) by (auto simp: parent_step_def parent_inv_def for_child_append child_over_snoc)
next
  case (Serve S)
  note inv = assms(1) [unfolded parent_inv_def]
  have ex: "for_child (evs @ [e]) = for_child evs" "child_over child (evs @ [e]) = child_over child evs" "Ended child \<in> set (evs @ [e]) \<longleftrightarrow> Ended child \<in> set evs"
    using Serve by (simp_all add: for_child_append child_over_snoc)
  show ?thesis
  proof (cases "state_value STATE_QUIT \<le> state_value (pv_state (pa_priv s)) \<or> priv_serve S (pa_priv s) = Ok None")
    case True
    then have "s' = s" using assms(3) Serve by (auto simp: parent_step_def split: if_splits)
    then show ?thesis using inv unfolding parent_inv_def ex by simp
  next
    case False
    then obtain v where v: "priv_serve S (pa_priv s) = Ok (Some v)" "state_value (pv_state (pa_priv s)) < state_value STATE_QUIT"
      "s' = s\<lparr>pa_priv := v, pa_mask := (if launches (pa_priv s) then launch_mask S s else pa_mask s)\<rparr>"
      using assms(3) Serve by (auto simp: parent_step_def obind_eq_Ok_iff split: option.splits)
    have "pa_mask s' = {}" using v(3) inv assms(5) [OF Serve] by (simp add: launch_mask_def)
    moreover have "priv_run (priv_start inp) v" using inv v(1,2) by (blast intro: priv_run.serve)
    moreover have "pv_state (pa_priv s) \<noteq> STATE_QUIT" using v(2) by auto
    ultimately show ?thesis using inv v(3) unfolding parent_inv_def ex by simp
  qed
qed

lemma parent_inv_run:
  assumes "ofold parent_step (parent_start child d inp) evs = Ok s" and "child \<noteq> - 1"
    and "\<forall>n is. Signal n is \<in> set evs \<longrightarrow> n \<in> passed \<union> {SIGPIPE, SIGCHLD}" and "\<forall>S. Serve S \<in> set evs \<longrightarrow> 0 < ps_fork S"
  shows "parent_inv child d inp evs s"
  using assms
proof (induction evs arbitrary: s rule: rev_induct)
  case Nil
  then show ?case by (auto simp: parent_inv_def parent_start_def child_over_def intro: priv_run.start)
next
  case (snoc e evs)
  obtain s1 where s1: "ofold parent_step (parent_start child d inp) evs = Ok s1" "parent_step s1 e = Ok s"
    using snoc.prems(1) by (auto simp: ofold_append obind_eq_Ok_iff)
  have "parent_inv child d inp evs s1" by (rule snoc.IH [OF s1(1) snoc.prems(2)]) (use snoc.prems(3,4) in auto)
  then show ?case using parent_step_inv [OF _ snoc.prems(2) s1(2)] snoc.prems(3,4) by auto
qed



section \<open>What goes wrong\<close>

text \<open>A script starts with \<^verbatim>\<open>SIGCHLD\<close> blocked: the handlers are reset before it is executed, the mask is not.\<close>

lemma script_starts_with_chld_blocked:
  "SIGCHLD \<in> snd (script_signals s) \<and> fst (script_signals s) SIGCHLD = SIG_DFL"
  by (simp add: script_signals_def reset_all)

text \<open>
  The child asks to be sent \<^verbatim>\<open>SIGCHLD\<close> when its parent dies; it starts with the default disposition of that signal, which does nothing.
\<close>

lemma parent_death_not_fatal:
  "init_signals d SIGCHLD = SIG_DFL \<and> run_handler is SIGCHLD (s\<lparr>pa_disp := init_signals d\<rparr>) = Some (s\<lparr>pa_disp := init_signals d\<rparr>)"
proof -
  have "init_signals d SIGCHLD = SIG_DFL" by (simp add: init_signals_def sigaction_def reset_all)
  then show ?thesis by (simp add: run_handler_def)
qed

text \<open>After a fork that failed \<^verbatim>\<open>SIGCHLD\<close> stays blocked, and the end of the child goes unnoticed until the next request cannot be read.\<close>

lemma failed_fork_hides_child:
  assumes "priv_serve S (pa_priv s) = Ok (Some v)" and "launches (pa_priv s)" and "\<not> 0 < ps_fork S" and "pv_state v = STATE_RUNNING"
    and "state_value (pv_state (pa_priv s)) < state_value STATE_QUIT"
  shows "\<exists>s'. ofold parent_step s [Serve S, Ended (pa_child s), Signal SIGCHLD []] = Ok s' \<and> pv_state (pa_priv s') = STATE_RUNNING"
  using assms by (simp add: parent_step_def launch_mask_def)

end
