(* ===== verification/Log.thy ===== *)
theory Log
  imports Tunnel
begin

text \<open>
  Logging (\<^verbatim>\<open>src/log.c\<close>): where a message goes, which levels and tokens are let through, and how the line is put together. Rendering a format with its arguments
  (\<^verbatim>\<open>vasprintf\<close>, \<^verbatim>\<open>vfprintf\<close>) is an argument of the definitions, \<open>None\<close> when there is no memory for it. Shown here: the table of debug tokens stays within its bounds and
  lets through exactly the first forty that were registered.
\<close>

section \<open>State\<close>

abbreviation (input) MAX_DBG_TOKENS :: nat where "MAX_DBG_TOKENS \<equiv> 40"
abbreviation (input) LOG_CRIT :: int where "LOG_CRIT \<equiv> 2"
abbreviation (input) LOG_WARNING :: int where "LOG_WARNING \<equiv> 4"
abbreviation (input) LOG_INFO :: int where "LOG_INFO \<equiv> 6"
abbreviation (input) LOG_DEBUG :: int where "LOG_DEBUG \<equiv> 7"

text \<open>The static variables; \<open>lg_logh\<close> is whether a handler is registered, \<open>lg_out\<close> what was written.\<close>

datatype log_out = ToHandler int string | ToStderr string | ToSyslog int string

record log_state =
  lg_debug :: int
  lg_level :: int
  lg_opened :: bool
  lg_logh :: bool
  lg_tokens :: "string option list"
  lg_out :: "log_out list"

definition log_state_init :: log_state where
  "log_state_init = \<lparr>lg_debug = 1, lg_level = 0, lg_opened = False, lg_logh = False, lg_tokens = replicate (MAX_DBG_TOKENS + 1) None, lg_out = []\<rparr>"

definition log_init :: "int \<Rightarrow> int \<Rightarrow> log_state \<Rightarrow> log_state" where
  "log_init n_debug n_level s = (let s1 = s\<lparr>lg_debug := n_debug, lg_level := n_level\<rparr> in if n_debug = 0 then s1\<lparr>lg_opened := True\<rparr> else s1)"

text \<open>\<open>cb\<close>: the handler is not null.\<close>

definition log_register :: "bool \<Rightarrow> log_state \<Rightarrow> log_state" where
  "log_register cb s = s\<lparr>lg_logh := cb\<rparr>"

section \<open>Debug tokens\<close>

text \<open>\<open>i\<close> is the loop variable, \<open>n\<close> the number of rounds left.\<close>

fun accept_loop :: "nat \<Rightarrow> nat \<Rightarrow> string \<Rightarrow> string option list \<Rightarrow> string option list outcome" where
  "accept_loop 0 i token tokens = Ok tokens"
| "accept_loop (Suc n) i token tokens =
     obind (mem_rd tokens i) (\<lambda>t.
       if t = None then obind (mem_wr tokens (i + 1) None) (\<lambda>ts. mem_wr ts i (Some token))
       else accept_loop n (i + 1) token tokens)"

definition log_accept :: "string \<Rightarrow> log_state \<Rightarrow> log_state outcome" where
  "log_accept token s = obind (accept_loop MAX_DBG_TOKENS 0 token (lg_tokens s)) (\<lambda>ts. Ok (s\<lparr>lg_tokens := ts\<rparr>))"

fun accept_token_loop :: "nat \<Rightarrow> nat \<Rightarrow> string \<Rightarrow> string option list \<Rightarrow> bool outcome" where
  "accept_token_loop 0 i token tokens = Ok False"
| "accept_token_loop (Suc n) i token tokens =
     obind (mem_rd tokens i) (\<lambda>t. case t of
       None \<Rightarrow> Ok False
     | Some x \<Rightarrow> if x = token then Ok True else accept_token_loop n (i + 1) token tokens)"

definition log_debug_accept_token :: "string option \<Rightarrow> log_state \<Rightarrow> bool outcome" where
  "log_debug_accept_token token s =
     (case token of None \<Rightarrow> Ok False | Some t \<Rightarrow> accept_token_loop MAX_DBG_TOKENS 0 t (lg_tokens s))"

section \<open>Writing\<close>

definition translate :: "bool \<Rightarrow> int \<Rightarrow> string" where
  "translate tty priority =
     (let names = [''EMRG'', ''ALRT'', ''CRIT'', '' ERR'', ''WARN'', ''NOTI'', ''INFO'', '' DBG''];
          colors = [''[1;37;41m'', ''[1;37;41m'', ''[1;37;41m'', ''[1;31m'', ''[1;33m'', ''[1;34m'', ''[1;34m'', ''[1;30m''] in
      if 0 \<le> priority \<and> priority < 8
      then (if tty then CHR 0x1B # colors ! nat priority else []) @ ''['' @ names ! nat priority
      else ''[UNKN]'')"

text \<open>
  \<open>va\<close> renders a format with the arguments of the call; \<open>date\<close> and \<open>tty\<close> are the answers of the system. The token and the format become one format, which is rendered in turn.
\<close>

record log_env =
  le_date :: string
  le_tty :: bool
  le_strerror :: string
  le_memory :: bool

definition vlog :: "log_env \<Rightarrow> (string \<Rightarrow> string option) \<Rightarrow> int \<Rightarrow> string option \<Rightarrow> string \<Rightarrow> log_state \<Rightarrow> log_state" where
  "vlog L va pri token fmt s =
     (let put = (\<lambda>x. s\<lparr>lg_out := lg_out s @ [x]\<rparr>);
          render = (\<lambda>f. case va f of Some t \<Rightarrow> t | None \<Rightarrow> []) in
      if lg_logh s \<and> va fmt \<noteq> None then put (ToHandler pri (the (va fmt)))
      else if lg_debug s \<noteq> 0 \<or> lg_logh s then
        if le_memory L then
          put (ToStderr (render (le_date L @ '' '' @ translate (le_tty L) pri @ (case token of Some t \<Rightarrow> ''/'' @ t | None \<Rightarrow> []) @ '']'' @
            (if le_tty L then CHR 0x1B # ''[0m'' else []) @ '' '' @ fmt @ [CHR 0x0A])))
        else put (ToStderr (render fmt @ [CHR 0x0A]))
      else put (ToSyslog pri (render fmt)))"

text \<open>Without a message the code passes \<^verbatim>\<open>"%s"\<close> as the token and the text of the error as the format.\<close>

definition log_warn :: "log_env \<Rightarrow> (string \<Rightarrow> string option) \<Rightarrow> string option \<Rightarrow> string option \<Rightarrow> log_state \<Rightarrow> log_state" where
  "log_warn L va token emsg s =
     (case emsg of
        None \<Rightarrow> vlog L va LOG_WARNING (Some ''%s'') (le_strerror L) s
      | Some m \<Rightarrow>
          if le_memory L then vlog L va LOG_WARNING token (m @ '': '' @ le_strerror L) s
          else vlog L va LOG_WARNING (Some ''%s'') (le_strerror L) (vlog L va LOG_WARNING token m s))"

definition log_warnx :: "log_env \<Rightarrow> (string \<Rightarrow> string option) \<Rightarrow> string option \<Rightarrow> string \<Rightarrow> log_state \<Rightarrow> log_state" where
  "log_warnx L va token emsg s = vlog L va LOG_WARNING token emsg s"

definition log_crit :: "log_env \<Rightarrow> (string \<Rightarrow> string option) \<Rightarrow> string option \<Rightarrow> string \<Rightarrow> log_state \<Rightarrow> log_state" where
  "log_crit L va token emsg s = vlog L va LOG_CRIT token emsg s"

definition log_info :: "log_env \<Rightarrow> (string \<Rightarrow> string option) \<Rightarrow> string option \<Rightarrow> string \<Rightarrow> log_state \<Rightarrow> log_state" where
  "log_info L va token emsg s = (if 1 < lg_level s \<or> lg_logh s then vlog L va LOG_INFO token emsg s else s)"

definition log_debug :: "log_env \<Rightarrow> (string \<Rightarrow> string option) \<Rightarrow> string option \<Rightarrow> string \<Rightarrow> log_state \<Rightarrow> log_state outcome" where
  "log_debug L va token emsg s =
     obind (if lg_level s = 2 then log_debug_accept_token token s else Ok False) (\<lambda>accepted.
       Ok (if accepted \<or> lg_logh s \<or> 2 < lg_level s then vlog L va LOG_DEBUG token emsg s else s))"

text \<open>
  \<^verbatim>\<open>fatal\<close> and \<^verbatim>\<open>fatalx\<close>: the line that is logged before the program exits with status 1. Their formats hold nothing but \<^verbatim>\<open>%s\<close>. The rest of the development has the exit as
  the result \<open>Fatal\<close> with the message.
\<close>

fun printf_s :: "string list \<Rightarrow> string \<Rightarrow> string" where
  "printf_s (a # args) (CHR ''%'' # CHR ''s'' # f) = a @ printf_s args f"
| "printf_s args (c # f) = c # printf_s args f"
| "printf_s args [] = []"

definition fatal :: "log_env \<Rightarrow> int \<Rightarrow> string option \<Rightarrow> string option \<Rightarrow> log_state \<Rightarrow> log_state" where
  "fatal L errno token emsg s =
     (let t = (case token of Some t \<Rightarrow> t | None \<Rightarrow> ''fatal'') in
      case emsg of
        None \<Rightarrow> vlog L (Some \<circ> printf_s [le_strerror L]) LOG_CRIT (Some t) ''%s'' s
      | Some m \<Rightarrow> if errno \<noteq> 0 then vlog L (Some \<circ> printf_s [m, le_strerror L]) LOG_CRIT (Some t) ''%s: %s'' s
                 else vlog L (Some \<circ> printf_s [m]) LOG_CRIT (Some t) ''%s'' s)"

definition fatalx :: "log_env \<Rightarrow> string option \<Rightarrow> log_state \<Rightarrow> log_state" where
  "fatalx L emsg s = fatal L 0 None emsg s"

lemma fatalx_syslog: "lg_debug s = 0 \<Longrightarrow> \<not> lg_logh s \<Longrightarrow> fatalx L (Some m) s = s\<lparr>lg_out := lg_out s @ [ToSyslog LOG_CRIT m]\<rparr>"
  by (simp add: fatalx_def fatal_def vlog_def)

section \<open>The token table\<close>

text \<open>The table holds the tokens registered so far, then a null pointer.\<close>

definition tokens_hold :: "string list \<Rightarrow> log_state \<Rightarrow> bool" where
  "tokens_hold ts s \<longleftrightarrow> length (lg_tokens s) = MAX_DBG_TOKENS + 1 \<and> length ts \<le> MAX_DBG_TOKENS \<and>
     take (length ts) (lg_tokens s) = map Some ts \<and> lg_tokens s ! length ts = None"

lemma tokens_hold_nth:
  assumes "tokens_hold ts s" and "i \<le> length ts"
  shows "mem_rd (lg_tokens s) i = Ok (if i < length ts then Some (ts ! i) else None)"
proof -
  have "take (length ts) (lg_tokens s) = map Some ts" using assms(1) by (simp add: tokens_hold_def)
  then have "lg_tokens s ! i = Some (ts ! i)" if "i < length ts" using that by (metis nth_map nth_take)
  then show ?thesis using assms by (auto simp: tokens_hold_def mem_rd_def)
qed

lemma accept_loop_result:
  assumes "tokens_hold ts s" and "i \<le> length ts" and "i + n = MAX_DBG_TOKENS"
  shows "accept_loop n i token (lg_tokens s) =
     Ok (if length ts < MAX_DBG_TOKENS then (lg_tokens s)[length ts + 1 := None, length ts := Some token] else lg_tokens s)"
  using assms(2,3)
proof (induction n arbitrary: i)
  case (Suc n)
  show ?case
  proof (cases "i < length ts")
    case True
    then show ?thesis using Suc.IH [of "i + 1"] Suc.prems tokens_hold_nth [OF assms(1) Suc.prems(1)] by simp
  next
    case False
    then have "i = length ts" using Suc.prems(1) by simp
    moreover have "length (lg_tokens s) = MAX_DBG_TOKENS + 1" using assms(1) by (simp add: tokens_hold_def)
    ultimately show ?thesis using tokens_hold_nth [OF assms(1) Suc.prems(1)] Suc.prems(2) by simp
  qed
qed (use assms(1) in \<open>simp add: tokens_hold_def\<close>)

lemma log_accept_holds:
  assumes "tokens_hold ts s"
  shows "\<exists>s'. log_accept token s = Ok s' \<and> tokens_hold (take MAX_DBG_TOKENS (ts @ [token])) s'"
proof (cases "length ts < MAX_DBG_TOKENS")
  case True
  then show ?thesis using assms accept_loop_result [OF assms, of 0 MAX_DBG_TOKENS token]
    by (auto simp: log_accept_def tokens_hold_def take_Suc_conv_app_nth)
next
  case False
  then show ?thesis using assms accept_loop_result [OF assms, of 0 MAX_DBG_TOKENS token] by (auto simp: log_accept_def tokens_hold_def)
qed

lemma accept_token_result:
  assumes "tokens_hold ts s" and "i \<le> length ts" and "i + n = MAX_DBG_TOKENS"
  shows "accept_token_loop n i token (lg_tokens s) = Ok (token \<in> set (drop i ts))"
  using assms(2,3)
proof (induction n arbitrary: i)
  case 0
  then have "drop i ts = []" using assms(1) by (simp add: tokens_hold_def)
  then show ?case by simp
next
  case (Suc n)
  show ?case
  proof (cases "i < length ts")
    case True
    then have "drop i ts = ts ! i # drop (i + 1) ts" by (simp add: Cons_nth_drop_Suc)
    then show ?thesis using True Suc.IH [of "i + 1"] Suc.prems tokens_hold_nth [OF assms(1) Suc.prems(1)] by auto
  next
    case False
    then show ?thesis using Suc.prems tokens_hold_nth [OF assms(1) Suc.prems(1)] by simp
  qed
qed

lemma log_accepts_hold:
  assumes "tokens_hold ts0 s"
  shows "\<exists>s'. ofold (\<lambda>s t. log_accept t s) s ts = Ok s' \<and> tokens_hold (take MAX_DBG_TOKENS (ts0 @ ts)) s'"
  using assms
proof (induction ts arbitrary: ts0 s)
  case Nil
  then show ?case by (auto simp: tokens_hold_def)
next
  case (Cons t ts)
  obtain s1 where s1: "log_accept t s = Ok s1" "tokens_hold (take MAX_DBG_TOKENS (ts0 @ [t])) s1" using log_accept_holds [OF Cons.prems] by blast
  have "take MAX_DBG_TOKENS (take MAX_DBG_TOKENS (ts0 @ [t]) @ ts) = take MAX_DBG_TOKENS (ts0 @ t # ts)"
    using Cons.prems by (cases "length ts0 < MAX_DBG_TOKENS") (auto simp: tokens_hold_def)
  then show ?case using Cons.IH [OF s1(2)] s1(1) by simp
qed

text \<open>
  The debug tokens of the command line are kept within their table: the first forty are let through and no other, and registering more changes nothing.
\<close>

theorem debug_tokens_bounded:
  "\<exists>s. ofold (\<lambda>s t. log_accept t s) log_state_init ts = Ok s \<and>
     (\<forall>t. log_debug_accept_token (Some t) s = Ok (t \<in> set (take 40 ts)))"
proof -
  have "tokens_hold [] log_state_init" by (simp add: tokens_hold_def log_state_init_def)
  from log_accepts_hold [OF this, of ts] obtain s where s: "ofold (\<lambda>s t. log_accept t s) log_state_init ts = Ok s"
    "tokens_hold (take MAX_DBG_TOKENS ts) s" by auto
  then show ?thesis using accept_token_result [OF s(2), of 0 MAX_DBG_TOKENS] by (simp add: log_debug_accept_token_def)
qed

end
