(* ===== verification/Title.thy ===== *)
theory Title
  imports Cstring
begin

text \<open>
  The process title (\<^verbatim>\<open>src/setproctitle.c\<close> and \<^verbatim>\<open>src/vis.c\<close>): the memory of the arguments and of the environment is found, a title is put together, its characters are made
  visible, and it is copied over that memory. Shown here: the encoding never writes outside of the buffers it is given and keeps to printable characters, and a title only
  changes memory that belonged to the arguments and the environment.
\<close>

unbundle bit_operations_syntax

section \<open>Making characters visible\<close>

abbreviation (input) VIS_OCTAL :: int where "VIS_OCTAL \<equiv> 1"
abbreviation (input) VIS_CSTYLE :: int where "VIS_CSTYLE \<equiv> 2"
abbreviation (input) VIS_SP :: int where "VIS_SP \<equiv> 4"
abbreviation (input) VIS_TAB :: int where "VIS_TAB \<equiv> 8"
abbreviation (input) VIS_NL :: int where "VIS_NL \<equiv> 16"
abbreviation (input) VIS_SAFE :: int where "VIS_SAFE \<equiv> 32"
abbreviation (input) VIS_NOSLASH :: int where "VIS_NOSLASH \<equiv> 64"
abbreviation (input) VIS_GLOB :: int where "VIS_GLOB \<equiv> 256"
abbreviation (input) VIS_DQ :: int where "VIS_DQ \<equiv> 512"
abbreviation (input) VIS_ALL :: int where "VIS_ALL \<equiv> 1024"

text \<open>A \<^verbatim>\<open>char\<close> is signed; a value stored in one keeps its low eight bits. The classes are those of the C locale.\<close>

definition signed_char :: "char \<Rightarrow> int" where
  "signed_char x = (let u = int (of_char x) in if u < 128 then u else u - 256)"

definition to_char :: "int \<Rightarrow> char" where
  "to_char c = char_of (nat (c mod 256))"

definition isgraph :: "int \<Rightarrow> bool" where
  "isgraph c \<longleftrightarrow> 33 \<le> c \<and> c \<le> 126"

definition iscntrl :: "int \<Rightarrow> bool" where
  "iscntrl c \<longleftrightarrow> 0 \<le> c \<and> c < 32 \<or> c = 127"

definition isoctal :: "int \<Rightarrow> bool" where
  "isoctal c \<longleftrightarrow> 48 \<le> c mod 256 \<and> c mod 256 \<le> 55"

definition isglob :: "int \<Rightarrow> bool" where
  "isglob c \<longleftrightarrow> c = 42 \<or> c = 63 \<or> c = 91 \<or> c = 35"

definition isvisible :: "int \<Rightarrow> int \<Rightarrow> bool" where
  "isvisible c flag \<longleftrightarrow> (c = 92 \<or> flag AND VIS_ALL = 0) \<and>
     (0 \<le> c \<and> c < 128 \<and> (\<not> isglob c \<or> flag AND VIS_GLOB = 0) \<and> isgraph c \<or>
      flag AND VIS_SP = 0 \<and> c = 32 \<or> flag AND VIS_TAB = 0 \<and> c = 9 \<or> flag AND VIS_NL = 0 \<and> c = 10 \<or>
      flag AND VIS_SAFE \<noteq> 0 \<and> (c = 8 \<or> c = 7 \<or> c = 13 \<or> isgraph (c mod 256)))"

definition slashed :: "int \<Rightarrow> int \<Rightarrow> bool" where
  "slashed c flag \<longleftrightarrow> c = 34 \<and> flag AND VIS_DQ \<noteq> 0 \<or> c = 92 \<and> flag AND VIS_NOSLASH = 0"

text \<open>The C escapes, in the order of the cases: line feed, carriage return, backspace, bell, vertical tab, tab, form feed, blank and null.\<close>

definition cstyle :: "int \<Rightarrow> int \<Rightarrow> string option" where
  "cstyle c nextc =
     (if c = 10 then Some ''n'' else if c = 13 then Some ''r'' else if c = 8 then Some ''b'' else if c = 7 then Some ''a''
      else if c = 11 then Some ''v'' else if c = 9 then Some ''t'' else if c = 12 then Some ''f'' else if c = 32 then Some ''s''
      else if c = 0 then Some (if isoctal nextc then ''000'' else ''0'') else None)"

definition octal_digits :: "int \<Rightarrow> string" where
  "octal_digits c = map (\<lambda>d. to_char (d + 48)) [c mod 256 div 64 mod 8, c mod 256 div 8 mod 8, c mod 256 mod 8]"

text \<open>The characters \<^verbatim>\<open>vis\<close> writes before the terminator.\<close>

definition vis :: "int \<Rightarrow> int \<Rightarrow> int \<Rightarrow> string" where
  "vis c flag nextc =
     (if isvisible c flag then (if slashed c flag then [CHR 0x5C] else []) @ [to_char c]
      else if flag AND VIS_CSTYLE \<noteq> 0 \<and> cstyle c nextc \<noteq> None then CHR 0x5C # the (cstyle c nextc)
      else if c AND 127 = 32 \<or> flag AND VIS_OCTAL \<noteq> 0 \<or> flag AND VIS_GLOB \<noteq> 0 \<and> isglob c then CHR 0x5C # octal_digits c
      else let c1 = (if c AND 128 \<noteq> 0 then c AND 127 else c) in
        (if flag AND VIS_NOSLASH = 0 then [CHR 0x5C] else []) @ (if c AND 128 \<noteq> 0 then ''M'' else []) @
        (if iscntrl (c1 mod 256) then CHR ''^'' # (if c1 = 127 then ''?'' else [to_char (c1 + 64)]) else CHR ''-'' # [to_char c1]))"

section \<open>Strings\<close>

definition next_char :: "string \<Rightarrow> int" where
  "next_char xs = (case xs of [] \<Rightarrow> 0 | y # _ \<Rightarrow> signed_char y)"

text \<open>\<^verbatim>\<open>strvis\<close>, the encoding of a whole string; \<^verbatim>\<open>strvisx\<close> does the same for a block of data whose last byte is followed by nothing.\<close>

fun strvis :: "int \<Rightarrow> string \<Rightarrow> string" where
  "strvis flag [] = []"
| "strvis flag (x # xs) = vis (signed_char x) flag (next_char xs) @ strvis flag xs"

definition mem_copy :: "char list \<Rightarrow> nat \<Rightarrow> string \<Rightarrow> char list outcome" where
  "mem_copy m d t = (if d + length t \<le> length m then Ok (patch m d t) else Fault OutOfBounds)"

text \<open>
  The loop of \<^verbatim>\<open>strnvis\<close>: \<open>m\<close> is the memory at \<^verbatim>\<open>dst\<close>, \<open>d\<close> the position in it, \<open>i\<close> the variable of that name. \<^verbatim>\<open>vis\<close> writes to \<^verbatim>\<open>tbuf[5]\<close>. The result starts with what is left
  of the source.
\<close>

fun strnvis_loop :: "int \<Rightarrow> nat \<Rightarrow> string \<Rightarrow> char list \<Rightarrow> nat \<Rightarrow> nat \<Rightarrow> (string \<times> char list \<times> nat \<times> nat) outcome" where
  "strnvis_loop flag siz [] m d i = Ok ([], m, d, i)"
| "strnvis_loop flag siz (x # xs) m d i =
     (let c = signed_char x in
      if \<not> d + 1 < siz then Ok (x # xs, m, d, i)
      else if isvisible c flag then
        if slashed c flag then
          if siz \<le> d + 2 then Ok (x # xs, m, d, 2)
          else obind (mem_wr m d (CHR 0x5C)) (\<lambda>m1. obind (mem_wr m1 (d + 1) x) (\<lambda>m2. strnvis_loop flag siz xs m2 (d + 2) 1))
        else obind (mem_wr m d x) (\<lambda>m1. strnvis_loop flag siz xs m1 (d + 1) 1)
      else let t = vis c flag (next_char xs) in
        if 5 < length t + 1 then Fault OutOfBounds
        else if d + length t + 1 \<le> siz then obind (mem_copy m d t) (\<lambda>m1. strnvis_loop flag siz xs m1 (d + length t) (length t))
        else Ok (x # xs, m, d, length t))"

definition strnvis :: "char list \<Rightarrow> string \<Rightarrow> nat \<Rightarrow> int \<Rightarrow> (char list \<times> nat) outcome" where
  "strnvis m src siz flag =
     obind (strnvis_loop flag siz src m 0 0) (\<lambda>(rest, m1, d, i).
     obind (if 0 < siz then mem_wr m1 d NUL else Ok m1) (\<lambda>m2.
       Ok (m2, if siz < d + i + 1 then d + length (strvis flag rest) else d)))"

text \<open>\<^verbatim>\<open>strvisx\<close>: exactly \<open>len\<close> bytes.\<close>

definition strvisx :: "int \<Rightarrow> string \<Rightarrow> nat \<Rightarrow> string" where
  "strvisx flag src len = strvis flag (take len src)"

section \<open>The encoding\<close>

lemma to_char_signed [simp]: "to_char (signed_char x) = x"
proof -
  have "int (of_char x) mod 256 = int (of_char x)" using of_char_mod_256 [of x, where 'a = nat] by (metis of_nat_mod of_nat_numeral)
  then have "signed_char x mod 256 = int (of_char x)" by (simp add: signed_char_def Let_def)
  then show ?thesis by (simp add: to_char_def)
qed

lemma vis_visible: "isvisible (signed_char x) flag \<Longrightarrow> vis (signed_char x) flag n = (if slashed (signed_char x) flag then [CHR 0x5C] else []) @ [x]"
  by (simp add: vis_def)

lemma vis_length: "0 < length (vis c flag n)" "length (vis c flag n) \<le> 4"
proof -
  have shape: "0 < length xs \<and> length xs \<le> 4" if "xs = (if p1 then (if p2 then [a] else []) @ [b] else if p3 then e # s else if p4 then e # o1
       else (if p5 then [e] else []) @ (if p6 then [f] else []) @ (if p7 then g # (if p8 then [h] else [i]) else j # [k]))"
      and "p3 \<Longrightarrow> length s \<le> 3" and "length o1 = 3" for xs s o1 :: string and a b e f g h i j k p1 p2 p3 p4 p5 p6 p7 p8
    using that by (simp split: if_splits)
  have "length (the (cstyle c n)) \<le> 3" if "flag AND VIS_CSTYLE \<noteq> 0 \<and> cstyle c n \<noteq> None"
  proof -
    have "cstyle c n \<noteq> None" using that by (rule conjunct2)
    then show ?thesis by (simp add: cstyle_def split: if_splits)
  qed
  from shape [OF vis_def [unfolded Let_def] this] have "0 < length (vis c flag n) \<and> length (vis c flag n) \<le> 4" by (simp only: octal_digits_def) simp
  then show "0 < length (vis c flag n)" "length (vis c flag n) \<le> 4" by (rule conjunct1, rule conjunct2)
qed

lemma strnvis_step:
  assumes "d + 1 < siz" and "siz \<le> length m" and t: "t = vis (signed_char x) flag (next_char xs)"
  shows "\<exists>k. 0 < k \<and> strnvis_loop flag siz (x # xs) m d i =
     (if d + length t + 1 \<le> siz then strnvis_loop flag siz xs (patch m d t) (d + length t) k else Ok (x # xs, m, d, k)) \<and>
     (siz < d + length t + 1 \<longrightarrow> siz < d + k + 1)"
proof (cases "isvisible (signed_char x) flag")
  case True
  show ?thesis
  proof (cases "slashed (signed_char x) flag")
    case s: True
    then have tx: "t = [CHR 0x5C, x]" using True t vis_visible by simp
    have "m[d := CHR 0x5C, Suc d := x] = patch m d t" if "d + 3 \<le> siz"
    proof -
      have "m[d := CHR 0x5C, Suc d := x] = patch (m[d := CHR 0x5C]) (Suc d) [x]" using that assms(2) by (simp add: patch_single)
      then show ?thesis unfolding tx using that assms(2) by (simp add: patch_update_Suc)
    qed
    then show ?thesis using assms(1,2) True s
      by (intro exI [of _ "if d + 3 \<le> siz then 1 else 2"]) (simp add: tx)
  next
    case s: False
    then have tx: "t = [x]" using True t vis_visible by simp
    then show ?thesis using assms(1,2) True s by (intro exI [of _ 1]) (simp add: patch_single)
  qed
next
  case False
  have l: "0 < length t" "length t \<le> 4" unfolding t by (rule vis_length)+
  then show ?thesis using assms(1,2) False
    by (intro exI [of _ "length t"]) (simp add: Let_def mem_copy_def t [symmetric])
qed

lemma strnvis_loop_result:
  assumes "siz \<le> length m" and "d < siz" and "0 < i \<or> d + 1 < siz"
  shows "\<exists>rest w i'. strnvis_loop flag siz src m d i = Ok (rest, patch m d w, d + length w, i') \<and> w @ strvis flag rest = strvis flag src \<and>
     d + length w < siz \<and> (rest = [] \<or> siz < d + length w + i' + 1 \<and> siz \<le> d + length (strvis flag src))"
  using assms
proof (induction src arbitrary: m d i)
  case Nil
  then show ?case by (auto intro: exI [of _ "[]"])
next
  case (Cons x xs)
  define t where "t = vis (signed_char x) flag (next_char xs)"
  have enc: "strvis flag (x # xs) = t @ strvis flag xs" by (simp add: t_def)
  show ?case
  proof (cases "d + 1 < siz")
    case False
    then have "strnvis_loop flag siz (x # xs) m d i = Ok (x # xs, patch m d [], d + length ([] :: string), i)" by simp
    moreover have "siz < d + length ([] :: string) + i + 1" using False Cons.prems(3) by auto
    moreover have "0 < length t" unfolding t_def by (rule vis_length)
    then have "siz \<le> d + length (strvis flag (x # xs))" unfolding enc length_append using False by linarith
    ultimately show ?thesis using Cons.prems(2) by (intro exI [of _ "x # xs"] exI [of _ "[]"] exI [of _ i] conjI) simp_all
  next
    case True
    obtain k where k: "0 < k" "strnvis_loop flag siz (x # xs) m d i =
       (if d + length t + 1 \<le> siz then strnvis_loop flag siz xs (patch m d t) (d + length t) k else Ok (x # xs, m, d, k))"
       "siz < d + length t + 1 \<longrightarrow> siz < d + k + 1"
      using strnvis_step [OF True Cons.prems(1) t_def] by blast
    show ?thesis
    proof (cases "d + length t + 1 \<le> siz")
      case fits: True
      then have "siz \<le> length (patch m d t)" "d + length t < siz" using Cons.prems(1) by simp_all
      from Cons.IH [OF this, of k] k(1) obtain rest w i' where r: "strnvis_loop flag siz xs (patch m d t) (d + length t) k =
          Ok (rest, patch (patch m d t) (d + length t) w, d + length t + length w, i')" "w @ strvis flag rest = strvis flag xs"
          "d + length t + length w < siz" "rest = [] \<or> siz < d + length t + length w + i' + 1 \<and> siz \<le> d + length t + length (strvis flag xs)" by blast
      have "patch (patch m d t) (d + length t) w = patch m d (t @ w)" using Cons.prems(1) fits by (simp add: patch_def add_ac)
      then have "strnvis_loop flag siz (x # xs) m d i = Ok (rest, patch m d (t @ w), d + length (t @ w), i')"
        using k(2) r(1) fits by (simp only: if_True length_append add.assoc)
      moreover have "(t @ w) @ strvis flag rest = strvis flag (x # xs)" using r(2) enc by simp
      moreover have "d + length (t @ w) < siz" "rest = [] \<or> siz < d + length (t @ w) + i' + 1 \<and> siz \<le> d + length (strvis flag (x # xs))"
        using r(3,4) enc by auto
      ultimately show ?thesis by blast
    next
      case False
      then have "strnvis_loop flag siz (x # xs) m d i = Ok (x # xs, patch m d [], d + length ([] :: string), k)" using k(2) by simp
      moreover have "siz < d + length ([] :: string) + k + 1" using False k(3) by simp
      moreover have "siz \<le> d + length (strvis flag (x # xs))" using False enc by simp
      ultimately show ?thesis using Cons.prems(2) by (intro exI [of _ "x # xs"] exI [of _ "[]"] exI [of _ k] conjI) simp_all
    qed
  qed
qed

text \<open>The result holds the beginning of the encoding, all of it if there is room, and the length of the whole is returned.\<close>

lemma strnvis_result:
  assumes "siz \<le> length m" and "1 < siz"
  shows "\<exists>w rest. strnvis m src siz flag = Ok (patch m 0 (w @ [NUL]), length (strvis flag src)) \<and> w @ strvis flag rest = strvis flag src \<and> length w < siz \<and>
     (length (strvis flag src) < siz \<longrightarrow> w = strvis flag src)"
proof -
  obtain rest w i where l: "strnvis_loop flag siz src m 0 0 = Ok (rest, patch m 0 w, length w, i)" "w @ strvis flag rest = strvis flag src" "length w < siz"
    "rest = [] \<or> siz < length w + i + 1 \<and> siz \<le> length (strvis flag src)"
    using strnvis_loop_result [of siz m 0 0 flag src] assms by auto
  have "(patch m 0 w)[length w := NUL] = patch m 0 (w @ [NUL])"
    using l(3) assms(1) by (simp add: patch_def list_update_append upd_conv_take_nth_drop)
  moreover have "length (strvis flag src) = length w + length (strvis flag rest)" using arg_cong [OF l(2), of length] by simp
  ultimately have "strnvis m src siz flag = Ok (patch m 0 (w @ [NUL]), length (strvis flag src))"
    using l(1,3,4) assms by (auto simp: strnvis_def)
  moreover have "length (strvis flag src) < siz \<longrightarrow> w = strvis flag src" using l(2,4) by auto
  ultimately show ?thesis using l(2,3) by blast
qed

section \<open>The title\<close>

text \<open>The flags of \<^verbatim>\<open>setproctitle\<close>: C escapes, line feeds and tabs encoded, octal for the rest.\<close>

definition title_flags :: int where
  "title_flags = VIS_CSTYLE OR VIS_NL OR VIS_TAB OR VIS_OCTAL"

definition printable_char :: "char \<Rightarrow> bool" where
  "printable_char x \<longleftrightarrow> 32 \<le> (of_char x :: nat) \<and> (of_char x :: nat) \<le> 126"

lemma title_visible: "isvisible c title_flags \<longleftrightarrow> 32 \<le> c \<and> c \<le> 126"
  by (auto simp: isvisible_def title_flags_def isgraph_def)

lemma title_vis:
  "vis c title_flags n =
     (if 32 \<le> c \<and> c \<le> 126 then (if c = 92 then [CHR 0x5C] else []) @ [to_char c]
      else if cstyle c n \<noteq> None then CHR 0x5C # the (cstyle c n) else CHR 0x5C # octal_digits c)"
proof -
  have "slashed c title_flags \<longleftrightarrow> c = 92" by (simp add: slashed_def title_flags_def)
  moreover have "title_flags AND VIS_CSTYLE \<noteq> 0" "title_flags AND VIS_OCTAL \<noteq> 0" by (simp_all add: title_flags_def)
  ultimately show ?thesis by (simp only: vis_def title_visible) simp
qed

lemma title_vis_printable: "\<forall>x \<in> set (vis c title_flags n). printable_char x"
proof -
  have d: "printable_char (to_char (k + 48))" if "0 \<le> k" "k < 8" for k
    using that by (simp add: printable_char_def to_char_def nat_add_distrib)
  have o: "\<forall>x \<in> set (octal_digits c). printable_char x" by (simp add: octal_digits_def d)
  have s: "\<forall>x \<in> set (the (cstyle c n)). printable_char x" if "cstyle c n \<noteq> None"
    using that by (auto simp: cstyle_def printable_char_def split: if_splits)
  have "printable_char (to_char c)" if "32 \<le> c" "c \<le> 126" using that by (simp add: printable_char_def to_char_def) linarith
  moreover have "printable_char (CHR 0x5C)" by (simp add: printable_char_def)
  ultimately show ?thesis using o s by (auto simp: title_vis)
qed

lemma strvis_printable: "\<forall>x \<in> set (strvis title_flags src). printable_char x"
  by (induction src) (use title_vis_printable in auto)

text \<open>
  \<^verbatim>\<open>setproctitle\<close>: \<open>area\<close> is the memory at \<^verbatim>\<open>argv_start\<close>, \<open>len\<close> is \<^verbatim>\<open>argv_env_len\<close>, \<open>text\<close> the rendered format (\<open>None\<close> without a format or when \<^verbatim>\<open>vsnprintf\<close> fails), \<open>buf\<close> and \<open>ptitle\<close> the
  uninitialised arrays.
\<close>

fun pad_loop :: "nat \<Rightarrow> nat \<Rightarrow> char list \<Rightarrow> char list outcome" where
  "pad_loop 0 i m = Ok m"
| "pad_loop (Suc n) i m = obind (mem_wr m i NUL) (pad_loop n (i + 1))"

definition setproctitle :: "char list \<Rightarrow> char list \<Rightarrow> string \<Rightarrow> string option \<Rightarrow> nat \<Rightarrow> char list \<Rightarrow> char list outcome" where
  "setproctitle buf ptitle progname text len area =
     (if len = 0 then Ok area
      else obind (strlcpy buf (progname @ [NUL]) 1024) (\<lambda>(buf1, _).
        case text of
          None \<Rightarrow> Ok area
        | Some t \<Rightarrow>
            obind (strlcat buf1 ('': '' @ [NUL]) 1024) (\<lambda>(buf2, n).
              if n < 1024 \<and> length t < 1024 - n then
                obind (mem_copy buf2 n (t @ [NUL])) (\<lambda>buf3.
                obind (strnvis ptitle (cstr buf3) 1024 title_flags) (\<lambda>(ptitle1, _).
                obind (strlcpy area ptitle1 len) (\<lambda>(area1, k). pad_loop (len - k) k area1)))
              else Ok area)))"

lemma pad_loop_result: "i + n \<le> length m \<Longrightarrow> pad_loop n i m = Ok (patch m i (replicate n NUL))"
proof (induction n arbitrary: i m)
  case (Suc n)
  have "pad_loop (Suc n) i m = Ok (patch (m[i := NUL]) (Suc i) (replicate n NUL))" using Suc by simp
  then show ?case using Suc.prems by (simp add: patch_update_Suc)
qed simp

lemma printable_not_NUL: "\<not> printable_char NUL"
  by (simp add: printable_char_def)

text \<open>The text that is put together in \<^verbatim>\<open>buf\<close>.\<close>

lemma title_text:
  assumes "length buf = 1024" and "NUL \<notin> set progname" and "NUL \<notin> set t"
  shows "\<exists>buf1 buf2 n. strlcpy buf (progname @ [NUL]) 1024 = Ok (buf1, length progname) \<and> strlcat buf1 ('': '' @ [NUL]) 1024 = Ok (buf2, n) \<and>
     (n < 1024 \<and> length t < 1024 - n \<longrightarrow> (\<exists>buf3. mem_copy buf2 n (t @ [NUL]) = Ok buf3 \<and> cstr buf3 = progname @ '': '' @ t))"
proof -
  define p where "p = take 1023 progname"
  have np: "NUL \<notin> set p" using assms(2) by (auto simp: p_def dest: in_set_takeD)
  have b1: "strlcpy buf (progname @ [NUL]) 1024 = Ok (patch buf 0 (p @ [NUL]), length progname)"
    using strlcpy_spec [of "progname @ [NUL]" 1024 buf] assms(1,2) by (simp add: terminated_def p_def)
  define buf1 where "buf1 = patch buf 0 (p @ [NUL])"
  have c1: "cstr buf1 = p" "length buf1 = 1024"
    using cstr_patch_NUL [OF np, of 0 buf] assms(1) by (simp_all add: buf1_def p_def)
  define n where "n = length p + 2"
  define q where "q = take (1023 - length p) '': ''"
  have cat: "strlcat buf1 ('': '' @ [NUL]) 1024 = Ok (patch buf1 (length p) (q @ [NUL]), n)"
  proof -
    have "cstr ('': '' @ [NUL]) = '': ''" "terminated ('': '' @ [NUL])" by (simp_all add: cstr_def terminated_def)
    moreover have "length p < 1024" by (simp add: p_def)
    ultimately show ?thesis using strlcat_spec [of "'': '' @ [NUL]" 1024 buf1] c1 by (simp add: n_def q_def)
  qed
  define buf2 where "buf2 = patch buf1 (length p) (q @ [NUL])"
  have "mem_copy buf2 n (t @ [NUL]) = Ok (patch buf2 n (t @ [NUL])) \<and> cstr (patch buf2 n (t @ [NUL])) = progname @ '': '' @ t"
    if "n < 1024 \<and> length t < 1024 - n"
  proof -
    have pq: "p = progname" "q = '': ''" using that by (auto simp: p_def n_def q_def)
    have room: "n + length t < 1024" using that by linarith
    have nq: "NUL \<notin> set ('': '' :: string)" by simp
    have c2: "cstr buf2 = progname @ '': ''" "length buf2 = 1024"
      using cstr_patch_NUL [OF nq, of "length p" buf1] c1 that by (simp_all add: buf2_def pq n_def)
    show ?thesis using room c2 cstr_patch_NUL [OF assms(3), of n buf2] by (simp add: mem_copy_def n_def pq)
  qed
  then show ?thesis using b1 cat unfolding buf1_def buf2_def by blast
qed

text \<open>What is then written to the title area.\<close>

lemma title_write:
  assumes "length ptitle = 1024" and "len \<le> length area" and "0 < len"
  shows "\<exists>v rest. obind (strnvis ptitle str 1024 title_flags) (\<lambda>(ptitle1, _). obind (strlcpy area ptitle1 len) (\<lambda>(area1, k). pad_loop (len - k) k area1)) =
       Ok (v @ replicate (len - length v) NUL @ drop len area) \<and> length v < len \<and> v @ rest = strvis title_flags str"
proof -
  obtain w rest where w: "strnvis ptitle str 1024 title_flags = Ok (patch ptitle 0 (w @ [NUL]), length (strvis title_flags str))"
    "w @ strvis title_flags rest = strvis title_flags str" "length w < 1024"
    using strnvis_result [of 1024 ptitle str title_flags] assms(1) by auto
  have nw: "NUL \<notin> set w" using strvis_printable [of str] unfolding w(2) [symmetric] using printable_not_NUL by auto
  have pt: "terminated (patch ptitle 0 (w @ [NUL]))" "cstr (patch ptitle 0 (w @ [NUL])) = w"
    using cstr_patch_NUL [OF nw, of 0 ptitle] w(3) assms(1) by (simp_all add: patch_def terminated_def)
  define v where "v = take (len - 1) w"
  have cp: "strlcpy area (patch ptitle 0 (w @ [NUL])) len = Ok (patch area 0 (v @ [NUL]), length w)"
    using strlcpy_spec [OF pt(1) assms(2,3)] pt(2) by (simp add: v_def)
  have lv: "length v < len" using assms(3) by (auto simp: v_def min_def)
  have pad: "pad_loop (len - length w) (length w) (patch area 0 (v @ [NUL])) = Ok (v @ replicate (len - length v) NUL @ drop len area)"
  proof (cases "length w < len")
    case True
    then have "v = w" by (simp add: v_def)
    moreover obtain k where "len = Suc (length w + k)" using True less_iff_Suc_add by auto
    ultimately show ?thesis using assms(2) pad_loop_result [of "length w" "len - length w" "patch area 0 (v @ [NUL])"]
      by (simp add: patch_def add.commute)
  next
    case False
    then have "length v = len - 1" by (simp add: v_def)
    then show ?thesis using False assms(2,3) by (cases len) (simp_all add: patch_def)
  qed
  have "v @ (drop (len - 1) w @ strvis title_flags rest) = strvis title_flags str" using w(2) by (metis v_def append_assoc append_take_drop_id)
  moreover have "obind (strnvis ptitle str 1024 title_flags) (\<lambda>(ptitle1, _). obind (strlcpy area ptitle1 len) (\<lambda>(area1, k). pad_loop (len - k) k area1)) =
      Ok (v @ replicate (len - length v) NUL @ drop len area)" using w(1) cp pad by simp
  ultimately show ?thesis using lv by blast
qed

text \<open>What the title area holds then: the beginning of the encoded title, null bytes up to its length, and what was behind it.\<close>

lemma setproctitle_result:
  assumes "length buf = 1024" and "length ptitle = 1024" and "len \<le> length area" and "NUL \<notin> set progname" and "NUL \<notin> set t"
  shows "setproctitle buf ptitle progname (Some t) len area = Ok area \<or>
     (\<exists>w rest. setproctitle buf ptitle progname (Some t) len area = Ok (w @ replicate (len - length w) NUL @ drop len area) \<and>
        length w < len \<and> w @ rest = strvis title_flags (progname @ '': '' @ t))"
proof (cases "len = 0")
  case False
  obtain buf1 buf2 n where b: "strlcpy buf (progname @ [NUL]) 1024 = Ok (buf1, length progname)" "strlcat buf1 ('': '' @ [NUL]) 1024 = Ok (buf2, n)"
    "n < 1024 \<and> length t < 1024 - n \<longrightarrow> (\<exists>buf3. mem_copy buf2 n (t @ [NUL]) = Ok buf3 \<and> cstr buf3 = progname @ '': '' @ t)"
    using title_text [OF assms(1,4,5)] by blast
  note step = setproctitle_def b(1,2) option.case obind.simps prod.case if_not_P [OF False]
  show ?thesis
  proof (cases "n < 1024 \<and> length t < 1024 - n")
    case True
    then obtain buf3 where c: "mem_copy buf2 n (t @ [NUL]) = Ok buf3" "cstr buf3 = progname @ '': '' @ t" using b(3) by blast
    show ?thesis unfolding step if_P [OF True] c using title_write [OF assms(2,3)] False by blast
  next
    case no: False
    show ?thesis unfolding step if_not_P [OF no] by (rule disjI1) (rule refl)
  qed
qed (simp add: setproctitle_def)

section \<open>compat_init_setproctitle\<close>

text \<open>
  The memory the kernel laid the arguments and the environment out in is \<open>mem\<close>, a pointer into it an
  offset; \<open>argv\<close> holds the \<^verbatim>\<open>argc\<close> argument pointers, \<open>envp\<close> the environment up to its null pointer.
  \<open>dup i\<close> says whether the \<open>i\<close>-th \<^verbatim>\<open>strdup\<close> succeeds.
\<close>

record title_state =
  argv_start :: "nat option"
  argv_env_len :: u64
  environ :: "string option list"

definition string_at :: "char list \<Rightarrow> nat \<Rightarrow> string" where
  "string_at m a = cstr (drop a m)"

fun string_end :: "char list \<Rightarrow> nat option \<Rightarrow> nat outcome" where
  "string_end m None = Fault NullDeref"
| "string_end m (Some a) = (if terminated (drop a m) then Ok (a + length (string_at m a)) else Fault OutOfBounds)"

fun args_loop :: "char list \<Rightarrow> nat option list \<Rightarrow> nat option \<Rightarrow> nat option outcome" where
  "args_loop m [] lastargv = Ok lastargv"
| "args_loop m (a # args) lastargv =
     (if lastargv = None \<or> map_option Suc lastargv = a
      then obind (string_end m a) (\<lambda>e. args_loop m args (Some e)) else args_loop m args lastargv)"

fun env_loop :: "char list \<Rightarrow> nat list \<Rightarrow> nat option \<Rightarrow> nat option outcome" where
  "env_loop m [] lastargv = Ok lastargv"
| "env_loop m (a # envp) lastargv =
     (if map_option Suc lastargv = Some a
      then obind (string_end m (Some a)) (\<lambda>e. env_loop m envp (Some e)) else env_loop m envp lastargv)"

definition compat_init_setproctitle ::
  "char list \<Rightarrow> nat option list \<Rightarrow> nat list \<Rightarrow> bool \<Rightarrow> (nat \<Rightarrow> bool) \<Rightarrow> title_state \<Rightarrow> (nat option list \<times> title_state) outcome" where
  "compat_init_setproctitle m argv envp calloc_ok dup st =
     (if argv = [] then Ok (argv, st)
      else case hd argv of
        None \<Rightarrow> Ok (argv, st)
      | Some a \<Rightarrow>
          if \<not> calloc_ok then Ok (argv, st)
          else obind (args_loop m argv None) (\<lambda>last1.
               obind (env_loop m envp last1) (\<lambda>last2.
               case last2 of
                 None \<Rightarrow> Fault NullDeref
               | Some e \<Rightarrow>
                   Ok (argv[1 := None],
                       st\<lparr>argv_start := Some a, argv_env_len := word_of_int (int e - int a - 1),
                          environ := map (\<lambda>i. if dup i then Some (string_at m (envp ! i)) else None) [0..<length envp]\<rparr>))))"

text \<open>The bytes of a string, its terminator included, and a run of such strings from \<open>a\<close> up to the terminator at \<open>e\<close>.\<close>

definition in_string :: "char list \<Rightarrow> nat \<Rightarrow> nat \<Rightarrow> bool" where
  "in_string m s x \<longleftrightarrow> s \<le> x \<and> x \<le> s + length (string_at m s)"

definition owned :: "char list \<Rightarrow> nat set \<Rightarrow> nat \<Rightarrow> nat \<Rightarrow> bool" where
  "owned m S a e \<longleftrightarrow> a \<le> e \<and> e < length m \<and> (\<forall>x. a \<le> x \<and> x \<le> e \<longrightarrow> (\<exists>s\<in>S. in_string m s x))"

lemma string_at_end: "terminated (drop a m) \<Longrightarrow> a + length (string_at m a) < length m"
  using cstr_length [of "drop a m"] by (simp add: string_at_def)

lemma owned_one: "terminated (drop a m) \<Longrightarrow> a \<in> S \<Longrightarrow> owned m S a (a + length (string_at m a))"
  using string_at_end by (auto simp: owned_def in_string_def)

lemma owned_append:
  assumes "owned m S a e" and "terminated (drop (Suc e) m)" and "Suc e \<in> S"
  shows "owned m S a (Suc e + length (string_at m (Suc e)))"
  unfolding owned_def
proof (intro conjI allI impI)
  show "a \<le> Suc e + length (string_at m (Suc e))" using assms(1) by (simp add: owned_def)
  show "Suc e + length (string_at m (Suc e)) < length m" by (rule string_at_end [OF assms(2)])
  fix x
  assume x: "a \<le> x \<and> x \<le> Suc e + length (string_at m (Suc e))"
  show "\<exists>s\<in>S. in_string m s x"
  proof (cases "x \<le> e")
    case True
    then show ?thesis using assms(1) x by (simp add: owned_def)
  next
    case False
    then have "in_string m (Suc e) x" using x by (simp add: in_string_def)
    then show ?thesis using assms(3) by blast
  qed
qed

lemma args_loop_owned:
  assumes "owned m S a e" and "\<forall>p\<in>set args. \<exists>x\<in>S. p = Some x \<and> terminated (drop x m)"
  shows "\<exists>e'. args_loop m args (Some e) = Ok (Some e') \<and> owned m S a e' \<and> e \<le> e'"
  using assms
proof (induction args arbitrary: e)
  case (Cons p args)
  obtain x where x: "x \<in> S" "p = Some x" "terminated (drop x m)" using Cons.prems(2) by auto
  show ?case
  proof (cases "Suc e = x")
    case True
    have "owned m S a (x + length (string_at m x))" using owned_append [OF Cons.prems(1)] x True by simp
    from Cons.IH [OF this] Cons.prems(2) obtain e' where
      "args_loop m args (Some (x + length (string_at m x))) = Ok (Some e')" "owned m S a e'" "x + length (string_at m x) \<le> e'" by auto
    then show ?thesis using x True by simp
  next
    case False
    then show ?thesis using Cons.IH [OF Cons.prems(1)] Cons.prems(2) x by simp
  qed
qed simp

lemma env_loop_owned:
  assumes "owned m S a e" and "\<forall>x\<in>set envp. x \<in> S \<and> terminated (drop x m)"
  shows "\<exists>e'. env_loop m envp (Some e) = Ok (Some e') \<and> owned m S a e' \<and> e \<le> e'"
  using assms
proof (induction envp arbitrary: e)
  case (Cons x envp)
  show ?case
  proof (cases "Suc e = x")
    case True
    have "owned m S a (x + length (string_at m x))" using owned_append [OF Cons.prems(1)] Cons.prems(2) True by simp
    from Cons.IH [OF this] Cons.prems(2) obtain e' where
      "env_loop m envp (Some (x + length (string_at m x))) = Ok (Some e')" "owned m S a e'" "x + length (string_at m x) \<le> e'" by auto
    then show ?thesis using Cons.prems(2) True by simp
  next
    case False
    then show ?thesis using Cons.IH [OF Cons.prems(1)] Cons.prems(2) by simp
  qed
qed simp

lemma title_area_shape:
  assumes "area = (w @ replicate (len - length w) NUL) @ drop len (drop a m)" and "length w < len"
    and "w @ rest = strvis title_flags str" and "len \<le> length (drop a m)"
  shows "length area = length m - a \<and> (\<forall>i<length area. area ! i \<noteq> m ! (a + i) \<longrightarrow> i < len) \<and>
     (area = drop a m \<or> list_all printable_char (cstr area) \<and> (\<exists>rest. cstr area @ rest = strvis title_flags str))"
proof -
  have pw: "\<forall>c\<in>set w. printable_char c" using strvis_printable [of str] unfolding assms(3) [symmetric] by auto
  then have nw: "NUL \<notin> set w" using printable_not_NUL by auto
  obtain k where k: "len = Suc (length w + k)" using assms(2) less_iff_Suc_add by auto
  have "area = w @ NUL # (replicate k NUL @ drop len (drop a m))" using assms(1) k by simp
  then have c: "cstr area = w" using nw by simp
  have l: "length area = length m - a" using assms(1,2,4) by simp
  have "i < len" if "i < length area" "area ! i \<noteq> m ! (a + i)" for i
  proof (rule ccontr)
    assume "\<not> i < len"
    then have "area ! i = drop len (drop a m) ! (i - len)" using assms(1,2) by (simp add: nth_append)
    also have "\<dots> = m ! (a + i)" using that(1) l \<open>\<not> i < len\<close> by (simp add: add.commute)
    finally show False using that(2) by simp
  qed
  then show ?thesis using l c pw assms(3) by (auto simp: list_all_iff)
qed

lemma compat_init_owned:
  assumes "argv \<noteq> []" and "\<forall>p\<in>set argv. \<exists>x. p = Some x \<and> terminated (drop x m)" and "\<forall>x\<in>set envp. terminated (drop x m)"
    and "string_at m (the (hd argv)) \<noteq> []" and "length m < 2 ^ 64"
  shows "\<exists>a e. compat_init_setproctitle m argv envp True dup st =
       Ok (argv[1 := None], st\<lparr>argv_start := Some a, argv_env_len := of_nat (e - a - 1),
                                   environ := map (\<lambda>i. if dup i then Some (string_at m (envp ! i)) else None) [0..<length envp]\<rparr>) \<and>
     owned m (the ` set argv \<union> set envp) a e \<and> a < e"
proof -
  obtain p args where ar: "argv = p # args" using assms(1) by (cases argv) auto
  then obtain a where a: "p = Some a" "terminated (drop a m)" using assms(2) by auto
  let ?S = "the ` set argv \<union> set envp"
  have one: "owned m ?S a (a + length (string_at m a))" using owned_one [OF a(2), of ?S] ar a(1) by simp
  have "\<forall>p\<in>set args. \<exists>x\<in>?S. p = Some x \<and> terminated (drop x m)"
  proof
    fix q assume q: "q \<in> set args"
    then obtain x where x: "q = Some x" "terminated (drop x m)" using assms(2) ar by auto
    then have "x \<in> ?S" using q ar by force
    then show "\<exists>x\<in>?S. q = Some x \<and> terminated (drop x m)" using x by blast
  qed
  from args_loop_owned [OF one this] obtain e1 where e1: "args_loop m args (Some (a + length (string_at m a))) = Ok (Some e1)" "owned m ?S a e1" "a + length (string_at m a) \<le> e1"
    by blast
  have "\<forall>x\<in>set envp. x \<in> ?S \<and> terminated (drop x m)" using assms(3) by blast
  from env_loop_owned [OF e1(2) this] obtain e where e: "env_loop m envp (Some e1) = Ok (Some e)" "owned m ?S a e" "e1 \<le> e" by blast
  have lt: "a < e" using assms(4) e1(3) e(3) ar a(1) by (cases "string_at m a") simp_all
  have "int e - int a - 1 = int (e - a - 1)" using lt by simp
  then have w: "(word_of_int (int e - int a - 1) :: u64) = of_nat (e - a - 1)" by (simp only: of_int_of_nat_eq)
  have "args_loop m argv None = Ok (Some e1)" using ar a e1(1) by simp
  then have "compat_init_setproctitle m argv envp True dup st =
       Ok (argv[1 := None], st\<lparr>argv_start := Some a, argv_env_len := of_nat (e - a - 1),
                                   environ := map (\<lambda>i. if dup i then Some (string_at m (envp ! i)) else None) [0..<length envp]\<rparr>)"
    using ar a(1) e(1) w by (simp add: compat_init_setproctitle_def)
  then show ?thesis using e(2) lt by blast
qed

text \<open>
  C27: On any layout of terminated argument and environment strings, with a program name that is not empty, preparing the process title reads no byte outside those
  strings, and every title set afterwards overwrites only bytes of the argument and environment strings: the rest of the memory is unchanged, the new title is printable text
  and a prefix of the encoded one, and the environment is the one the process was started with, in its own copies.
\<close>

theorem process_title_safe:
  assumes "argv \<noteq> []" and "\<forall>p\<in>set argv. \<exists>x. p = Some x \<and> terminated (drop x m)" and "\<forall>x\<in>set envp. terminated (drop x m)"
    and "string_at m (the (hd argv)) \<noteq> []" and "length m < 2 ^ 64"
    and "length buf = 1024" and "length ptitle = 1024" and "NUL \<notin> set progname" and "NUL \<notin> set t"
  shows "\<exists>argv' st' a area. compat_init_setproctitle m argv envp True (\<lambda>_. True) st = Ok (argv', st') \<and> argv_start st' = Some a \<and>
     environ st' = map (Some \<circ> string_at m) envp \<and>
     setproctitle buf ptitle progname (Some t) (unat (argv_env_len st')) (drop a m) = Ok area \<and>
     length area = length m - a \<and>
     (\<forall>i<length area. area ! i \<noteq> m ! (a + i) \<longrightarrow> (\<exists>s\<in>the ` set argv \<union> set envp. in_string m s (a + i))) \<and>
     (area = drop a m \<or> list_all printable_char (cstr area) \<and> (\<exists>rest. cstr area @ rest = strvis title_flags (progname @ '': '' @ t)))"
proof -
  let ?S = "the ` set argv \<union> set envp"
  obtain a e where i: "compat_init_setproctitle m argv envp True (\<lambda>_. True) st =
       Ok (argv[1 := None], st\<lparr>argv_start := Some a, argv_env_len := of_nat (e - a - 1),
                                   environ := map (\<lambda>i. if True then Some (string_at m (envp ! i)) else None) [0..<length envp]\<rparr>)"
    and o: "owned m ?S a e" and lt: "a < e"
    using compat_init_owned [OF assms(1-5), where dup = "\<lambda>_. True" and st = st] by blast
  have el: "e < length m" using o by (simp add: owned_def)
  define len where "len = e - a - 1"
  have ul: "unat (of_nat len :: u64) = len" using el assms(5) by (simp add: len_def unat_of_nat)
  have ll: "len \<le> length (drop a m)" using el by (simp add: len_def)
  have env: "map (\<lambda>i. if True then Some (string_at m (envp ! i)) else None) [0..<length envp] = map (Some \<circ> string_at m) envp"
    by (rule nth_equalityI) simp_all
  have own: "\<exists>s\<in>?S. in_string m s (a + i)" if "i < len" for i
    using o that unfolding owned_def len_def by simp
  obtain area where area: "setproctitle buf ptitle progname (Some t) len (drop a m) = Ok area"
    "area = drop a m \<or> (\<exists>w rest. area = w @ replicate (len - length w) NUL @ drop len (drop a m) \<and> length w < len \<and> w @ rest = strvis title_flags (progname @ '': '' @ t))"
    using setproctitle_result [OF assms(6,7) ll assms(8,9)] by blast
  have shape: "length area = length m - a \<and> (\<forall>i<length area. area ! i \<noteq> m ! (a + i) \<longrightarrow> i < len) \<and>
     (area = drop a m \<or> list_all printable_char (cstr area) \<and> (\<exists>rest. cstr area @ rest = strvis title_flags (progname @ '': '' @ t)))"
    using area(2)
  proof
    assume "area = drop a m"
    then show ?thesis by simp
  next
    assume "\<exists>w rest. area = w @ replicate (len - length w) NUL @ drop len (drop a m) \<and> length w < len \<and> w @ rest = strvis title_flags (progname @ '': '' @ t)"
    then obtain w rest where w: "area = (w @ replicate (len - length w) NUL) @ drop len (drop a m)" "length w < len" "w @ rest = strvis title_flags (progname @ '': '' @ t)" by auto
    show ?thesis by (rule title_area_shape [OF w ll])
  qed
  obtain st' where st': "compat_init_setproctitle m argv envp True (\<lambda>_. True) st = Ok (argv[1 := None], st')"
    "argv_start st' = Some a" "argv_env_len st' = of_nat len" "environ st' = map (Some \<circ> string_at m) envp"
  proof (rule that)
    show "compat_init_setproctitle m argv envp True (\<lambda>_. True) st = Ok (argv[1 := None],
        st\<lparr>argv_start := Some a, argv_env_len := of_nat len, environ := map (Some \<circ> string_at m) envp\<rparr>)"
      using i unfolding env len_def .
  qed simp_all
  show ?thesis
  proof (intro exI conjI)
    show "setproctitle buf ptitle progname (Some t) (unat (argv_env_len st')) (drop a m) = Ok area" using area(1) st'(3) ul by simp
    show "\<forall>i<length area. area ! i \<noteq> m ! (a + i) \<longrightarrow> (\<exists>s\<in>?S. in_string m s (a + i))" using shape own by blast
  qed (use st' shape in simp_all)
qed

definition ex_memory :: "char list" where
  "ex_memory = ''mlvpn'' @ NUL # ''-d'' @ NUL # ''A=b'' @ [NUL]"

theorem process_title_safe_witness:
  "\<exists>argv' st' a area. compat_init_setproctitle ex_memory [Some 0, Some 6] [9] True (\<lambda>_. True) \<lparr>argv_start = None, argv_env_len = 0, environ = []\<rparr> = Ok (argv', st') \<and> argv_start st' = Some a \<and>
     environ st' = map (Some \<circ> string_at ex_memory) [9] \<and>
     setproctitle (replicate 1024 NUL) (replicate 1024 NUL) ''mlvpn'' (Some ''[priv]'') (unat (argv_env_len st')) (drop a ex_memory) = Ok area \<and>
     length area = length ex_memory - a \<and>
     (\<forall>i<length area. area ! i \<noteq> ex_memory ! (a + i) \<longrightarrow> (\<exists>s\<in>the ` set [Some 0, Some 6] \<union> set [9]. in_string ex_memory s (a + i))) \<and>
     (area = drop a ex_memory \<or> list_all printable_char (cstr area) \<and> (\<exists>rest. cstr area @ rest = strvis title_flags (''mlvpn'' @ '': '' @ ''[priv]'')))"
proof (rule process_title_safe)
  show "\<forall>p\<in>set [Some 0, Some 6]. \<exists>x. p = Some x \<and> terminated (drop x ex_memory)" by (simp add: ex_memory_def terminated_def)
  show "\<forall>x\<in>set [9]. terminated (drop x ex_memory)" by (simp add: ex_memory_def terminated_def)
  show "string_at ex_memory (the (hd [Some 0, Some 6])) \<noteq> []" by (simp add: ex_memory_def string_at_def cstr_def)
qed (simp_all add: ex_memory_def)

text \<open>An empty program name leaves the length below zero, as a huge unsigned number: the next title is then written past the strings.\<close>

lemma empty_program_name_overflows:
  "compat_init_setproctitle [NUL] [Some 0] [] True dup st =
     Ok ([Some 0], st\<lparr>argv_start := Some 0, argv_env_len := - 1, environ := []\<rparr>)"
  by (simp add: compat_init_setproctitle_def string_at_def cstr_def terminated_def)

end
