(* ===== verification/Platforms.thy ===== *)
theory Platforms
  imports Rtun Privsep Configlib Cstring
begin

text \<open>
  The parts that depend on the platform: the tunnel device on Linux, the BSDs and Darwin (\<^verbatim>\<open>src/tuntap_linux.c\<close>, \<^verbatim>\<open>src/tuntap_bsd.c\<close>,
  \<^verbatim>\<open>src/tuntap_darwin.c\<close>; the Linux reader and writer are in Rtun and Privsep), the notification of the service manager
  (\<^verbatim>\<open>src/systemd.c\<close>) and \<^verbatim>\<open>closefrom\<close> (\<^verbatim>\<open>src/closefrom.c\<close>), which keeps the descriptors of the daemon from the network script. The lemmas compare
  the platforms with Linux, and say which descriptors the script inherits.
\<close>

section \<open>Reading and writing the device\<close>

text \<open>
  The BSD reader scatters what the device delivers over the four bytes of \<^verbatim>\<open>type\<close> and the array \<^verbatim>\<open>data\<close>, of which \<open>stack\<close> is the content before; the length it
  goes on with is that of both.
\<close>

definition bsd_tuntap_read :: "env \<Rightarrow> bytes \<Rightarrow> read_result \<Rightarrow> daemon \<Rightarrow> daemon outcome" where
  "bsd_tuntap_read E stack r s =
     (case r of
        ReadError \<Rightarrow> if en_again E then Ok s else Fatal ''unrecoverable read error''
      | ReadEof \<Rightarrow> Fatal ''tuntap device closed''
      | ReadData bs \<Rightarrow>
          let data = patch stack 0 (drop 4 bs); ret = min (length bs) (d_maxmtu s) in
          if length data < ret then Fault OutOfBounds else mlvpn_tuntap_generic_read E (take ret data) s)"

text \<open>The writer puts the address family, \<^verbatim>\<open>AF_INET\<close> in network order, in front; \<open>ret\<close> is the answer of \<^verbatim>\<open>writev\<close>.\<close>

definition bsd_tuntap_write :: "int \<Rightarrow> daemon \<Rightarrow> (int \<times> daemon) outcome" where
  "bsd_tuntap_write ret s =
     (if mlvpn_cb_is_empty (d_tun_sbuf s) then Fatal ''tuntap_write called with empty buffer''
      else let (pkt, buf) = pktbuffer_take (d_tun_sbuf s)
           in Ok (if ret < 0 then 0 else ret - 4, emit (TunWrite ([0, 0, 0, 2] @ pkt_payload pkt)) (s\<lparr>d_tun_sbuf := buf\<rparr>)))"

definition darwin_tuntap_read :: "env \<Rightarrow> read_result \<Rightarrow> daemon \<Rightarrow> daemon outcome" where
  "darwin_tuntap_read E r s =
     (case r of
        ReadError \<Rightarrow> if en_again E then Ok s else Fatal ''unrecoverable read error''
      | ReadEof \<Rightarrow> Fatal ''tuntap device closed''
      | ReadData data \<Rightarrow> mlvpn_tuntap_generic_read E (take (min (length data) (d_maxmtu s)) data) s)"

definition darwin_tuntap_write :: "int \<Rightarrow> daemon \<Rightarrow> (int \<times> daemon) outcome" where
  "darwin_tuntap_write ret s =
     (if mlvpn_cb_is_empty (d_tun_sbuf s) then Fatal ''tuntap_write called with empty buffer''
      else let (pkt, buf) = pktbuffer_take (d_tun_sbuf s)
           in Ok (ret, emit (TunWrite (pkt_payload pkt)) (s\<lparr>d_tun_sbuf := buf\<rparr>)))"

section \<open>Opening the device\<close>

text \<open>
  One call of \<^verbatim>\<open>priv_open_tun\<close>: the request that is written, the descriptor and the name the parent answers with. \<open>r\<close> is that answer.
\<close>

definition open_tun_call :: "(int \<Rightarrow> int) \<Rightarrow> int \<Rightarrow> int \<Rightarrow> string \<Rightarrow> priv_out \<times> priv \<Rightarrow> (bytes \<times> int \<times> string) outcome" where
  "open_tun_call newfd mode mtu name r =
     obind (priv_open_tun_reply newfd True (fst r) (snd r)) (\<lambda>(fd, n).
       Ok (priv_open_tun mode (Some name) mtu, fd, case n of None \<Rightarrow> name | Some n' \<Rightarrow> n'))"

definition linux_tuntap_alloc :: "(int \<Rightarrow> int) \<Rightarrow> int \<Rightarrow> int \<Rightarrow> string \<Rightarrow> priv_out \<times> priv \<Rightarrow> (int \<times> string) outcome" where
  "linux_tuntap_alloc newfd mode mtu devname r =
     obind (open_tun_call newfd mode mtu devname r) (\<lambda>(_, fd, name).
       if fd \<le> 0 then Fatal ''failed to open /dev/net/tun read/write'' else Ok (fd, name))"

definition tun_prefix :: "int \<Rightarrow> string" where
  "tun_prefix mode = (if mode = MLVPN_TUNTAPMODE_TAP then ''tap'' else ''tun'')"

text \<open>
  The \<open>i\<close>-th name, in \<^verbatim>\<open>devname\<close>, with the size the platform gives \<^verbatim>\<open>snprintf\<close>; the path in \<^verbatim>\<open>tuntap->devname\<close>.
\<close>

definition probe_name :: "nat \<Rightarrow> int \<Rightarrow> nat \<Rightarrow> string" where
  "probe_name siz mode i = fit siz (tun_prefix mode @ show_nat i)"

definition probe_path :: "nat \<Rightarrow> int \<Rightarrow> nat \<Rightarrow> string" where
  "probe_path siz mode i = fit MLVPN_IFNAMSIZ (''/dev/'' @ probe_name siz mode i)"

text \<open>
  The loop over 32 devices, \<open>n\<close> of them left: the last descriptor, the last name and path, and the requests that were written. \<open>rs i\<close> is the answer to the \<open>i\<close>-th request.
\<close>

fun probe_loop :: "(int \<Rightarrow> int) \<Rightarrow> nat \<Rightarrow> int \<Rightarrow> int \<Rightarrow> (nat \<Rightarrow> priv_out \<times> priv) \<Rightarrow> nat \<Rightarrow> nat \<Rightarrow> int \<times> string \<times> string \<times> bytes list \<Rightarrow> (int \<times> string \<times> string \<times> bytes list) outcome" where
  "probe_loop newfd siz mode mtu rs 0 i acc = Ok acc"
| "probe_loop newfd siz mode mtu rs (Suc n) i (fd0, d0, t0, reqs) =
     obind (open_tun_call newfd mode mtu (probe_path siz mode i) (rs i)) (\<lambda>(req, fd, name).
       let acc = (fd, probe_name siz mode i, name, reqs @ [req]) in
       if 0 < fd then Ok acc else probe_loop newfd siz mode mtu rs n (i + 1) acc)"

definition bsd_tuntap_alloc :: "(int \<Rightarrow> int) \<Rightarrow> int \<Rightarrow> int \<Rightarrow> string \<Rightarrow> (nat \<Rightarrow> priv_out \<times> priv) \<Rightarrow> (int \<times> string \<times> bytes list) outcome" where
  "bsd_tuntap_alloc newfd mode mtu devname rs =
     (if devname = ''tun'' then
        obind (probe_loop newfd 16 mode mtu rs 32 0 (0, [], devname, [])) (\<lambda>(fd, d, t, reqs).
          Ok (fd, if fd \<le> 0 then t else fit MLVPN_IFNAMSIZ d, reqs))
      else obind (open_tun_call newfd mode mtu (fit 16 (''/dev/'' @ devname)) (rs 0)) (\<lambda>(req, fd, _). Ok (fd, devname, [req])))"

definition darwin_tuntap_alloc :: "(int \<Rightarrow> int) \<Rightarrow> int \<Rightarrow> int \<Rightarrow> string \<Rightarrow> (nat \<Rightarrow> priv_out \<times> priv) \<Rightarrow> (int \<times> string \<times> bytes list) outcome" where
  "darwin_tuntap_alloc newfd mode mtu devname rs =
     obind (probe_loop newfd 5 mode mtu rs 32 0 (0, [], devname, [])) (\<lambda>(fd, d, t, reqs).
       Ok (fd, if fd \<le> 0 then t else fit MLVPN_IFNAMSIZ d, reqs))"

text \<open>
  The parent's side: \<open>opened\<close> is the answer of \<^verbatim>\<open>open\<close>, \<open>ioctls\<close> the answers to the requests that configure the interface, one on OpenBSD and two elsewhere.
\<close>

definition bsd_root_tuntap_open :: "bool \<Rightarrow> (string \<Rightarrow> int) \<Rightarrow> (nat \<Rightarrow> bool) \<Rightarrow> string \<Rightarrow> int" where
  "bsd_root_tuntap_open openbsd opened ioctls devname =
     (let fd = opened devname in
      if 0 \<le> fd then
        if openbsd then (if ioctls 0 then fd else - 1)
        else if \<not> ioctls 0 then - 1 else if \<not> ioctls 1 then - 1 else fd
      else fd)"

definition darwin_root_tuntap_open :: "(string \<Rightarrow> int) \<Rightarrow> string \<Rightarrow> int" where
  "darwin_root_tuntap_open opened devname = opened devname"

section \<open>systemd.c\<close>

text \<open>
  A datagram to the service manager: the bytes of \<^verbatim>\<open>sun_path\<close>, the length of the address and the message. The address structure has 110 bytes, two of them the family; \<open>env\<close> is the environment.
\<close>

record notification =
  nt_path :: "char list"
  nt_namelen :: nat
  nt_message :: string

abbreviation (input) SUN_PATH :: nat where "SUN_PATH \<equiv> 108"
abbreviation (input) SUN_PATH_OFFSET :: nat where "SUN_PATH_OFFSET \<equiv> 2"

definition mlvpn_systemd_notify :: "int \<Rightarrow> (string \<rightharpoonup> string) \<Rightarrow> (notification option \<times> (string \<rightharpoonup> string)) outcome" where
  "mlvpn_systemd_notify fd env =
     (case env ''NOTIFY_SOCKET'' of
        None \<Rightarrow> Ok (None, env)
      | Some notifysocket \<Rightarrow>
          if notifysocket \<noteq> [] \<and> hd notifysocket \<notin> {CHR ''@'', CHR ''/''} \<or> length notifysocket < 2 then Ok (None, env)
          else if fd < 0 then Ok (None, env)
          else obind (strlcpy (replicate SUN_PATH NUL) (notifysocket @ [NUL]) SUN_PATH) (\<lambda>(path, _).
               let path1 = (if hd notifysocket = CHR ''@'' then path[0 := NUL] else path);
                   namelen = SUN_PATH_OFFSET + length notifysocket in
               if SUN_PATH_OFFSET + SUN_PATH < namelen then Fault OutOfBounds
               else Ok (Some \<lparr>nt_path = path1, nt_namelen = namelen, nt_message = ''READY=1''\<rparr>, env(''NOTIFY_SOCKET'' := None))))"

section \<open>closefrom.c\<close>

text \<open>\<^verbatim>\<open>strtol\<close> to base 10: the value, kept within \<^verbatim>\<open>long\<close>, and what follows it; without a digit, 0 and the whole string.\<close>

definition strtol :: "string \<Rightarrow> int \<times> string" where
  "strtol s =
     (let t = dropWhile is_space s;
          neg = (t \<noteq> [] \<and> hd t = CHR ''-'');
          u = (if t \<noteq> [] \<and> hd t \<in> {CHR ''-'', CHR ''+''} then tl t else t);
          ds = takeWhile (\<lambda>c. digit_of c \<noteq> None) u
      in if ds = [] then (0, s)
         else (max (- (2 ^ 63)) (min (2 ^ 63 - 1) (if neg then - atoi_digits 0 ds else atoi_digits 0 ds)), drop (length ds) u))"

text \<open>
  \<open>fds\<close> are the open descriptors, \<open>proc\<close> the entries of the directory of descriptors in \<^verbatim>\<open>/proc\<close> with the descriptor of that directory, where there is one, \<open>maxfd\<close> the answer of
  \<^verbatim>\<open>sysconf\<close>.
\<close>

fun proc_loop :: "int \<Rightarrow> int \<Rightarrow> string list \<Rightarrow> int list \<Rightarrow> int list" where
  "proc_loop lowfd dirfd [] fds = fds"
| "proc_loop lowfd dirfd (d_name # dents) fds =
     (let (fd, endp) = strtol d_name in
      if d_name \<noteq> endp \<and> endp = [] \<and> 0 \<le> fd \<and> fd < 2 ^ 31 - 1 \<and> lowfd \<le> fd \<and> fd \<noteq> dirfd
      then proc_loop lowfd dirfd dents (removeAll fd fds)
      else proc_loop lowfd dirfd dents fds)"

fun close_loop :: "nat \<Rightarrow> int \<Rightarrow> int list \<Rightarrow> int list" where
  "close_loop 0 fd fds = fds"
| "close_loop (Suc n) fd fds = close_loop n (fd + 1) (removeAll fd fds)"

definition closefrom :: "(string list \<times> int) option \<Rightarrow> int \<Rightarrow> int \<Rightarrow> int list \<Rightarrow> int list" where
  "closefrom proc maxfd lowfd fds =
     (case proc of
        Some (dents, dirfd) \<Rightarrow> removeAll dirfd (proc_loop lowfd dirfd dents fds)
      | None \<Rightarrow> let m = (if maxfd < 0 then 256 else maxfd) in close_loop (nat (m - lowfd)) lowfd fds)"

section \<open>The platforms compared\<close>

lemma darwin_reads_like_linux: "darwin_tuntap_read = mlvpn_tuntap_read"
  by (intro ext) (simp add: darwin_tuntap_read_def mlvpn_tuntap_read_def min_def split: read_result.split)

text \<open>The BSD reader hands on four bytes more than the device delivered, whatever the array held there.\<close>

lemma bsd_read_forwards_stack:
  assumes "length h = 4" and "length stack = 1500" and "4 + length p \<le> d_maxmtu s" and "d_maxmtu s \<le> 1500"
  shows "bsd_tuntap_read E stack (ReadData (h @ p)) s = mlvpn_tuntap_generic_read E (p @ take 4 (drop (length p) stack)) s"
  using assms by (simp add: bsd_tuntap_read_def patch_def min_def)

lemma bsd_probes_distinct: "distinct (map (probe_path 16 mode) [0..<32])"
  by (cases "mode = MLVPN_TUNTAPMODE_TAP") (simp_all add: upt_rec probe_path_def probe_name_def tun_prefix_def fit_def show_nat.simps)

text \<open>On Darwin the buffer is too short for a number of two digits: the names from the eleventh on repeat earlier ones.\<close>

lemma darwin_probes_repeat: "map (probe_path 5 mode) [10..<32] = map (\<lambda>i. probe_path 5 mode (i div 10)) [10..<32]"
  by (cases "mode = MLVPN_TUNTAPMODE_TAP") (simp_all add: upt_rec probe_path_def probe_name_def tun_prefix_def fit_def show_nat.simps)

section \<open>The notification\<close>

lemma notify_sends:
  assumes "env ''NOTIFY_SOCKET'' = Some p" and "p = c # q" and "c = CHR ''@'' \<or> c = CHR ''/''" and "q \<noteq> []" and "NUL \<notin> set p" and "length p < SUN_PATH" and "0 \<le> fd"
  shows "mlvpn_systemd_notify fd env =
     Ok (Some \<lparr>nt_path = (if c = CHR ''@'' then NUL else c) # q @ replicate (SUN_PATH - length p) NUL,
               nt_namelen = SUN_PATH_OFFSET + length p, nt_message = ''READY=1''\<rparr>, env(''NOTIFY_SOCKET'' := None))"
proof -
  have t: "terminated (p @ [NUL])" "cstr (p @ [NUL]) = p" using assms(5) by (simp_all add: terminated_def)
  have "strlcpy (replicate SUN_PATH NUL) (p @ [NUL]) SUN_PATH = Ok (p @ NUL # replicate (SUN_PATH - 1 - length p) NUL, length p)"
    using strlcpy_spec [OF t(1), of SUN_PATH "replicate SUN_PATH NUL"] t(2) assms(6) by (simp add: patch_def)
  moreover have "NUL # replicate (SUN_PATH - 1 - length p) NUL = replicate (SUN_PATH - length p) NUL"
    using assms(6) by (simp add: replicate_Suc [symmetric] Suc_diff_le del: replicate_Suc)
  ultimately have "strlcpy (replicate SUN_PATH NUL) (p @ [NUL]) SUN_PATH = Ok (p @ replicate (SUN_PATH - length p) NUL, length p)" by simp
  then show ?thesis using assms by (auto simp: mlvpn_systemd_notify_def Let_def)
qed

text \<open>A socket name longer than the structure makes the address longer than it, and the call reads past it.\<close>

lemma notify_reads_past:
  assumes "env ''NOTIFY_SOCKET'' = Some p" and "hd p = CHR ''/''" and "SUN_PATH < length p" and "NUL \<notin> set p" and "0 \<le> fd"
  shows "mlvpn_systemd_notify fd env = Fault OutOfBounds"
proof -
  have "terminated (p @ [NUL])" by (simp add: terminated_def)
  from strlcpy_spec [OF this, of SUN_PATH "replicate SUN_PATH NUL"] obtain path k where
    "strlcpy (replicate SUN_PATH NUL) (p @ [NUL]) SUN_PATH = Ok (path, k)" by simp
  then show ?thesis using assms by (simp add: mlvpn_systemd_notify_def Let_def)
qed

section \<open>closefrom\<close>

lemma atoi_digits_snoc:
  "\<forall>c\<in>set xs. digit_of c \<noteq> None \<Longrightarrow> atoi_digits acc (xs @ [c]) = (case digit_of c of None \<Rightarrow> atoi_digits acc xs | Some d \<Rightarrow> 10 * atoi_digits acc xs + d)"
  by (induction xs arbitrary: acc) (auto split: option.splits)

lemma digit_of_digit: "d < 10 \<Longrightarrow> digit_of (char_of (48 + d)) = Some (int d)"
  by (simp add: digit_of_def)

lemma show_nat_digits: "(\<forall>c\<in>set (show_nat n). digit_of c \<noteq> None) \<and> atoi_digits 0 (show_nat n) = int n \<and> show_nat n \<noteq> []"
proof (induction n rule: show_nat.induct)
  case (1 n)
  show ?case
  proof (cases "n < 10")
    case True
    then show ?thesis by (subst (1 2 3) show_nat.simps) (simp add: digit_of_digit)
  next
    case False
    then have e: "show_nat n = show_nat (n div 10) @ [char_of (48 + n mod 10)]" by (subst show_nat.simps) simp
    have ih: "\<forall>c\<in>set (show_nat (n div 10)). digit_of c \<noteq> None" "atoi_digits 0 (show_nat (n div 10)) = int (n div 10)"
      using 1 False by simp_all
    have "10 * int (n div 10) + int (n mod 10) = int n" by presburger
    then show ?thesis using ih atoi_digits_snoc [OF ih(1), of 0 "char_of (48 + n mod 10)"] unfolding e by (simp add: digit_of_digit)
  qed
qed

lemma digit_not_space: "digit_of c \<noteq> None \<Longrightarrow> \<not> is_space c \<and> c \<noteq> CHR ''-'' \<and> c \<noteq> CHR ''+''"
  by (auto simp: digit_of_def is_space_def Let_def split: if_splits)

lemma strtol_show_nat:
  assumes "int n < 2 ^ 63"
  shows "strtol (show_nat n) = (int n, [])"
proof -
  obtain c cs where cs: "show_nat n = c # cs" using show_nat_digits [of n] by (cases "show_nat n") auto
  have all: "\<forall>x\<in>set (c # cs). digit_of x \<noteq> None" "atoi_digits 0 (c # cs) = int n" using show_nat_digits [of n] unfolding cs by blast+
  have "takeWhile (\<lambda>c. digit_of c \<noteq> None) (c # cs) = c # cs" using all(1) by (simp add: takeWhile_eq_all_conv)
  moreover have "\<not> is_space c" "c \<noteq> CHR ''-''" "c \<noteq> CHR ''+''" using digit_not_space [of c] all(1) by simp_all
  ultimately show ?thesis using assms all(2) unfolding strtol_def cs by (simp add: Let_def)
qed

lemma proc_loop_result: "\<exists>X. proc_loop lowfd dirfd dents fds = filter (\<lambda>fd. fd \<notin> X) fds \<and> (\<forall>fd\<in>X. lowfd \<le> fd) \<and>
   (\<forall>n. show_nat n \<in> set dents \<and> int n < 2 ^ 31 - 1 \<and> lowfd \<le> int n \<and> int n \<noteq> dirfd \<longrightarrow> int n \<in> X)"
proof (induction dents arbitrary: fds)
  case Nil
  show ?case by (rule exI [of _ "{}"]) simp
next
  case (Cons d dents)
  obtain fd endp where st: "strtol d = (fd, endp)" by (cases "strtol d")
  show ?case
  proof (cases "d \<noteq> endp \<and> endp = [] \<and> 0 \<le> fd \<and> fd < 2 ^ 31 - 1 \<and> lowfd \<le> fd \<and> fd \<noteq> dirfd")
    case True
    obtain X where X: "proc_loop lowfd dirfd dents (removeAll fd fds) = filter (\<lambda>fd. fd \<notin> X) (removeAll fd fds)" "\<forall>fd\<in>X. lowfd \<le> fd"
      "\<forall>n. show_nat n \<in> set dents \<and> int n < 2 ^ 31 - 1 \<and> lowfd \<le> int n \<and> int n \<noteq> dirfd \<longrightarrow> int n \<in> X"
      using Cons.IH [of "removeAll fd fds"] by blast
    have "fd = int n" if "show_nat n = d" "int n < 2 ^ 31 - 1" for n using strtol_show_nat [of n] st that by simp
    then have "\<forall>n. show_nat n \<in> set (d # dents) \<and> int n < 2 ^ 31 - 1 \<and> lowfd \<le> int n \<and> int n \<noteq> dirfd \<longrightarrow> int n \<in> insert fd X"
      using X(3) by auto
    moreover have "proc_loop lowfd dirfd (d # dents) fds = filter (\<lambda>x. x \<notin> insert fd X) fds"
    proof -
      have "proc_loop lowfd dirfd (d # dents) fds = proc_loop lowfd dirfd dents (removeAll fd fds)"
        unfolding proc_loop.simps st Let_def prod.case if_P [OF True] ..
      also have "\<dots> = filter (\<lambda>x. x \<notin> insert fd X) fds"
        using X(1) unfolding removeAll_filter_not_eq filter_filter by simp (rule filter_cong, auto)
      finally show ?thesis .
    qed
    ultimately show ?thesis using X(2) True by (intro exI [of _ "insert fd X"]) simp
  next
    case False
    obtain X where X: "proc_loop lowfd dirfd dents fds = filter (\<lambda>fd. fd \<notin> X) fds" "\<forall>fd\<in>X. lowfd \<le> fd"
      "\<forall>n. show_nat n \<in> set dents \<and> int n < 2 ^ 31 - 1 \<and> lowfd \<le> int n \<and> int n \<noteq> dirfd \<longrightarrow> int n \<in> X"
      using Cons.IH [of fds] by blast
    have "show_nat n \<noteq> d" if "int n < 2 ^ 31 - 1" "lowfd \<le> int n" "int n \<noteq> dirfd" for n
    proof
      assume "show_nat n = d"
      moreover from this have "fd = int n" "endp = []" using strtol_show_nat [of n] st that(1) by simp_all
      ultimately show False using False that show_nat_digits [of n] by auto
    qed
    then show ?thesis using X st False by (intro exI [of _ X]) auto
  qed
qed

lemma close_loop_result: "close_loop n fd fds = filter (\<lambda>x. x < fd \<or> fd + int n \<le> x) fds"
proof (induction n arbitrary: fd fds)
  case (Suc n)
  show ?case unfolding close_loop.simps Suc.IH removeAll_filter_not_eq filter_filter by (rule filter_cong) auto
next
  case 0
  have "x < fd \<or> fd \<le> x" for x :: int by linarith
  then show ?case by simp
qed

text \<open>
  C18: \<^verbatim>\<open>closefrom\<close> closes every descriptor from the given one on and no other, so the network script inherits none of the sockets, of the tunnel device or of the pipe to the daemon: through the
  directory of descriptors when that names all that are open, in whatever order and with whatever other entries, and otherwise when the limit of the system is above them.
\<close>

theorem closefrom_keeps_only_low:
  assumes "\<forall>fd\<in>set fds. 0 \<le> fd \<and> fd < 2 ^ 31 - 1" and "0 \<le> lowfd"
    and "case proc of Some (dents, dirfd) \<Rightarrow> dirfd \<notin> set fds \<and> (\<forall>fd\<in>set fds. show_nat (nat fd) \<in> set dents)
         | None \<Rightarrow> \<forall>fd\<in>set fds. fd < (if maxfd < 0 then 256 else maxfd)"
  shows "closefrom proc maxfd lowfd fds = filter (\<lambda>fd. fd < lowfd) fds"
proof (cases proc)
  case None
  have "closefrom proc maxfd lowfd fds = filter (\<lambda>x. x < lowfd \<or> lowfd + int (nat ((if maxfd < 0 then 256 else maxfd) - lowfd)) \<le> x) fds"
    by (simp add: closefrom_def None Let_def close_loop_result)
  also have "\<dots> = filter (\<lambda>fd. fd < lowfd) fds" using assms(3) None by (intro filter_cong) auto
  finally show ?thesis .
next
  case (Some p)
  obtain dents dirfd where p: "p = (dents, dirfd)" by (cases p)
  have a: "dirfd \<notin> set fds" "\<forall>fd\<in>set fds. show_nat (nat fd) \<in> set dents" using assms(3) Some p by simp_all
  obtain X where X: "proc_loop lowfd dirfd dents fds = filter (\<lambda>fd. fd \<notin> X) fds" "\<forall>fd\<in>X. lowfd \<le> fd"
    "\<forall>n. show_nat n \<in> set dents \<and> int n < 2 ^ 31 - 1 \<and> lowfd \<le> int n \<and> int n \<noteq> dirfd \<longrightarrow> int n \<in> X"
    using proc_loop_result [of lowfd dirfd dents fds] by blast
  have iff: "fd \<notin> X \<and> fd \<noteq> dirfd \<longleftrightarrow> fd < lowfd" if fd: "fd \<in> set fds" for fd
  proof (cases "fd < lowfd")
    case True
    then show ?thesis using X(2) a(1) fd by fastforce
  next
    case False
    have "fd = int (nat fd)" "fd \<noteq> dirfd" using assms(1) a(1) fd by auto
    then have "fd \<in> X" using X(3) [rule_format, of "nat fd"] a(2) assms(1) fd False by simp
    then show ?thesis using False by simp
  qed
  have "closefrom proc maxfd lowfd fds = filter (\<lambda>fd. fd \<notin> X \<and> fd \<noteq> dirfd) fds"
    using X(1) by (simp add: closefrom_def Some p removeAll_filter_not_eq eq_commute)
  also have "\<dots> = filter (\<lambda>fd. fd < lowfd) fds" using iff by (intro filter_cong) simp_all
  finally show ?thesis .
qed

theorem closefrom_keeps_only_low_witness:
  "closefrom (Some ([''.'', ''..'', ''0'', ''7'', ''2'', ''12'', ''3''], 3)) 1024 3 [0, 2, 7, 12] = filter (\<lambda>fd. fd < 3) [0, 2, 7, 12]"
proof (rule closefrom_keeps_only_low)
  show "case Some ([''.'', ''..'', ''0'', ''7'', ''2'', ''12'', ''3''], 3 :: int) of
      Some (dents, dirfd) \<Rightarrow> dirfd \<notin> set [0, 2, 7, 12] \<and> (\<forall>fd\<in>set [0, 2, 7, 12]. show_nat (nat fd) \<in> set dents)
    | None \<Rightarrow> \<forall>fd\<in>set [0, 2, 7, 12]. fd < (if (1024 :: int) < 0 then 256 else 1024)"
    by code_simp
qed simp_all

end
