(* ===== verification/Startup.thy ===== *)
theory Startup
  imports Program Signals Log Title Platforms
begin

text \<open>
  The start of the daemon (\<^verbatim>\<open>main\<close> of \<^verbatim>\<open>src/mlvpn.c\<close>): the command line, the checks of the configuration file and of the user, the separation of the privileges, and then the
  reading of the configuration up to the event loop. Shown here: a daemon that root starts reaches its event loop only without privileges, with a configuration file that no
  one else may read, and in a state of which the other theories show that no event makes it fail.
\<close>

section \<open>The command line\<close>

text \<open>What \<^verbatim>\<open>getopt_long\<close> returns, option by option, with its argument; \<open>OptHelp\<close> is also every option that is not known.\<close>

datatype main_opt =
    OptNaturalTitle
  | OptDebug
  | OptRunAsRoot
  | OptConfig string
  | OptDebugToken string
  | OptName string
  | OptUser string
  | OptVerbose
  | OptVersion
  | OptQuiet
  | OptHelp

fun main_option :: "mlvpn_options_s \<times> log_state \<Rightarrow> main_opt \<Rightarrow> (mlvpn_options_s \<times> log_state) outcome" where
  "main_option (o1, l) OptNaturalTitle = Ok (o1\<lparr>opt_change_process_title := False\<rparr>, l)"
| "main_option (o1, l) OptDebug = Ok (o1\<lparr>opt_debug := 1\<rparr>, l)"
| "main_option (o1, l) OptRunAsRoot = Ok (o1\<lparr>opt_root_allowed := True\<rparr>, l)"
| "main_option (o1, l) (OptConfig a) = Ok (o1\<lparr>opt_config_path := fit 4096 a\<rparr>, l)"
| "main_option (o1, l) (OptDebugToken a) = obind (log_accept a l) (\<lambda>l1. Ok (o1\<lparr>opt_debug := 1\<rparr>, l1))"
| "main_option (o1, l) (OptName a) = Ok (o1\<lparr>opt_process_name := fit 1024 a\<rparr>, l)"
| "main_option (o1, l) (OptUser a) = Ok (o1\<lparr>opt_unpriv_user := fit 128 a\<rparr>, l)"
| "main_option (o1, l) OptVerbose = Ok (o1\<lparr>opt_verbose := opt_verbose o1 + 1\<rparr>, l)"
| "main_option (o1, l) OptVersion = Fatal ''_exit(0)''"
| "main_option (o1, l) OptQuiet = Ok (o1\<lparr>opt_verbose := opt_verbose o1 - 1\<rparr>, l)"
| "main_option (o1, l) OptHelp = Fatal ''exit(2)''"

section \<open>Checks\<close>

text \<open>What the system answers to \<^verbatim>\<open>main\<close>: the mode of a file, whether the tun device may be opened, \<^verbatim>\<open>sodium_init\<close>, the descriptor of the configuration and the parent of the child;
  then the memory of the arguments and of the environment, the answers of \<^verbatim>\<open>calloc\<close> and \<^verbatim>\<open>strdup\<close>, what the stack holds, the name of the program and the descriptor of the notification socket.\<close>

record main_sys =
  ms_stat :: "string \<Rightarrow> nat option"
  ms_tun_access :: bool
  ms_crypto_init :: int
  ms_config_fd :: int
  ms_parent :: int
  ms_memory :: "char list"
  ms_argv :: "nat option list"
  ms_envp :: "nat list"
  ms_calloc :: bool
  ms_dup :: "nat \<Rightarrow> bool"
  ms_stack :: "char list"
  ms_progname :: string
  ms_notify_fd :: int

text \<open>The bits of \<^verbatim>\<open>S_IRWXG|S_IRWXO\<close>.\<close>

definition group_other :: "nat \<Rightarrow> bool" where
  "group_other mode \<longleftrightarrow> mode mod 64 \<noteq> 0"

definition main_checks :: "main_sys \<Rightarrow> ksys \<Rightarrow> cred \<Rightarrow> mlvpn_options_s \<Rightarrow> unit outcome" where
  "main_checks M k c o1 =
     (case ms_stat M (opt_config_path o1) of
        None \<Rightarrow> Fatal ''unable to open file''
      | Some mode \<Rightarrow>
          if group_other mode then Fatal ''file is group/other accessible''
          else if fst (c_uids c) = 0 \<and> \<not> opt_root_allowed o1 \<and> k_getpwnam k (opt_unpriv_user o1) = None
          then Fatal ''you are not allowed to run this program as root. please specify a valid user with --user option''
          else if fst (c_uids c) = 0 \<and> k_getpwnam k (opt_unpriv_user o1) = None then Fatal ''invalid unprivilged username''
          else if \<not> ms_tun_access M then Fatal ''unable to open /dev/net/tun''
          else Ok ())"

section \<open>The whole of main\<close>

text \<open>The environment as \<^verbatim>\<open>getenv\<close> sees it.\<close>

definition env_map :: "string option list \<Rightarrow> (string \<rightharpoonup> string)" where
  "env_map es = map_of (map (\<lambda>e. let v = the e in (takeWhile (\<lambda>c. c \<noteq> CHR ''='') v, drop 1 (dropWhile (\<lambda>c. c \<noteq> CHR ''='') v))) (takeWhile (\<lambda>e. e \<noteq> None) es))"

text \<open>The title of the privileged process, in the memory of the arguments.\<close>

definition main_title :: "main_sys \<Rightarrow> mlvpn_options_s \<Rightarrow> title_state \<Rightarrow> char list outcome" where
  "main_title M o1 ts =
     (case argv_start ts of
        Some a \<Rightarrow>
          if opt_change_process_title o1 then
            obind (setproctitle (ms_stack M) (ms_stack M) (ms_progname M)
                     (Some (if opt_process_name o1 \<noteq> [] then opt_process_name o1 @ '' [priv]'' else ''[priv]''))
                     (unat (argv_env_len ts)) (drop a (ms_memory M)))
              (\<lambda>area. Ok (take a (ms_memory M) @ area))
          else Ok (ms_memory M)
      | None \<Rightarrow> Ok (ms_memory M))"

text \<open>
  Up to the event loop: what is left in the memory of the arguments, the log and the notification that was sent; then \<open>None\<close> for the parent, that serves its child, and otherwise the credentials of
  the child and its state. \<open>parsed\<close> is what reading the configuration file gave.
\<close>

record main_result =
  mr_memory :: "char list"
  mr_log :: log_state
  mr_notified :: "notification option"
  mr_child :: "(cred \<times> config_state) option"

definition mlvpn_main ::
  "main_sys \<Rightarrow> ksys \<Rightarrow> env \<Rightarrow> (string \<Rightarrow> bool) \<Rightarrow> main_opt list \<Rightarrow> cred \<Rightarrow> int \<Rightarrow> config option \<Rightarrow> int \<Rightarrow> string \<Rightarrow> main_result outcome" where
  "mlvpn_main M k E compile args c now parsed tunfd dev =
     obind (compat_init_setproctitle (ms_memory M) (ms_argv M) (ms_envp M) (ms_calloc M) (ms_dup M)
              \<lparr>argv_start = None, argv_env_len = 0, environ = map (Some \<circ> string_at (ms_memory M)) (ms_envp M)\<rparr>) (\<lambda>(_, ts).
     obind (ofold main_option (mlvpn_options_init, log_init 1 2 log_state_init) args) (\<lambda>(o1, l).
     obind (main_checks M k c o1) (\<lambda>_.
     obind (main_title M o1 ts) (\<lambda>mem.
       if ms_crypto_init M = - 1 then Fatal ''libsodium initialization failed''
       else obind (mlvpn_systemd_notify (ms_notify_fd M) (env_map (environ ts))) (\<lambda>(note, _).
         let r = \<lparr>mr_memory = mem, mr_log = log_init (opt_debug o1) (opt_verbose o1) l, mr_notified = note, mr_child = None\<rparr> in
         obind (priv_init k (Some (opt_unpriv_user o1)) c) (\<lambda>child.
           case child of
             None \<Rightarrow> Ok r
           | Some c1 \<Rightarrow>
               if ms_config_fd M < 0 then Fatal ''cannot open config file''
               else obind (main_start E compile o1 now parsed tunfd dev) (\<lambda>g.
                 if ms_parent M = 1 then Fatal ''Privileged process died'' else Ok (r\<lparr>mr_child := Some (c1, g)\<rparr>))))))))"

text \<open>The signals the event loop is told of; the flag says whether the loop goes on.\<close>

definition main_signal ::
  "env \<Rightarrow> (string \<Rightarrow> bool) \<Rightarrow> int \<Rightarrow> config option \<Rightarrow> int \<Rightarrow> nat \<Rightarrow> config_state \<Rightarrow> (bool \<times> config_state) outcome" where
  "main_signal E compile fd parsed now n g =
     (if n = SIGHUP then obind (mlvpn_config_reload E compile fd parsed now g) (\<lambda>g'. Ok (True, g'))
      else if n = SIGINT \<or> n = SIGQUIT \<or> n = SIGTERM then obind (mlvpn_quit E (cs_daemon g)) (\<lambda>d. Ok (False, g\<lparr>cs_daemon := d\<rparr>))
      else Ok (True, g))"

lemma fits_globals: "config_fits c (cs_daemon (main_globals o1 now)) \<longleftrightarrow> config_fits c (cs_daemon (main_globals o2 now'))"
  by (simp add: config_fits_def main_globals_def tunnel_names_def daemon_boot_def mlvpn_tuntap_init_def)

lemma main_reaches_loop:
  assumes "mlvpn_main M k E compile args c now parsed tunfd dev = Ok r" and "mr_child r = Some (c1, g)"
  obtains o1 l where "ofold main_option (mlvpn_options_init, log_init 1 2 log_state_init) args = Ok (o1, l)"
    "main_checks M k c o1 = Ok ()" "priv_init k (Some (opt_unpriv_user o1)) c = Ok (Some c1)" "main_start E compile o1 now parsed tunfd dev = Ok g"
  using assms by (auto simp: mlvpn_main_def Let_def obind_eq_Ok_iff split: if_splits option.splits prod.splits)

text \<open>The signals the parent passes on: after a reload that returns the daemon is in a state of its runs, and the others end the loop.\<close>

lemma reload_signal_operating:
  assumes "operating g" and "sodium_ok (en_sodium E)" and "conf_parseConfig chars err = Ok parsed"
    and "\<forall>c. parsed = Some c \<longrightarrow> config_fits c (cs_daemon g)" and "main_signal E compile fd parsed now SIGHUP g = Ok (go, g')"
  shows "go \<and> operating g'"
  using operating.reload [OF assms(1-4)] assms(5) by (auto simp: main_signal_def obind_eq_Ok_iff)

lemma quit_signal_ends:
  assumes "operating g" and "n \<in> {SIGINT, SIGQUIT, SIGTERM}"
  shows "\<exists>g'. main_signal E compile fd parsed now n g = Ok (False, g')"
proof -
  have "dinv (cs_daemon g)" using operating_cinv [OF assms(1)] by (simp add: cinv_def)
  then obtain d where "mlvpn_quit E (cs_daemon g) = Ok d" using quit_ok by blast
  then show ?thesis using assms(2) by (auto simp: main_signal_def)
qed

text \<open>The option to run as root changes the message and not the result.\<close>

lemma run_as_root_has_no_effect:
  assumes "fst (c_uids c) = 0" and "k_getpwnam k (opt_unpriv_user o1) = None"
  shows "main_checks M k c (o1\<lparr>opt_root_allowed := b\<rparr>) \<noteq> Ok ()"
  using assms by (auto simp: main_checks_def split: option.splits)

lemma child_of_root:
  assumes "c_uids c = (0, 0, 0)" and "u \<noteq> []" and "\<not> k_valgrind k" and "priv_init k (Some u) c = Ok (Some c1)"
  shows "\<exists>p. k_getpwnam k u = Some p \<and> c_uids c1 = (pw_uid p, pw_uid p, pw_uid p) \<and> c_gids c1 = (pw_gid p, pw_gid p, pw_gid p) \<and>
     c_groups c1 = [pw_gid p] \<and> c_root c1 = pw_dir p"
  using assms
  by (auto simp: priv_init_def priv_child_def k_chroot_def k_chdir_root_def k_setgroups_def k_setresgid_def k_setresuid_def Let_def
      obind_eq_Ok_iff split: if_splits option.splits)

text \<open>
  C3: Whatever the command line, when root starts the daemon, the process that reaches the event loop has the user and group ids of an existing user and no other group, and its root
  directory is the home of that user; the configuration file was not accessible to anyone but its owner; and if the file fits the tables of the
  daemon, it is in one of the states in which no event makes it fail.
\<close>

theorem started_daemon_unprivileged:
  assumes "mlvpn_main M k E compile args c now (Some f) tunfd dev = Ok r" and "mr_child r = Some (c1, g)" and "c_uids c = (0, 0, 0)" and "\<not> k_valgrind k"
    and "k_getpwnam k [] = None" and "sodium_ok (en_sodium E)" and "conf_parseConfig chars False = Ok (Some f)"
    and "config_fits f (cs_daemon (main_globals mlvpn_options_init now))"
  shows "\<exists>o1 l p mode. ofold main_option (mlvpn_options_init, log_init 1 2 log_state_init) args = Ok (o1, l) \<and>
     k_getpwnam k (opt_unpriv_user o1) = Some p \<and> c_uids c1 = (pw_uid p, pw_uid p, pw_uid p) \<and> c_gids c1 = (pw_gid p, pw_gid p, pw_gid p) \<and>
     c_groups c1 = [pw_gid p] \<and> c_root c1 = pw_dir p \<and> ms_stat M (opt_config_path o1) = Some mode \<and> \<not> group_other mode \<and> operating g"
proof -
  obtain o1 l where m: "ofold main_option (mlvpn_options_init, log_init 1 2 log_state_init) args = Ok (o1, l)" "main_checks M k c o1 = Ok ()"
    "priv_init k (Some (opt_unpriv_user o1)) c = Ok (Some c1)" "main_start E compile o1 now (Some f) tunfd dev = Ok g" by (rule main_reaches_loop [OF assms(1,2)])
  have "k_getpwnam k (opt_unpriv_user o1) \<noteq> None" using m(2) assms(3) by (auto simp: main_checks_def split: option.splits if_splits)
  then have "opt_unpriv_user o1 \<noteq> []" using assms(5) by metis
  note child = child_of_root [OF assms(3) this assms(4) m(3)]
  obtain mode where mode: "ms_stat M (opt_config_path o1) = Some mode" "\<not> group_other mode"
    using m(2) by (auto simp: main_checks_def split: option.splits if_splits)
  have "operating g" using operating.start [OF assms(6,7) _ m(4)] assms(8) fits_globals by blast
  then show ?thesis using m(1) child mode by blast
qed

definition ex_main :: main_sys where
  "ex_main = \<lparr>ms_stat = (\<lambda>p. if p = ''/etc/mlvpn.conf'' then Some 384 else None), ms_tun_access = True, ms_crypto_init = 0, ms_config_fd = 4, ms_parent = 12,
     ms_memory = ex_memory, ms_argv = [Some 0, Some 6], ms_envp = [9], ms_calloc = True, ms_dup = (\<lambda>_. True), ms_stack = replicate 1024 NUL, ms_progname = ''mlvpn'', ms_notify_fd = - 1\<rparr>"

definition ex_users :: ksys where
  "ex_users = ex_ksys\<lparr>k_getpwnam := (\<lambda>u. if u = ''vpn'' then Some \<lparr>pw_uid = 100, pw_gid = 200, pw_dir = ''/var/run/mlvpn''\<rparr> else None)\<rparr>"

definition ex_args :: "main_opt list" where
  "ex_args = [OptConfig ''/etc/mlvpn.conf'', OptNaturalTitle, OptUser ''vpn'']"

theorem started_daemon_unprivileged_witness:
  "\<exists>r c1 g. mlvpn_main ex_main ex_users ex_os (\<lambda>f. True) ex_args ex_root 100 (Some (map node_of ex_file)) 9 ''mlvpn0'' = Ok r \<and> mr_child r = Some (c1, g) \<and>
     c_uids c1 = (100, 100, 100) \<and> operating g"
proof -
  define o1 where "o1 = ex_opts\<lparr>opt_config_path := ''/etc/mlvpn.conf'', opt_unpriv_user := ''vpn''\<rparr>"
  have a: "ofold main_option (mlvpn_options_init, log_init 1 2 log_state_init) ex_args = Ok (o1, log_init 1 2 log_state_init)"
    by (simp add: ex_args_def o1_def ex_opts_def mlvpn_options_init_def fit_def)
  have b: "main_checks ex_main ex_users ex_root o1 = Ok ()" by (simp add: main_checks_def ex_main_def ex_users_def ex_root_def o1_def group_other_def)
  obtain c1 where c: "priv_init ex_users (Some (opt_unpriv_user o1)) ex_root = Ok (Some c1)" "c_uids c1 = (100, 100, 100)"
    by (simp add: priv_init_def priv_child_def ex_users_def ex_ksys_def ex_root_def o1_def k_chroot_def k_chdir_root_def k_setgroups_def k_setresgid_def k_setresuid_def)
  obtain g where d: "main_start ex_os (\<lambda>f. True) o1 100 (Some (map node_of ex_file)) 9 ''mlvpn0'' = Ok g"
    using ex_file_started [of o1] by (auto simp: o1_def ex_opts_def)
  obtain av ts where t: "compat_init_setproctitle ex_memory [Some 0, Some 6] [9] True (\<lambda>_. True) \<lparr>argv_start = None, argv_env_len = 0, environ = map (Some \<circ> string_at ex_memory) [9]\<rparr> = Ok (av, ts)"
    "argv_start ts = Some 0" "environ ts = [Some ''A=b'']"
    by (simp add: compat_init_setproctitle_def ex_memory_def string_at_def cstr_def terminated_def)
  have n: "mlvpn_systemd_notify (- 1) (env_map (environ ts)) = Ok (None, env_map (environ ts))"
    by (simp add: mlvpn_systemd_notify_def t(3) env_map_def)
  obtain r where main: "mlvpn_main ex_main ex_users ex_os (\<lambda>f. True) ex_args ex_root 100 (Some (map node_of ex_file)) 9 ''mlvpn0'' = Ok r" "mr_child r = Some (c1, g)"
  proof (rule that)
    show "mlvpn_main ex_main ex_users ex_os (\<lambda>f. True) ex_args ex_root 100 (Some (map node_of ex_file)) 9 ''mlvpn0'' =
      Ok \<lparr>mr_memory = ex_memory, mr_log = log_init (opt_debug o1) (opt_verbose o1) (log_init 1 2 log_state_init), mr_notified = None, mr_child = Some (c1, g)\<rparr>"
      using a b c(1) d t n by (simp add: mlvpn_main_def ex_main_def main_title_def o1_def ex_opts_def)
  qed simp
  have "c_uids ex_root = (0, 0, 0)" "\<not> k_valgrind ex_users" "k_getpwnam ex_users [] = None" by (simp_all add: ex_root_def ex_users_def ex_ksys_def)
  from started_daemon_unprivileged [OF main this ex_os_simps(4) ex_file_parsed ex_file_fits] have "operating g" by blast
  then show ?thesis using main c(2) by blast
qed

end
