(* ===== verification/Control.thy ===== *)
theory Control
  imports Config
begin

text \<open>
  The control socket (\<^verbatim>\<open>src/control.c\<close>): one client at a time, on a unix or a TCP socket, sends lines and gets the state of the daemon as
  JSON or as metrics, in plain text or as an HTTP reply. Shown here: reading from the client always ends and stays within the read buffer, the replies are sent
  in order, and a status reply for up to three tunnels fits the write buffer.
\<close>

unbundle bit_operations_syntax

section \<open>State\<close>

datatype control_mode = MLVPN_CONTROL_DISABLED | MLVPN_CONTROL_READONLY | MLVPN_CONTROL_READWRITE

text \<open>System calls on the sockets; for \<^verbatim>\<open>write\<close> the bytes that were taken.\<close>

datatype control_call = CtlClose int | CtlSend int string | CtlWrite int string | CtlUnlink string

abbreviation (input) MLVPN_CTRL_BUFSIZ :: nat where "MLVPN_CTRL_BUFSIZ \<equiv> 1024"
abbreviation (input) MLVPN_CTRL_EOF :: char where "MLVPN_CTRL_EOF \<equiv> CHR 0x04"
abbreviation (input) MLVPN_CTRL_TIMEOUT :: int where "MLVPN_CTRL_TIMEOUT \<equiv> 5"

text \<open>\<^verbatim>\<open>struct mlvpn_control\<close>: \<open>ct_wbuf\<close> is the allocated memory, the last five fields before \<open>ct_calls\<close> whether the watchers are active.\<close>

record mlvpn_control =
  ct_mode :: control_mode
  ct_fifo_path :: string
  ct_fifofd :: int
  ct_bindaddr :: string
  ct_bindport :: string
  ct_sockfd :: int
  ct_clientfd :: int
  ct_last_activity :: int
  ct_rbuf :: string
  ct_rbufpos :: nat
  ct_wbuf :: string
  ct_wbuflen :: nat
  ct_wbufpos :: nat
  ct_http :: bool
  ct_close_after_write :: bool
  ct_fifo_watcher :: bool
  ct_sock_watcher :: bool
  ct_client_io_read :: bool
  ct_client_io_write :: bool
  ct_timeout_watcher :: bool
  ct_calls :: "control_call list"

definition call :: "control_call \<Rightarrow> mlvpn_control \<Rightarrow> mlvpn_control" where
  "call x c = c\<lparr>ct_calls := ct_calls c @ [x]\<rparr>"

definition mlvpn_control_close_client :: "mlvpn_control \<Rightarrow> mlvpn_control" where
  "mlvpn_control_close_client c =
     (let c1 = c\<lparr>ct_client_io_read := False, ct_client_io_write := False\<rparr>
      in (if 0 \<le> ct_clientfd c then call (CtlClose (ct_clientfd c)) c1 else c1)\<lparr>ct_clientfd := - 1\<rparr>)"

section \<open>Opening the sockets\<close>

text \<open>What the system answers: \<^verbatim>\<open>fcntl\<close> (get and set), \<^verbatim>\<open>socket\<close>, \<^verbatim>\<open>setsockopt\<close>, \<^verbatim>\<open>bind\<close>, \<^verbatim>\<open>listen\<close> and the request for addresses.\<close>

record control_sys =
  cy_getfl :: "int \<Rightarrow> int"
  cy_setfl :: "int \<Rightarrow> int \<Rightarrow> int"
  cy_local :: int
  cy_bind_local :: "int \<Rightarrow> string \<Rightarrow> int"
  cy_getaddrinfo :: "string \<Rightarrow> string \<Rightarrow> addrinfo list"
  cy_socket :: "addrinfo \<Rightarrow> int"
  cy_reuseaddr :: "int \<Rightarrow> int"
  cy_nodelay :: "int \<Rightarrow> int"
  cy_bind :: "int \<Rightarrow> addrinfo \<Rightarrow> int"
  cy_listen :: "int \<Rightarrow> int"

abbreviation (input) O_NONBLOCK :: int where "O_NONBLOCK \<equiv> 2048"

definition mlvpn_sock_set_nonblocking :: "control_sys \<Rightarrow> int \<Rightarrow> int" where
  "mlvpn_sock_set_nonblocking Y fd = (let fl = cy_getfl Y fd in if fl < 0 then - 1 else cy_setfl Y fd (fl OR O_NONBLOCK))"

definition control_fifo :: "control_sys \<Rightarrow> mlvpn_control \<Rightarrow> mlvpn_control" where
  "control_fifo Y c =
     (if ct_fifo_path c \<noteq> [] then
        let fd = cy_local Y; path = fit 108 (ct_fifo_path c) in
        if fd < 0 then c\<lparr>ct_fifofd := fd\<rparr>
        else let c1 = call (CtlUnlink path) (c\<lparr>ct_fifofd := fd\<rparr>) in
          if cy_bind_local Y fd path < 0 then (call (CtlClose fd) c1)\<lparr>ct_fifofd := - 1\<rparr> else c1
      else c)"

fun control_inet :: "control_sys \<Rightarrow> addrinfo list \<Rightarrow> mlvpn_control \<Rightarrow> mlvpn_control" where
  "control_inet Y [] c = c"
| "control_inet Y (res # ress) c =
     (let fd = cy_socket Y res; c1 = c\<lparr>ct_sockfd := fd\<rparr> in
      if fd < 0 then control_inet Y ress c1
      else if cy_reuseaddr Y fd < 0 \<or> cy_nodelay Y fd < 0 \<or> cy_bind Y fd res < 0 then (call (CtlClose fd) c1)\<lparr>ct_sockfd := - 1\<rparr>
      else c1)"

text \<open>Listening on a socket, if there is one: the socket or \<open>- 1\<close>.\<close>

definition control_listen :: "control_sys \<Rightarrow> int \<Rightarrow> mlvpn_control \<Rightarrow> int \<times> mlvpn_control" where
  "control_listen Y fd c =
     (if 0 \<le> fd then if mlvpn_sock_set_nonblocking Y fd < 0 \<or> cy_listen Y fd < 0 then (- 1, call (CtlClose fd) c) else (fd, c)
      else (fd, c))"

text \<open>\<open>mem\<close> is what \<^verbatim>\<open>malloc\<close> returned, its contents indeterminate.\<close>

definition mlvpn_control_init :: "control_sys \<Rightarrow> string \<Rightarrow> mlvpn_control \<Rightarrow> mlvpn_control" where
  "mlvpn_control_init Y mem c =
     (if ct_mode c = MLVPN_CONTROL_DISABLED then c
      else let c1 = c\<lparr>ct_fifofd := - 1, ct_sockfd := - 1, ct_clientfd := - 1, ct_wbuflen := 4096, ct_wbuf := mem, ct_http := False,
                 ct_close_after_write := False, ct_fifo_watcher := False, ct_sock_watcher := False, ct_client_io_read := False,
                 ct_client_io_write := False, ct_timeout_watcher := False\<rparr>;
               c2 = control_fifo Y c1;
               c3 = (if ct_bindaddr c2 \<noteq> [] \<and> ct_bindport c2 \<noteq> []
                     then control_inet Y (cy_getaddrinfo Y (ct_bindaddr c2) (ct_bindport c2)) (c2\<lparr>ct_http := True\<rparr>) else c2);
               (fd, c4) = control_listen Y (ct_fifofd c3) c3;
               (sd, c5) = control_listen Y (ct_sockfd c4) (c4\<lparr>ct_fifofd := fd\<rparr>)
           in c5\<lparr>ct_sockfd := sd, ct_sock_watcher := 0 \<le> sd, ct_fifo_watcher := 0 \<le> ct_fifofd c5, ct_timeout_watcher := True\<rparr>)"

section \<open>Accepting and timing out\<close>

text \<open>\<open>cfd\<close> is the answer of \<^verbatim>\<open>accept\<close>, \<open>now\<close> of \<^verbatim>\<open>time\<close>. The result counts the accepted clients.\<close>

definition mlvpn_control_accept :: "control_sys \<Rightarrow> int \<Rightarrow> int \<Rightarrow> int \<Rightarrow> mlvpn_control \<Rightarrow> int \<times> mlvpn_control" where
  "mlvpn_control_accept Y cfd now fd c =
     (if fd < 0 \<or> ct_mode c = MLVPN_CONTROL_DISABLED then (0, c)
      else if cfd < 0 then (0, c)
      else if ct_clientfd c \<noteq> - 1 then (0, call (CtlClose cfd) (call (CtlSend cfd (''ERR: Already connected.'' @ [LF])) c))
      else let c1 = (if mlvpn_sock_set_nonblocking Y cfd < 0 then call (CtlClose cfd) (c\<lparr>ct_clientfd := - 1\<rparr>) else c\<lparr>ct_clientfd := cfd\<rparr>)
           in (1, c1\<lparr>ct_rbufpos := 0, ct_wbufpos := 0, ct_last_activity := now, ct_client_io_read := True\<rparr>))"

definition mlvpn_control_timeout :: "int \<Rightarrow> mlvpn_control \<Rightarrow> int \<times> mlvpn_control" where
  "mlvpn_control_timeout now c =
     (if ct_mode c \<noteq> MLVPN_CONTROL_DISABLED \<and> 0 \<le> ct_clientfd c \<and> ct_last_activity c + MLVPN_CTRL_TIMEOUT \<le> now
      then (1, mlvpn_control_close_client c) else (0, c))"

section \<open>The write buffer\<close>

text \<open>
  \<^verbatim>\<open>mlvpn_control_write\<close>; no caller looks at its result. The space left is computed with unsigned 64 bit numbers, since \<^verbatim>\<open>len\<close> is one, so the comparison
  with 0 only holds when the data ends at the end of the buffer. \<^verbatim>\<open>memcpy\<close> beyond the end is a fault, and so is an \<^verbatim>\<open>int\<close> beyond its range;
  \<^verbatim>\<open>realloc\<close> finds the memory.
\<close>

definition wbuf_left :: "mlvpn_control \<Rightarrow> nat \<Rightarrow> u64" where
  "wbuf_left c len = of_nat (ct_wbuflen c) - (of_nat (ct_wbufpos c) + of_nat len)"

definition wbuf_realloc :: "mlvpn_control \<Rightarrow> mlvpn_control outcome" where
  "wbuf_realloc c =
     (if ct_wbuflen c + 1024 * 32 < 2 ^ 31
      then Ok (c\<lparr>ct_wbuflen := ct_wbuflen c + 1024 * 32, ct_wbuf := ct_wbuf c @ replicate (1024 * 32) NUL\<rparr>) else Fault Undefined)"

definition mlvpn_control_write :: "string \<Rightarrow> mlvpn_control \<Rightarrow> mlvpn_control outcome" where
  "mlvpn_control_write buf c =
     obind (if wbuf_left c (length buf) \<le> 0 then wbuf_realloc c else Ok c) (\<lambda>c1.
       if wbuf_left c1 (length buf) \<le> 0 then Ok (mlvpn_control_close_client c1)
       else if ct_wbufpos c1 + length buf \<le> length (ct_wbuf c1) then
         Ok (c1\<lparr>ct_wbuf := patch (ct_wbuf c1) (ct_wbufpos c1) buf, ct_wbufpos := ct_wbufpos c1 + length buf, ct_client_io_write := True\<rparr>)
       else Fault OutOfBounds)"

text \<open>\<open>ret\<close> is the answer of \<^verbatim>\<open>write\<close>, which takes no more than it is given.\<close>

definition mlvpn_control_send :: "int \<Rightarrow> mlvpn_control \<Rightarrow> int \<times> mlvpn_control" where
  "mlvpn_control_send ret c =
     (if ct_wbufpos c = 0 then (- 1, c)
      else let n = min (nat ret) (ct_wbufpos c);
               c1 = (if ret < 0 then mlvpn_control_close_client c
                     else (call (CtlWrite (ct_clientfd c) (take n (ct_wbuf c))) c)
                       \<lparr>ct_wbufpos := ct_wbufpos c - n, ct_wbuf := take (ct_wbufpos c - n) (drop n (ct_wbuf c)) @ drop (ct_wbufpos c - n) (ct_wbuf c)\<rparr>);
               c2 = (if ct_close_after_write c1 \<and> ct_wbufpos c1 = 0 then mlvpn_control_close_client c1 else c1)
           in (ret, if ct_wbufpos c2 = 0 then c2\<lparr>ct_client_io_write := False\<rparr> else c2))"

section \<open>Replies\<close>

definition HTTP_HEADERS :: string where
  "HTTP_HEADERS = ''HTTP/1.1 200 OK'' @ [CR, LF] @ ''Connection: close'' @ [CR, LF] @ ''Content-type: application/json'' @ [CR, LF] @
     ''Access-Control-Allow-Origin: *'' @ [CR, LF] @ ''Server: mlvpn'' @ [CR, LF] @ [CR, LF]"

definition quoted :: "string \<Rightarrow> string" where
  "quoted s = DQUOTE # s @ [DQUOTE]"

definition JSON_STATUS_ERROR_UNKNOWN_COMMAND :: string where
  "JSON_STATUS_ERROR_UNKNOWN_COMMAND = ''{'' @ quoted ''error'' @ '': '' @ [CHR 0x27] @ ''unknown command'' @ [CHR 0x27] @ ''}'' @ [LF]"

text \<open>\<^verbatim>\<open>%u\<close>, and the conversion of a \<^verbatim>\<open>double\<close> to \<^verbatim>\<open>uint32_t\<close>, which is undefined when the value does not fit.\<close>

definition fmt_u :: "'a::len word \<Rightarrow> string" where
  "fmt_u w = show_nat (unat w)"

definition to_u32 :: "double \<Rightarrow> u32 outcome" where
  "to_u32 x = (if - 1 < x \<and> x < 2 ^ 32 then Ok (of_int (if x < 0 then 0 else \<lfloor>x\<rfloor>)) else Fault Undefined)"

text \<open>
  \<^verbatim>\<open>snprintf\<close> into a buffer of 1024 bytes, then writing as many bytes as the text is long, which is more than the buffer holds if the text was cut by more than the
  terminator.
\<close>

definition control_writef :: "string \<Rightarrow> mlvpn_control \<Rightarrow> mlvpn_control outcome" where
  "control_writef text c =
     (if length text \<le> 1024 then mlvpn_control_write (take (length text) (fit 1024 text @ [NUL])) c else Fault OutOfBounds)"

definition metric :: "string \<Rightarrow> string \<Rightarrow> string \<Rightarrow> string" where
  "metric key name value = key @ ''{tunnel='' @ quoted name @ ''} '' @ value @ [LF]"

definition fmt_bool :: "bool \<Rightarrow> string" where
  "fmt_bool b = (if b then ''1'' else ''0'')"

definition tunnel_metrics :: "mlvpn_tunnel_t \<Rightarrow> (string list) outcome" where
  "tunnel_metrics t =
     (case t_name t of
        None \<Rightarrow> Fault NullDeref
      | Some name \<Rightarrow>
          obind (to_u32 (t_srtt t)) (\<lambda>srtt.
          obind (to_u32 (t_last_activity t)) (\<lambda>last.
            Ok (map (\<lambda>(k, v). metric k name v)
              [(''disconnected'', fmt_bool (t_status t = MLVPN_DISCONNECTED)), (''waitingpeer'', fmt_bool (t_status t = MLVPN_AUTHSENT)),
               (''connected'', fmt_bool (t_status t = MLVPN_AUTHOK)), (''lossy'', fmt_bool (t_status t = MLVPN_LOSSY)),
               (''slow'', fmt_bool (t_status t = MLVPN_HIGH_LATENCY)), (''sentpackets'', fmt_u (t_sentpackets t)),
               (''recvpackets'', fmt_u (t_recvpackets t)), (''sentbytes'', fmt_u (t_sentbytes t)), (''recvbytes'', fmt_u (t_recvbytes t)),
               (''bandwidth'', fmt_u (t_bandwidth t)), (''srtt'', fmt_u srtt), (''loss'', fmt_u (of_int (mlvpn_loss_ratio t) :: u32)),
               (''disconnects'', fmt_u (of_int (t_disconnects t) :: u32)), (''last_packet'', fmt_u last), (''timeout'', fmt_u (t_timeout t))]))))"

definition mlvpn_control_write_metrics :: "config_state \<Rightarrow> mlvpn_control \<Rightarrow> mlvpn_control outcome" where
  "mlvpn_control_write_metrics g c =
     (let d = cs_daemon g in
      obind (ofold (\<lambda>c text. control_writef text c) c
          [''uptime '' @ fmt_u (of_int (st_start_time (d_status d)) :: u32) @ [LF],
           ''last_reload '' @ fmt_u (of_int (st_last_reload (d_status d)) :: u32) @ [LF], ''pid 0'' @ [LF]]) (\<lambda>c1.
        ofold (\<lambda>c i. obind (tunnel_metrics (tun d i)) (ofold (\<lambda>c text. control_writef text c) c)) c1 (d_rtuns d)))"

text \<open>The status in JSON; the bandwidth of a tunnel is given as 0 whatever it is.\<close>

definition json_line :: "string \<Rightarrow> string \<Rightarrow> string \<Rightarrow> string" where
  "json_line key value rest = ''   '' @ quoted key @ '': '' @ value @ rest @ [LF]"

definition status_base :: "string \<Rightarrow> config_state \<Rightarrow> string" where
  "status_base prog g = ''{'' @ quoted ''name'' @ '': '' @ quoted prog @ '','' @ [LF] @
     quoted ''version'' @ '': '' @ quoted ''1.1'' @ '','' @ [LF] @
     quoted ''uptime'' @ '': '' @ fmt_u (of_int (st_start_time (d_status (cs_daemon g))) :: u32) @ '','' @ [LF] @
     quoted ''last_reload'' @ '': '' @ fmt_u (of_int (st_last_reload (d_status (cs_daemon g))) :: u32) @ '','' @ [LF] @
     quoted ''pid'' @ '': 0,'' @ [LF] @ quoted ''tuntap'' @ '': {'' @ [LF] @
     json_line ''type'' (quoted (if cs_tuntap_type g = 0 then ''tun'' else ''tap'')) '','' @
     json_line ''name'' (quoted (d_devname (cs_daemon g))) '''' @ ''},'' @ [LF] @ quoted ''tunnels'' @ '': ['' @ [LF]"

definition status_name :: "chap_status \<Rightarrow> string" where
  "status_name s = (case s of MLVPN_DISCONNECTED \<Rightarrow> ''disconnected'' | MLVPN_AUTHSENT \<Rightarrow> ''waiting peer'' | MLVPN_AUTHOK \<Rightarrow> ''connected''
     | MLVPN_LOSSY \<Rightarrow> ''lossy link'' | MLVPN_HIGH_LATENCY \<Rightarrow> ''slow link'')"

definition JSON_STATUS_RTUN :: "mlvpn_tunnel_t \<Rightarrow> string \<Rightarrow> u32 \<Rightarrow> u32 \<Rightarrow> bool \<Rightarrow> string" where
  "JSON_STATUS_RTUN t name srtt seen comma =
     ''{'' @ [LF] @ concat (map (\<lambda>(k, v). json_line k v '','')
       [(''name'', quoted name), (''mode'', quoted (if t_server_mode t then ''server'' else ''client'')),
        (''bindaddr'', quoted (t_bindaddr t)), (''bindport'', quoted (t_bindport t)),
        (''destaddr'', quoted (t_destaddr t)), (''destport'', quoted (t_destport t)), (''status'', quoted (status_name (t_status t))),
        (''sentpackets'', fmt_u (t_sentpackets t)), (''recvpackets'', fmt_u (t_recvpackets t)),
        (''sentbytes'', fmt_u (t_sentbytes t)), (''recvbytes'', fmt_u (t_recvbytes t)), (''bandwidth'', ''0''),
        (''srtt'', fmt_u srtt), (''loss'', fmt_u (of_int (mlvpn_loss_ratio t) :: u32)),
        (''disconnects'', fmt_u (of_int (t_disconnects t) :: u32)), (''last_packet'', fmt_u seen)]) @
     json_line ''timeout'' (fmt_u (t_timeout t)) '''' @ ''}'' @ (if comma then '','' else '''') @ [LF]"

definition status_rtun :: "mlvpn_tunnel_t \<Rightarrow> bool \<Rightarrow> string outcome" where
  "status_rtun t comma =
     (case t_name t of
        None \<Rightarrow> Fault NullDeref
      | Some name \<Rightarrow>
          obind (to_u32 (t_srtt t)) (\<lambda>srtt. obind (to_u32 (t_last_activity t)) (\<lambda>last. Ok (JSON_STATUS_RTUN t name srtt last comma))))"

fun write_rtuns :: "daemon \<Rightarrow> nat list \<Rightarrow> mlvpn_control \<Rightarrow> mlvpn_control outcome" where
  "write_rtuns d [] c = Ok c"
| "write_rtuns d (i # is) c = obind (status_rtun (tun d i) (is \<noteq> [])) (\<lambda>text. obind (control_writef text c) (write_rtuns d is))"

definition mlvpn_control_write_status :: "string \<Rightarrow> config_state \<Rightarrow> mlvpn_control \<Rightarrow> mlvpn_control outcome" where
  "mlvpn_control_write_status prog g c =
     obind (control_writef (status_base prog g) c) (\<lambda>c1.
     obind (write_rtuns (cs_daemon g) (d_rtuns (cs_daemon g)) c1) (\<lambda>c2. mlvpn_control_write ('']}'' @ [LF]) c2))"

section \<open>Commands\<close>

text \<open>\<^verbatim>\<open>strtok\<close> with blanks: the next word, and where the one after it is looked for; and \<^verbatim>\<open>strcasecmp\<close> being 0.\<close>

definition strtok :: "string \<Rightarrow> (string \<times> string) option" where
  "strtok s = (let s1 = dropWhile (\<lambda>x. x = CHR '' '') s in
     if s1 = [] then None else Some (takeWhile (\<lambda>x. x \<noteq> CHR '' '') s1, drop 1 (dropWhile (\<lambda>x. x \<noteq> CHR '' '') s1)))"

definition to_lower :: "char \<Rightarrow> char" where
  "to_lower x = (if 65 \<le> (of_char x :: nat) \<and> (of_char x :: nat) \<le> 90 then char_of (of_char x + 32 :: nat) else x)"

definition same_word :: "string \<Rightarrow> string \<Rightarrow> bool" where
  "same_word a b \<longleftrightarrow> map to_lower a = map to_lower b"

definition control_command :: "bool \<Rightarrow> string \<Rightarrow> string option" where
  "control_command http line =
     (case strtok (filter (\<lambda>x. x \<noteq> CR) (cstr line)) of
        None \<Rightarrow> None
      | Some (cmd, rest) \<Rightarrow> if http then map_option fst (strtok rest) else Some cmd)"

definition mlvpn_control_parse :: "string \<Rightarrow> config_state \<Rightarrow> string \<Rightarrow> mlvpn_control \<Rightarrow> mlvpn_control outcome" where
  "mlvpn_control_parse prog g line c =
     (case control_command (ct_http c) line of
        None \<Rightarrow> Ok c
      | Some cmd \<Rightarrow>
          obind (if ct_http c then mlvpn_control_write HTTP_HEADERS c else Ok c) (\<lambda>c1.
          obind (if same_word cmd ''status'' \<or> same_word cmd ''/status'' then mlvpn_control_write_status prog g c1
                 else if same_word cmd ''metrics'' \<or> same_word cmd ''/metrics'' then mlvpn_control_write_metrics g c1
                 else if same_word cmd ''quit'' then obind (mlvpn_control_write ''bye.'' c1) (\<lambda>c2. Ok (mlvpn_control_close_client c2))
                 else mlvpn_control_write JSON_STATUS_ERROR_UNKNOWN_COMMAND c1) (\<lambda>c2.
            Ok (if ct_http c then c2\<lparr>ct_close_after_write := True\<rparr> else c2))))"

section \<open>Reading\<close>

text \<open>The position of the first end of file or line feed in the first \<open>n\<close> characters.\<close>

fun control_scan :: "nat \<Rightarrow> string \<Rightarrow> (nat \<times> char) option" where
  "control_scan i [] = None"
| "control_scan i (x # xs) = (if x = MLVPN_CTRL_EOF \<or> x = LF then Some (i, x) else control_scan (i + 1) xs)"

definition mlvpn_control_read_check :: "string \<Rightarrow> config_state \<Rightarrow> mlvpn_control \<Rightarrow> (bool \<times> mlvpn_control) outcome" where
  "mlvpn_control_read_check prog g c =
     (case control_scan 0 (take (ct_rbufpos c) (ct_rbuf c)) of
        None \<Rightarrow> Ok (False, c)
      | Some (i, x) \<Rightarrow>
          if x = MLVPN_CTRL_EOF then Ok (False, mlvpn_control_close_client c)
          else obind (mlvpn_control_parse prog g (take i (ct_rbuf c) @ [NUL])
                 (c\<lparr>ct_rbuf := drop i (ct_rbuf c) @ drop (MLVPN_CTRL_BUFSIZ - i) (ct_rbuf c), ct_rbufpos := ct_rbufpos c - (i + 1)\<rparr>))
               (\<lambda>c1. Ok (True, c1)))"

text \<open>The loop around it; that it ends is shown below.\<close>

partial_function (option) control_loop :: "string \<Rightarrow> config_state \<Rightarrow> mlvpn_control \<Rightarrow> mlvpn_control outcome option" where
  "control_loop prog g c =
     (case mlvpn_control_read_check prog g c of
        Ok (found, c1) \<Rightarrow> if found then control_loop prog g c1 else Some (Ok c1)
      | Fatal m \<Rightarrow> Some (Fatal m)
      | Fault f \<Rightarrow> Some (Fault f))"

text \<open>
  The answer of \<^verbatim>\<open>read\<close>: an error, and whether it only means to try again, or what the client sent, of which \<^verbatim>\<open>read\<close> takes what it is asked for; nothing is the end.
\<close>

datatype client_read = ClientError bool | ClientData string

definition mlvpn_control_read :: "string \<Rightarrow> config_state \<Rightarrow> int \<Rightarrow> client_read \<Rightarrow> mlvpn_control \<Rightarrow> (mlvpn_control outcome) option" where
  "mlvpn_control_read prog g now r c =
     (case r of
        ClientData data \<Rightarrow>
          let bs = take (MLVPN_CTRL_BUFSIZ - ct_rbufpos c) data in
          if bs = [] then Some (Ok (c\<lparr>ct_clientfd := - 1\<rparr>))
          else if ct_rbufpos c + length bs \<le> length (ct_rbuf c) then
            let c1 = c\<lparr>ct_rbuf := patch (ct_rbuf c) (ct_rbufpos c) bs, ct_last_activity := now, ct_rbufpos := ct_rbufpos c + length bs\<rparr> in
            if MLVPN_CTRL_BUFSIZ \<le> ct_rbufpos c1 then Some (Ok (mlvpn_control_close_client c1)) else control_loop prog g c1
          else Some (Fault OutOfBounds)
      | ClientError again \<Rightarrow> Some (Ok (if again then c else mlvpn_control_close_client c)))"

section \<open>The stream to the client\<close>

text \<open>A client of a buffered stream puts bytes and flushes; what was taken and what is still held together are what was put, in order.\<close>

locale out_stream =
  fixes inv :: "'s \<Rightarrow> bool"
    and held :: "'s \<Rightarrow> 'a list"
    and taken :: "'s \<Rightarrow> 'a list"
    and put :: "'a list \<Rightarrow> 's \<Rightarrow> 's outcome"
    and flush :: "'f \<Rightarrow> 's \<Rightarrow> 's"
  assumes put_ok: "inv s \<Longrightarrow> put xs s = Ok s' \<Longrightarrow> inv s' \<and> held s' = held s @ xs \<and> taken s' = taken s"
    and flush_ok: "inv s \<Longrightarrow> inv (flush n s) \<and> taken (flush n s) @ held (flush n s) = taken s @ held s"
begin

lemma puts_ok:
  assumes "inv s" and "ofold (\<lambda>s xs. put xs s) s xss = Ok s'"
  shows "inv s' \<and> held s' = held s @ concat xss \<and> taken s' = taken s"
  using assms
proof (induction xss arbitrary: s)
  case (Cons xs xss)
  obtain s1 where s1: "put xs s = Ok s1" "ofold (\<lambda>s xs. put xs s) s1 xss = Ok s'" using Cons.prems(2) by (auto simp: obind_eq_Ok_iff)
  with put_ok [OF Cons.prems(1) s1(1)] show ?case using Cons.IH [of s1] by simp
qed simp

lemma flushes_ok:
  assumes "inv s"
  shows "inv (foldl (\<lambda>s n. flush n s) s ns) \<and> taken (foldl (\<lambda>s n. flush n s) s ns) @ held (foldl (\<lambda>s n. flush n s) s ns) = taken s @ held s"
  using assms
proof (induction ns arbitrary: s)
  case (Cons n ns)
  then show ?case using flush_ok [of s n] Cons.IH [of "flush n s"] by simp
qed simp

end

definition ctl_ok :: "mlvpn_control \<Rightarrow> bool" where
  "ctl_ok c \<longleftrightarrow> length (ct_rbuf c) = MLVPN_CTRL_BUFSIZ \<and> ct_rbufpos c \<le> MLVPN_CTRL_BUFSIZ \<and> length (ct_wbuf c) = ct_wbuflen c \<and>
     ct_wbufpos c \<le> ct_wbuflen c \<and> ct_wbuflen c < 2 ^ 31"

text \<open>What the client has not got yet, and what it has.\<close>

definition unsent :: "mlvpn_control \<Rightarrow> string" where
  "unsent c = take (ct_wbufpos c) (ct_wbuf c)"

definition sent_to_client :: "mlvpn_control \<Rightarrow> string" where
  "sent_to_client c = concat (map (\<lambda>x. case x of CtlWrite fd bs \<Rightarrow> bs | _ \<Rightarrow> []) (ct_calls c))"

text \<open>What writing leaves alone.\<close>

definition reading :: "mlvpn_control \<Rightarrow> string \<times> nat \<times> bool" where
  "reading c = (ct_rbuf c, ct_rbufpos c, ct_http c)"

lemma close_client_fields [simp]:
  "ct_rbuf (mlvpn_control_close_client c) = ct_rbuf c" "ct_rbufpos (mlvpn_control_close_client c) = ct_rbufpos c"
  "ct_wbuf (mlvpn_control_close_client c) = ct_wbuf c" "ct_wbufpos (mlvpn_control_close_client c) = ct_wbufpos c"
  "ct_wbuflen (mlvpn_control_close_client c) = ct_wbuflen c" "ct_http (mlvpn_control_close_client c) = ct_http c"
  "ct_close_after_write (mlvpn_control_close_client c) = ct_close_after_write c"
  "sent_to_client (mlvpn_control_close_client c) = sent_to_client c"
  by (simp_all add: mlvpn_control_close_client_def call_def Let_def sent_to_client_def)

lemma close_client_ok [simp]:
  "ctl_ok (mlvpn_control_close_client c) = ctl_ok c" "unsent (mlvpn_control_close_client c) = unsent c"
  "reading (mlvpn_control_close_client c) = reading c"
  by (simp_all add: ctl_ok_def unsent_def reading_def)

lemma wbuf_left_zero:
  assumes "ctl_ok c" and "length buf < 2 ^ 31"
  shows "wbuf_left c (length buf) \<le> 0 \<longleftrightarrow> ct_wbuflen c = ct_wbufpos c + length buf"
proof -
  have b: "ct_wbuflen c < 2 ^ 64" "ct_wbufpos c + length buf < 2 ^ 64" using assms by (auto simp: ctl_ok_def)
  have "wbuf_left c (length buf) \<le> 0 \<longleftrightarrow> (of_nat (ct_wbuflen c) :: u64) = of_nat (ct_wbufpos c + length buf)" by (simp add: wbuf_left_def)
  also have "\<dots> \<longleftrightarrow> unat (of_nat (ct_wbuflen c) :: u64) = unat (of_nat (ct_wbufpos c + length buf) :: u64)" by (simp only: word_unat_eq_iff)
  also have "\<dots> \<longleftrightarrow> ct_wbuflen c = ct_wbufpos c + length buf" using b by (simp only: unat_of_nat) simp
  finally show ?thesis .
qed

text \<open>Every branch of a write: it is stored, the buffer grows and it is stored, or it goes beyond the end of the buffer.\<close>

definition stored :: "string \<Rightarrow> mlvpn_control \<Rightarrow> mlvpn_control" where
  "stored buf c = c\<lparr>ct_wbuf := patch (ct_wbuf c) (ct_wbufpos c) buf, ct_wbufpos := ct_wbufpos c + length buf, ct_client_io_write := True\<rparr>"

lemma control_write_cases:
  assumes "ctl_ok c" and "length buf < 2 ^ 31"
  shows "ct_wbufpos c + length buf < ct_wbuflen c \<Longrightarrow> mlvpn_control_write buf c = Ok (stored buf c)"
    and "ct_wbufpos c + length buf = ct_wbuflen c \<Longrightarrow> mlvpn_control_write buf c = obind (wbuf_realloc c) (\<lambda>c1. Ok (stored buf c1))"
    and "ct_wbuflen c < ct_wbufpos c + length buf \<Longrightarrow> mlvpn_control_write buf c = Fault OutOfBounds"
proof -
  note z = wbuf_left_zero [OF assms]
  have l: "length (ct_wbuf c) = ct_wbuflen c" using assms(1) by (simp add: ctl_ok_def)
  show "mlvpn_control_write buf c = Ok (stored buf c)" if "ct_wbufpos c + length buf < ct_wbuflen c"
    using that z l by (simp add: mlvpn_control_write_def stored_def)
  show "mlvpn_control_write buf c = Fault OutOfBounds" if "ct_wbuflen c < ct_wbufpos c + length buf"
    using that z l by (simp add: mlvpn_control_write_def)
  show "mlvpn_control_write buf c = obind (wbuf_realloc c) (\<lambda>c1. Ok (stored buf c1))" if eq: "ct_wbufpos c + length buf = ct_wbuflen c"
  proof (cases "ct_wbuflen c + 1024 * 32 < 2 ^ 31")
    case True
    define c1 where "c1 = c\<lparr>ct_wbuflen := ct_wbuflen c + 1024 * 32, ct_wbuf := ct_wbuf c @ replicate (1024 * 32) NUL\<rparr>"
    have "ctl_ok c1" using assms(1) True by (simp add: c1_def ctl_ok_def)
    from wbuf_left_zero [OF this assms(2)] have "\<not> wbuf_left c1 (length buf) \<le> 0" using eq by (simp add: c1_def)
    moreover have "wbuf_realloc c = Ok c1" using True by (simp add: wbuf_realloc_def c1_def)
    moreover have "ct_wbufpos c1 + length buf \<le> length (ct_wbuf c1)" using eq l by (simp add: c1_def)
    ultimately show ?thesis using z eq by (simp add: mlvpn_control_write_def stored_def)
  next
    case False
    then show ?thesis using z eq by (simp add: mlvpn_control_write_def wbuf_realloc_def)
  qed
qed

lemma stored_ok:
  assumes "ctl_ok c" and "ct_wbufpos c + length buf \<le> ct_wbuflen c"
  shows "ctl_ok (stored buf c)" and "unsent (stored buf c) = unsent c @ buf" and "sent_to_client (stored buf c) = sent_to_client c"
    and "reading (stored buf c) = reading c" and "ct_wbuflen (stored buf c) = ct_wbuflen c"
  using assms by (simp_all add: stored_def ctl_ok_def unsent_def sent_to_client_def reading_def patch_def)

lemma control_write_short:
  assumes "ctl_ok c" and "mlvpn_control_write buf c = Ok c'"
  shows "length buf < 2 ^ 31"
proof -
  obtain c1 where c1: "(if wbuf_left c (length buf) \<le> 0 then wbuf_realloc c else Ok c) = Ok c1"
      "wbuf_left c1 (length buf) \<le> 0 \<or> ct_wbufpos c1 + length buf \<le> length (ct_wbuf c1)"
    using assms(2) by (auto simp: mlvpn_control_write_def obind_eq_Ok_iff split: if_splits)
  have "ctl_ok c1" "\<not> wbuf_left c1 (length buf) \<le> 0"
    using c1(1) assms(1) by (auto simp: wbuf_realloc_def ctl_ok_def wbuf_left_def split: if_splits)
  then show ?thesis using c1(2) by (simp add: ctl_ok_def)
qed

lemma control_write_ok:
  assumes "ctl_ok c" and "mlvpn_control_write buf c = Ok c'"
  shows "ctl_ok c' \<and> unsent c' = unsent c @ buf \<and> sent_to_client c' = sent_to_client c \<and> reading c' = reading c \<and> ct_wbuflen c \<le> ct_wbuflen c'"
proof -
  note w = control_write_cases [OF assms(1) control_write_short [OF assms]]
  consider "ct_wbufpos c + length buf < ct_wbuflen c" | "ct_wbufpos c + length buf = ct_wbuflen c"
    using w(3) assms(2) by (metis nat_neq_iff outcome.distinct(3))
  then show ?thesis
  proof cases
    case 1
    then show ?thesis using w(1) assms(2) stored_ok [OF assms(1), of buf] by simp
  next
    case 2
    then have "obind (wbuf_realloc c) (\<lambda>c1. Ok (stored buf c1)) = Ok c'" using w(2) assms(2) by simp
    then obtain c1 where c1: "wbuf_realloc c = Ok c1" "c' = stored buf c1" by (auto simp: obind_eq_Ok_iff)
    then have "ctl_ok c1" "unsent c1 = unsent c" "sent_to_client c1 = sent_to_client c" "reading c1 = reading c" "ct_wbuflen c \<le> ct_wbuflen c1"
        "ct_wbufpos c1 + length buf \<le> ct_wbuflen c1"
      using assms(1) 2 by (auto simp: wbuf_realloc_def ctl_ok_def unsent_def sent_to_client_def reading_def split: if_splits)
    then show ?thesis using stored_ok [of c1 buf] c1(2) by simp
  qed
qed

lemma write_watcher_ok [simp]:
  "ctl_ok (c\<lparr>ct_client_io_write := b\<rparr>) = ctl_ok c" "unsent (c\<lparr>ct_client_io_write := b\<rparr>) = unsent c"
  "sent_to_client (c\<lparr>ct_client_io_write := b\<rparr>) = sent_to_client c"
  by (simp_all add: ctl_ok_def unsent_def sent_to_client_def)

lemma control_send_ok:
  assumes "ctl_ok c"
  shows "ctl_ok (snd (mlvpn_control_send ret c)) \<and>
     sent_to_client (snd (mlvpn_control_send ret c)) @ unsent (snd (mlvpn_control_send ret c)) = sent_to_client c @ unsent c"
proof (cases "ct_wbufpos c = 0 \<or> ret < 0")
  case True
  then have "mlvpn_control_send ret c = (- 1, c) \<or> mlvpn_control_send ret c = (ret, mlvpn_control_close_client c)"
    by (cases "ct_wbufpos c = 0") (simp_all add: mlvpn_control_send_def)
  then show ?thesis using assms by (elim disjE) simp_all
next
  case False
  then have pos: "(ct_wbufpos c = 0) = False" "(ret < 0) = False" by simp_all
  define n where "n = min (nat ret) (ct_wbufpos c)"
  define c1 where "c1 = (call (CtlWrite (ct_clientfd c) (take n (ct_wbuf c))) c)
     \<lparr>ct_wbufpos := ct_wbufpos c - n, ct_wbuf := take (ct_wbufpos c - n) (drop n (ct_wbuf c)) @ drop (ct_wbufpos c - n) (ct_wbuf c)\<rparr>"
  have l: "length (ct_wbuf c) = ct_wbuflen c" "ct_wbufpos c \<le> ct_wbuflen c" "n \<le> ct_wbufpos c" using assms by (simp_all add: ctl_ok_def n_def)
  have "ctl_ok c1" using assms l by (auto simp: c1_def ctl_ok_def call_def)
  moreover have "unsent c1 = take (ct_wbufpos c - n) (drop n (ct_wbuf c))" using l by (simp add: c1_def unsent_def)
  moreover have "sent_to_client c1 = sent_to_client c @ take n (ct_wbuf c)" by (simp add: c1_def sent_to_client_def call_def)
  moreover have "take n (ct_wbuf c) @ take (ct_wbufpos c - n) (drop n (ct_wbuf c)) = unsent c"
    using l(3) by (simp add: unsent_def take_add [symmetric])
  ultimately have 1: "ctl_ok c1 \<and> sent_to_client c1 @ unsent c1 = sent_to_client c @ unsent c" by simp
  have "mlvpn_control_send ret c = (let c2 = (if ct_close_after_write c1 \<and> ct_wbufpos c1 = 0 then mlvpn_control_close_client c1 else c1)
     in (ret, if ct_wbufpos c2 = 0 then c2\<lparr>ct_client_io_write := False\<rparr> else c2))"
    by (simp only: mlvpn_control_send_def Let_def pos if_False n_def [symmetric] c1_def [symmetric])
  then show ?thesis using 1 by (simp add: Let_def)
qed

interpretation client: out_stream ctl_ok unsent sent_to_client mlvpn_control_write "\<lambda>ret c. snd (mlvpn_control_send ret c)"
proof
  fix c buf c'
  assume "ctl_ok c" "mlvpn_control_write buf c = Ok c'"
  from control_write_ok [OF this] show "ctl_ok c' \<and> unsent c' = unsent c @ buf \<and> sent_to_client c' = sent_to_client c" by simp
qed (rule control_send_ok)

section \<open>Replies keep the read side\<close>

definition wrote :: "mlvpn_control \<Rightarrow> mlvpn_control \<Rightarrow> bool" where
  "wrote c c' \<longleftrightarrow> reading c' = reading c \<and> ct_wbuflen c \<le> ct_wbuflen c' \<and> (ctl_ok c \<longrightarrow> ctl_ok c')"

lemma wrote_refl [simp]: "wrote c c" and wrote_trans: "wrote a b \<Longrightarrow> wrote b c \<Longrightarrow> wrote a c"
  by (auto simp: wrote_def)

lemma wrote_close: "wrote c c1 \<Longrightarrow> wrote c (mlvpn_control_close_client c1)"
  by (simp add: wrote_def)

lemma wrote_write: "mlvpn_control_write buf c = Ok c' \<Longrightarrow> wrote c c'"
proof -
  assume w: "mlvpn_control_write buf c = Ok c'"
  then have "reading c' = reading c \<and> ct_wbuflen c \<le> ct_wbuflen c'"
    by (auto simp: mlvpn_control_write_def obind_eq_Ok_iff wbuf_realloc_def reading_def split: if_splits)
  then show ?thesis using control_write_ok [of c buf c'] w by (auto simp: wrote_def)
qed

lemma wrote_writef: "control_writef text c = Ok c' \<Longrightarrow> wrote c c'"
  by (auto simp: control_writef_def intro: wrote_write split: if_splits)

lemma wrote_fold:
  assumes "ofold f c xs = Ok c'" and "\<And>c x c'. f c x = Ok c' \<Longrightarrow> wrote c c'"
  shows "wrote c c'"
  by (rule ofold_invariant [where P = "wrote c", OF assms(1)]) (use assms(2) wrote_trans in auto)

lemma wrote_rtuns: "write_rtuns d is c = Ok c' \<Longrightarrow> wrote c c'"
  by (induction "is" arbitrary: c) (auto simp: obind_eq_Ok_iff dest!: wrote_writef intro: wrote_trans)

lemma wrote_status: "mlvpn_control_write_status prog g c = Ok c' \<Longrightarrow> wrote c c'"
  by (auto simp: mlvpn_control_write_status_def obind_eq_Ok_iff dest!: wrote_writef wrote_rtuns wrote_write intro: wrote_trans)

lemma wrote_metrics: "mlvpn_control_write_metrics g c = Ok c' \<Longrightarrow> wrote c c'"
proof -
  have l: "wrote c c'" if "ofold (\<lambda>c text. control_writef text c) c xs = Ok c'" for c c' xs
    by (rule wrote_fold [OF that]) (rule wrote_writef)
  assume "mlvpn_control_write_metrics g c = Ok c'"
  then obtain xs c1 where c1: "ofold (\<lambda>c text. control_writef text c) c xs = Ok c1"
      "ofold (\<lambda>c i. obind (tunnel_metrics (tun (cs_daemon g) i)) (ofold (\<lambda>c text. control_writef text c) c)) c1 (d_rtuns (cs_daemon g)) = Ok c'"
    by (auto simp: mlvpn_control_write_metrics_def Let_def obind_eq_Ok_iff simp del: ofold.simps)
  have "wrote c1 c'" by (rule wrote_fold [OF c1(2)]) (auto simp: obind_eq_Ok_iff intro: l)
  then show ?thesis using wrote_trans l [OF c1(1)] by blast
qed

lemma wrote_parse:
  assumes "mlvpn_control_parse prog g line c = Ok c'"
  shows "wrote c c'"
proof (cases "control_command (ct_http c) line")
  case (Some cmd)
  obtain c1 c2 where c: "(if ct_http c then mlvpn_control_write HTTP_HEADERS c else Ok c) = Ok c1"
    "(if same_word cmd ''status'' \<or> same_word cmd ''/status'' then mlvpn_control_write_status prog g c1
       else if same_word cmd ''metrics'' \<or> same_word cmd ''/metrics'' then mlvpn_control_write_metrics g c1
       else if same_word cmd ''quit'' then obind (mlvpn_control_write ''bye.'' c1) (\<lambda>c2. Ok (mlvpn_control_close_client c2))
       else mlvpn_control_write JSON_STATUS_ERROR_UNKNOWN_COMMAND c1) = Ok c2"
    "c' = (if ct_http c then c2\<lparr>ct_close_after_write := True\<rparr> else c2)"
    using assms Some by (auto simp: mlvpn_control_parse_def obind_eq_Ok_iff simp del: split_paired_Ex)
  have "wrote c c1" using c(1) by (auto dest: wrote_write split: if_splits)
  moreover have "wrote c1 c2" using c(2)
    by (auto simp: obind_eq_Ok_iff dest: wrote_write wrote_status wrote_metrics wrote_close split: if_splits)
  ultimately have "wrote c c2" by (rule wrote_trans)
  then show ?thesis using c(3) by (simp add: wrote_def reading_def ctl_ok_def)
qed (use assms in \<open>simp add: mlvpn_control_parse_def\<close>)

section \<open>Reading ends\<close>

lemma control_scan_first:
  assumes "LF \<notin> set line" and "MLVPN_CTRL_EOF \<notin> set line"
  shows "control_scan i (line @ LF # rest) = Some (i + length line, LF)"
  using assms by (induction line arbitrary: i) auto

lemma control_scan_bound: "control_scan i xs = Some (j, x) \<Longrightarrow> i \<le> j \<and> j < i + length xs \<and> (x = MLVPN_CTRL_EOF \<or> x = LF)"
  by (induction xs arbitrary: i) (fastforce split: if_splits)+

lemma read_check_step:
  assumes "mlvpn_control_read_check prog g c = Ok (found, c')"
  shows "found \<Longrightarrow> ct_rbufpos c' < ct_rbufpos c" and "ct_rbufpos c' \<le> ct_rbufpos c" and "ctl_ok c \<Longrightarrow> ctl_ok c'" and "ct_wbuflen c \<le> ct_wbuflen c'"
proof -
  let ?shift = "\<lambda>i. c\<lparr>ct_rbuf := drop i (ct_rbuf c) @ drop (MLVPN_CTRL_BUFSIZ - i) (ct_rbuf c), ct_rbufpos := ct_rbufpos c - (i + 1)\<rparr>"
  have "(\<not> found \<and> ct_rbufpos c' = ct_rbufpos c \<and> ct_wbuflen c \<le> ct_wbuflen c' \<and> (ctl_ok c \<longrightarrow> ctl_ok c')) \<or> (\<exists>i line. i < ct_rbufpos c \<and> wrote (?shift i) c')"
  proof (cases "control_scan 0 (take (ct_rbufpos c) (ct_rbuf c))")
    case None
    then show ?thesis using assms by (simp add: mlvpn_control_read_check_def)
  next
    case (Some p)
    obtain i x where p: "p = (i, x)" by (cases p)
    have i: "i < ct_rbufpos c" using control_scan_bound Some p by fastforce
    show ?thesis
    proof (cases "x = MLVPN_CTRL_EOF")
      case True
      then show ?thesis using assms Some p by (auto simp: mlvpn_control_read_check_def)
    next
      case False
      then have "mlvpn_control_parse prog g (take i (ct_rbuf c) @ [NUL]) (?shift i) = Ok c'"
        using assms Some p by (auto simp: mlvpn_control_read_check_def obind_eq_Ok_iff)
      then show ?thesis using i wrote_parse by blast
    qed
  qed
  moreover have "ct_rbufpos c' = ct_rbufpos c - (i + 1)" "ct_wbuflen c \<le> ct_wbuflen c'" "ctl_ok c \<Longrightarrow> ctl_ok c'" if "i < ct_rbufpos c" "wrote (?shift i) c'" for i
  proof -
    show "ct_rbufpos c' = ct_rbufpos c - (i + 1)" "ct_wbuflen c \<le> ct_wbuflen c'" using that(2) by (simp_all add: wrote_def reading_def)
    assume "ctl_ok c"
    then have "ctl_ok (?shift i)" using that(1) by (auto simp: ctl_ok_def)
    then show "ctl_ok c'" using that(2) by (simp add: wrote_def)
  qed
  ultimately show "found \<Longrightarrow> ct_rbufpos c' < ct_rbufpos c" "ct_rbufpos c' \<le> ct_rbufpos c" "ctl_ok c \<Longrightarrow> ctl_ok c'" "ct_wbuflen c \<le> ct_wbuflen c'"
    by (elim disjE exE conjE; simp)+
qed

lemma control_loop_ends:
  "\<exists>r. control_loop prog g c = Some r \<and> (\<forall>c'. r = Ok c' \<longrightarrow> ct_rbufpos c' \<le> ct_rbufpos c \<and> ct_wbuflen c \<le> ct_wbuflen c' \<and> (ctl_ok c \<longrightarrow> ctl_ok c'))"
proof (induction "ct_rbufpos c" arbitrary: c rule: less_induct)
  case less
  show ?case
  proof (cases "mlvpn_control_read_check prog g c")
    case (Ok p)
    obtain found c1 where p: "p = (found, c1)" by (cases p)
    note step = read_check_step [OF Ok [unfolded p]]
    show ?thesis
    proof (cases found)
      case True
      obtain r where r: "control_loop prog g c1 = Some r" "\<forall>c'. r = Ok c' \<longrightarrow> ct_rbufpos c' \<le> ct_rbufpos c1 \<and> ct_wbuflen c1 \<le> ct_wbuflen c' \<and> (ctl_ok c1 \<longrightarrow> ctl_ok c')"
        using less.hyps [OF step(1) [OF True]] by blast
      have "control_loop prog g c = Some r" using Ok p True r(1) by (subst control_loop.simps) simp
      then show ?thesis using r(2) step(2-4) by fastforce
    next
      case False
      then have "control_loop prog g c = Some (Ok c1)" using Ok p by (subst control_loop.simps) simp
      then show ?thesis using step(2-4) by auto
    qed
  qed (subst control_loop.simps, simp)+
qed

section \<open>Events\<close>

text \<open>What libev calls back for, with the answers of the system.\<close>

datatype control_event =
    ControlAccept control_sys int int int
  | ControlTimeout int
  | ControlRead string config_state int client_read
  | ControlWrite int

definition control_handle :: "control_event \<Rightarrow> mlvpn_control \<Rightarrow> mlvpn_control outcome option" where
  "control_handle ev c = (case ev of
       ControlAccept Y cfd now fd \<Rightarrow> Some (Ok (snd (mlvpn_control_accept Y cfd now fd c)))
     | ControlTimeout now \<Rightarrow> Some (Ok (snd (mlvpn_control_timeout now c)))
     | ControlRead prog g now r \<Rightarrow> mlvpn_control_read prog g now r c
     | ControlWrite ret \<Rightarrow> Some (Ok (snd (mlvpn_control_send ret c))))"

definition control_enabled :: "control_event \<Rightarrow> mlvpn_control \<Rightarrow> bool" where
  "control_enabled ev c = (case ev of
       ControlAccept Y cfd now fd \<Rightarrow> fd = ct_fifofd c \<and> ct_fifo_watcher c \<or> fd = ct_sockfd c \<and> ct_sock_watcher c
     | ControlTimeout now \<Rightarrow> ct_timeout_watcher c
     | ControlRead prog g now r \<Rightarrow> ct_client_io_read c
     | ControlWrite ret \<Rightarrow> ct_client_io_write c)"

text \<open>The states of a control socket: \<^verbatim>\<open>main\<close> leaves the structure uninitialised but for the sockets, so the positions are only meaningful with a client.\<close>

inductive control_run :: "mlvpn_control \<Rightarrow> bool" where
  init: "ct_mode c \<noteq> MLVPN_CONTROL_DISABLED \<Longrightarrow> length (ct_rbuf c) = MLVPN_CTRL_BUFSIZ \<Longrightarrow> length mem = 4096 \<Longrightarrow>
     control_run (mlvpn_control_init Y mem c)"
| event: "control_run c \<Longrightarrow> control_enabled ev c \<Longrightarrow> control_handle ev c = Some (Ok c') \<Longrightarrow> control_run c'"

definition client_ok :: "mlvpn_control \<Rightarrow> bool" where
  "client_ok c \<longleftrightarrow> length (ct_rbuf c) = MLVPN_CTRL_BUFSIZ \<and> length (ct_wbuf c) = ct_wbuflen c \<and> 4096 \<le> ct_wbuflen c \<and> ct_wbuflen c < 2 ^ 31 \<and>
     (ct_client_io_read c \<or> ct_client_io_write c \<longrightarrow> ctl_ok c \<and> ct_rbufpos c < MLVPN_CTRL_BUFSIZ)"

lemma fifo_fields:
  "ct_rbuf (control_fifo Y c) = ct_rbuf c" "ct_wbuf (control_fifo Y c) = ct_wbuf c" "ct_wbuflen (control_fifo Y c) = ct_wbuflen c"
  "ct_client_io_read (control_fifo Y c) = ct_client_io_read c" "ct_client_io_write (control_fifo Y c) = ct_client_io_write c"
  by (simp_all add: control_fifo_def call_def Let_def)

lemma inet_fields:
  "ct_rbuf (control_inet Y as c) = ct_rbuf c" "ct_wbuf (control_inet Y as c) = ct_wbuf c" "ct_wbuflen (control_inet Y as c) = ct_wbuflen c"
  "ct_client_io_read (control_inet Y as c) = ct_client_io_read c" "ct_client_io_write (control_inet Y as c) = ct_client_io_write c"
  by (induction "as" arbitrary: c) (simp_all add: call_def Let_def)

lemma listen_fields:
  "ct_rbuf (snd (control_listen Y fd c)) = ct_rbuf c" "ct_wbuf (snd (control_listen Y fd c)) = ct_wbuf c"
  "ct_wbuflen (snd (control_listen Y fd c)) = ct_wbuflen c" "ct_client_io_read (snd (control_listen Y fd c)) = ct_client_io_read c"
  "ct_client_io_write (snd (control_listen Y fd c)) = ct_client_io_write c"
  by (simp_all add: control_listen_def call_def)

lemma init_client_ok:
  assumes "ct_mode c \<noteq> MLVPN_CONTROL_DISABLED" and "length (ct_rbuf c) = MLVPN_CTRL_BUFSIZ" and "length mem = 4096"
  shows "client_ok (mlvpn_control_init Y mem c)"
  using assms by (simp add: mlvpn_control_init_def client_ok_def Let_def split_beta fifo_fields inet_fields listen_fields)

lemma accept_client_ok: "client_ok c \<Longrightarrow> client_ok (snd (mlvpn_control_accept Y cfd now fd c))"
  by (simp add: mlvpn_control_accept_def client_ok_def ctl_ok_def call_def Let_def)

lemma close_client_watchers [simp]:
  "\<not> ct_client_io_read (mlvpn_control_close_client c)" "\<not> ct_client_io_write (mlvpn_control_close_client c)"
  by (simp_all add: mlvpn_control_close_client_def call_def Let_def)

lemma closed_client_ok: "ctl_ok c \<and> 4096 \<le> ct_wbuflen c \<or> client_ok c \<Longrightarrow> client_ok (mlvpn_control_close_client c)"
  by (auto simp: client_ok_def ctl_ok_def)

lemma timeout_client_ok: "client_ok c \<Longrightarrow> client_ok (snd (mlvpn_control_timeout now c))"
  by (simp add: mlvpn_control_timeout_def closed_client_ok)

lemma ctl_client_ok: "ctl_ok c \<Longrightarrow> 4096 \<le> ct_wbuflen c \<Longrightarrow> ct_rbufpos c < MLVPN_CTRL_BUFSIZ \<Longrightarrow> client_ok c"
  by (simp add: client_ok_def ctl_ok_def)

lemma send_fields: "ct_rbufpos (snd (mlvpn_control_send ret c)) = ct_rbufpos c" "ct_wbuflen (snd (mlvpn_control_send ret c)) = ct_wbuflen c"
  by (simp_all add: mlvpn_control_send_def Let_def call_def)

lemma read_client_ok:
  assumes "ctl_ok c" and "4096 \<le> ct_wbuflen c" and "ct_rbufpos c < MLVPN_CTRL_BUFSIZ"
  shows "\<exists>r. mlvpn_control_read prog g now x c = Some r \<and> (\<forall>c'. r = Ok c' \<longrightarrow> client_ok c')"
proof (cases x)
  case (ClientError again)
  then show ?thesis using ctl_client_ok [OF assms] closed_client_ok [of c] assms(1,2) by (simp add: mlvpn_control_read_def)
next
  case (ClientData data)
  define bs where "bs = take (MLVPN_CTRL_BUFSIZ - ct_rbufpos c) data"
  define c1 where "c1 = c\<lparr>ct_rbuf := patch (ct_rbuf c) (ct_rbufpos c) bs, ct_last_activity := now, ct_rbufpos := ct_rbufpos c + length bs\<rparr>"
  have fits: "ct_rbufpos c + length bs \<le> length (ct_rbuf c)" using assms by (auto simp: bs_def ctl_ok_def)
  have c1: "ctl_ok c1" "4096 \<le> ct_wbuflen c1" using assms(1,2) fits by (simp_all add: c1_def ctl_ok_def)
  have read: "mlvpn_control_read prog g now x c = (if bs = [] then Some (Ok (c\<lparr>ct_clientfd := - 1\<rparr>))
     else if MLVPN_CTRL_BUFSIZ \<le> ct_rbufpos c1 then Some (Ok (mlvpn_control_close_client c1)) else control_loop prog g c1)"
    using fits by (simp only: mlvpn_control_read_def ClientData client_read.case Let_def bs_def [symmetric] c1_def [symmetric] if_True)
  consider "bs = []" | "bs \<noteq> []" "MLVPN_CTRL_BUFSIZ \<le> ct_rbufpos c1" | "bs \<noteq> []" "ct_rbufpos c1 < MLVPN_CTRL_BUFSIZ" by linarith
  then show ?thesis
  proof cases
    case 1
    have "client_ok (c\<lparr>ct_clientfd := - 1\<rparr>)" using assms by (simp add: client_ok_def ctl_ok_def)
    then show ?thesis using read 1 by simp
  next
    case 2
    then show ?thesis using read closed_client_ok [of c1] c1 by simp
  next
    case 3
    obtain r where "control_loop prog g c1 = Some r" "\<forall>c'. r = Ok c' \<longrightarrow> ct_rbufpos c' \<le> ct_rbufpos c1 \<and> ct_wbuflen c1 \<le> ct_wbuflen c' \<and> (ctl_ok c1 \<longrightarrow> ctl_ok c')"
      using control_loop_ends by blast
    then show ?thesis using read 3 c1 by (auto intro!: ctl_client_ok)
  qed
qed

lemma handle_client_ok:
  assumes "client_ok c" and "control_enabled ev c"
  shows "\<exists>r. control_handle ev c = Some r \<and> (\<forall>c'. r = Ok c' \<longrightarrow> client_ok c')"
proof (cases ev)
  case (ControlRead prog g now r)
  then have "ctl_ok c \<and> 4096 \<le> ct_wbuflen c \<and> ct_rbufpos c < MLVPN_CTRL_BUFSIZ" using assms by (simp add: client_ok_def control_enabled_def)
  then show ?thesis using read_client_ok ControlRead by (simp add: control_handle_def)
next
  case (ControlWrite ret)
  then have "ctl_ok c \<and> 4096 \<le> ct_wbuflen c \<and> ct_rbufpos c < MLVPN_CTRL_BUFSIZ" using assms by (simp add: client_ok_def control_enabled_def)
  then have "client_ok (snd (mlvpn_control_send ret c))" using control_send_ok [of c ret] by (intro ctl_client_ok) (simp_all add: send_fields)
  then show ?thesis using ControlWrite by (simp add: control_handle_def)
qed (use assms in \<open>simp_all add: control_handle_def accept_client_ok timeout_client_ok\<close>)

lemma control_run_ok: "control_run c \<Longrightarrow> client_ok c"
proof (induction rule: control_run.induct)
  case (init c mem Y)
  then show ?case by (rule init_client_ok)
next
  case (event c ev c')
  then show ?case using handle_client_ok [OF event.IH event.hyps(2)] by auto
qed

section \<open>One line per read\<close>

lemma parse_nothing: "mlvpn_control_parse prog g [NUL] c = Ok c"
  by (simp add: mlvpn_control_parse_def control_command_def cstr_def strtok_def)

text \<open>The buffer is shifted by the line without its line feed, so what follows the line is read as empty lines and dropped.\<close>

lemma control_loop_drains:
  assumes "length (ct_rbuf c) = MLVPN_CTRL_BUFSIZ" and "ct_rbuf c = LF # xs"
  shows "control_loop prog g c = Some (Ok (c\<lparr>ct_rbufpos := 0\<rparr>))"
  using assms
proof (induction "ct_rbufpos c" arbitrary: c)
  case 0
  then have "mlvpn_control_read_check prog g c = Ok (False, c)" by (simp add: mlvpn_control_read_check_def)
  then show ?case using 0 by (subst control_loop.simps) simp
next
  case (Suc n)
  let ?c1 = "c\<lparr>ct_rbufpos := n\<rparr>"
  have "take (ct_rbufpos c) (ct_rbuf c) = LF # take n xs" using Suc.hyps(2) [symmetric] Suc.prems(2) by simp
  moreover have "c\<lparr>ct_rbuf := ct_rbuf c, ct_rbufpos := n\<rparr> = ?c1" by simp
  ultimately have "mlvpn_control_read_check prog g c = Ok (True, ?c1)"
    using Suc.hyps(2) [symmetric] Suc.prems(1) parse_nothing by (simp add: mlvpn_control_read_check_def)
  moreover have "control_loop prog g ?c1 = Some (Ok (?c1\<lparr>ct_rbufpos := 0\<rparr>))" using Suc by (intro Suc.hyps(1)) simp_all
  ultimately show ?case by (subst control_loop.simps) simp
qed

lemma control_loop_first_line:
  assumes l: "length (ct_rbuf c) = MLVPN_CTRL_BUFSIZ" "ct_rbufpos c \<le> MLVPN_CTRL_BUFSIZ" and b: "take (ct_rbufpos c) (ct_rbuf c) = line @ LF # rest"
    and no: "LF \<notin> set line" "MLVPN_CTRL_EOF \<notin> set line"
  shows "\<exists>buf. length buf = MLVPN_CTRL_BUFSIZ \<and> control_loop prog g c =
     Some (obind (mlvpn_control_parse prog g (line @ [NUL]) (c\<lparr>ct_rbuf := buf, ct_rbufpos := length rest\<rparr>)) (\<lambda>c1. Ok (c1\<lparr>ct_rbufpos := 0\<rparr>)))"
proof -
  define i where "i = length line"
  obtain r where pre: "ct_rbuf c = line @ LF # rest @ r" using b append_take_drop_id [of "ct_rbufpos c" "ct_rbuf c"] by (metis append.assoc append_Cons)
  have pos: "ct_rbufpos c = i + 1 + length rest" using arg_cong [OF b, of length] l by (simp add: i_def)
  define buf where "buf = drop i (ct_rbuf c) @ drop (MLVPN_CTRL_BUFSIZ - i) (ct_rbuf c)"
  define c0 where "c0 = c\<lparr>ct_rbuf := buf, ct_rbufpos := length rest\<rparr>"
  have buf: "buf = LF # tl buf" "length buf = MLVPN_CTRL_BUFSIZ" using l pos by (simp_all add: buf_def pre i_def)
  have c0: "c\<lparr>ct_rbuf := buf, ct_rbufpos := ct_rbufpos c - (i + 1)\<rparr> = c0" using pos by (simp add: c0_def)
  have line: "take i (ct_rbuf c) = line" by (simp add: pre i_def)
  have check: "mlvpn_control_read_check prog g c = obind (mlvpn_control_parse prog g (line @ [NUL]) c0) (\<lambda>c1. Ok (True, c1))"
    unfolding mlvpn_control_read_check_def b control_scan_first [OF no]
    by (simp only: option.case prod.case add_0 i_def [symmetric] line buf_def [symmetric] c0) simp
  have "control_loop prog g c = Some (obind (mlvpn_control_parse prog g (line @ [NUL]) c0) (\<lambda>c1. Ok (c1\<lparr>ct_rbufpos := 0\<rparr>)))"
  proof (cases "mlvpn_control_parse prog g (line @ [NUL]) c0")
    case (Ok c1)
    then have "ct_rbuf c1 = buf" using wrote_parse [OF Ok] by (simp add: wrote_def reading_def c0_def)
    then have "control_loop prog g c1 = Some (Ok (c1\<lparr>ct_rbufpos := 0\<rparr>))" using control_loop_drains [of c1 "tl buf"] buf by simp
    then show ?thesis using check Ok by (subst control_loop.simps) simp
  qed (use check in \<open>subst control_loop.simps, simp\<close>)+
  then show ?thesis using buf(2) unfolding c0_def by blast
qed

section \<open>The status reply\<close>

text \<open>The text of the whole reply.\<close>

definition u32_of :: "double \<Rightarrow> u32" where
  "u32_of x = of_int (if x < 0 then 0 else \<lfloor>x\<rfloor>)"

fun rtun_texts :: "daemon \<Rightarrow> nat list \<Rightarrow> string" where
  "rtun_texts d [] = []"
| "rtun_texts d (i # is) =
     JSON_STATUS_RTUN (tun d i) (the (t_name (tun d i))) (u32_of (t_srtt (tun d i))) (u32_of (t_last_activity (tun d i))) (is \<noteq> []) @ rtun_texts d is"

definition status_text :: "string \<Rightarrow> config_state \<Rightarrow> string" where
  "status_text prog g = status_base prog g @ rtun_texts (cs_daemon g) (d_rtuns (cs_daemon g)) @ '']}'' @ [LF]"

text \<open>A tunnel whose strings fit their arrays and whose times can be converted.\<close>

definition printable :: "mlvpn_tunnel_t \<Rightarrow> bool" where
  "printable t \<longleftrightarrow> (\<exists>n. t_name t = Some n \<and> length n < 30) \<and> length (t_bindaddr t) < MLVPN_MAXHNAMSTR \<and> length (t_destaddr t) < MLVPN_MAXHNAMSTR \<and>
     length (t_bindport t) < MLVPN_MAXPORTSTR \<and> length (t_destport t) < MLVPN_MAXPORTSTR \<and>
     - 1 < t_srtt t \<and> t_srtt t < 2 ^ 32 \<and> - 1 < t_last_activity t \<and> t_last_activity t < 2 ^ 32"

lemma length_show_nat: "0 < k \<Longrightarrow> n < 10 ^ k \<Longrightarrow> length (show_nat n) \<le> k"
proof (induction k arbitrary: n)
  case (Suc k)
  show ?case
  proof (cases "n < 10")
    case True
    then show ?thesis by (subst show_nat.simps) simp
  next
    case False
    then have "0 < k" using Suc.prems(2) by (cases k) auto
    moreover have "n div 10 < 10 ^ k" using Suc.prems(2) by (simp add: div_less_iff_less_mult mult.commute)
    ultimately show ?thesis using False Suc.IH by (subst show_nat.simps) simp
  qed
qed simp

lemma length_fmt: "length (fmt_u (w :: u64)) \<le> 20" "length (fmt_u (v :: u32)) \<le> 10"
proof -
  have "unat w < 10 ^ 20" using unsigned_less [where 'a = nat, of w] by simp
  then show "length (fmt_u w) \<le> 20" unfolding fmt_u_def by (rule length_show_nat [rotated]) simp
  have "unat v < 10 ^ 10" using unsigned_less [where 'a = nat, of v] by simp
  then show "length (fmt_u v) \<le> 10" unfolding fmt_u_def by (rule length_show_nat [rotated]) simp
qed

lemma length_rtun_text:
  assumes "printable t"
  shows "length (JSON_STATUS_RTUN t (the (t_name t)) a b comma) \<le> 1001"
proof -
  have s: "length (status_name (t_status t)) \<le> 12" by (simp add: status_name_def split: chap_status.split)
  have t: "length (the (t_name t)) \<le> 29" "length (t_bindaddr t) \<le> 255" "length (t_destaddr t) \<le> 255" "length (t_bindport t) \<le> 5" "length (t_destport t) \<le> 5"
    using assms by (auto simp: printable_def)
  have "length (JSON_STATUS_RTUN t (the (t_name t)) a b comma) \<le> 302 + length (the (t_name t)) + 6 + length (t_bindaddr t) + length (t_bindport t) +
      length (t_destaddr t) + length (t_destport t) + length (status_name (t_status t)) + length (fmt_u (t_sentpackets t)) + length (fmt_u (t_recvpackets t)) +
      length (fmt_u (t_sentbytes t)) + length (fmt_u (t_recvbytes t)) + 1 + length (fmt_u a) + length (fmt_u (of_int (mlvpn_loss_ratio t) :: u32)) +
      length (fmt_u (of_int (t_disconnects t) :: u32)) + length (fmt_u b) + length (fmt_u (t_timeout t)) + 1"
    by (simp add: JSON_STATUS_RTUN_def json_line_def quoted_def)
  also have "\<dots> \<le> 1001" using s t length_fmt(1) [of "t_sentpackets t"] length_fmt(1) [of "t_recvpackets t"] length_fmt(1) [of "t_sentbytes t"]
      length_fmt(1) [of "t_recvbytes t"] length_fmt(2) [of a] length_fmt(2) [of b] length_fmt(2) [of "of_int (mlvpn_loss_ratio t)"]
      length_fmt(2) [of "of_int (t_disconnects t)"] length_fmt(2) [of "t_timeout t"] by linarith
  finally show ?thesis .
qed

lemma length_status_base:
  assumes "length prog < 256" and "length (d_devname (cs_daemon g)) < MLVPN_IFNAMSIZ"
  shows "length (status_base prog g) \<le> 420"
proof -
  have "length (status_base prog g) \<le> 130 + length prog + length (d_devname (cs_daemon g)) +
      length (fmt_u (of_int (st_start_time (d_status (cs_daemon g))) :: u32)) + length (fmt_u (of_int (st_last_reload (d_status (cs_daemon g))) :: u32))"
    by (simp add: status_base_def json_line_def quoted_def)
  then show ?thesis using assms length_fmt(2) [of "of_int (st_start_time (d_status (cs_daemon g)))"]
    length_fmt(2) [of "of_int (st_last_reload (d_status (cs_daemon g)))"] by linarith
qed

lemma length_rtun_texts: "\<forall>i \<in> set is. printable (tun d i) \<Longrightarrow> length (rtun_texts d is) \<le> 1001 * length is"
proof (induction "is")
  case (Cons i "is")
  have "length (rtun_texts d (i # is)) \<le> 1001 + length (rtun_texts d is)" using Cons.prems length_rtun_text [of "tun d i"] by simp
  then show ?case using Cons by simp
qed simp

text \<open>Writes that fit are one write.\<close>

lemma stored_stored:
  assumes "ctl_ok c" and "ct_wbufpos c + length xs \<le> ct_wbuflen c"
  shows "stored ys (stored xs c) = stored (xs @ ys) c"
  using assms by (simp add: stored_def ctl_ok_def patch_def add_ac)

lemma write_fits:
  assumes "ctl_ok c" and "ct_wbufpos c + length xs < ct_wbuflen c"
  shows "mlvpn_control_write xs c = Ok (stored xs c)"
  using assms by (intro control_write_cases(1)) (simp_all add: ctl_ok_def)

lemma writef_fits:
  assumes "ctl_ok c" and "ct_wbufpos c + length xs < ct_wbuflen c" and "length xs < 1024"
  shows "control_writef xs c = Ok (stored xs c)"
  using assms by (simp add: control_writef_def fit_def write_fits)

lemma write_rtuns_fits:
  assumes "ctl_ok c" and "\<forall>i \<in> set is. printable (tun d i)" and "ct_wbufpos c + length (rtun_texts d is) < ct_wbuflen c"
  shows "write_rtuns d is c = Ok (if is = [] then c else stored (rtun_texts d is) c)"
  using assms
proof (induction "is" arbitrary: c)
  case (Cons i "is")
  define t where "t = JSON_STATUS_RTUN (tun d i) (the (t_name (tun d i))) (u32_of (t_srtt (tun d i))) (u32_of (t_last_activity (tun d i))) (is \<noteq> [])"
  have texts: "rtun_texts d (i # is) = t @ rtun_texts d is" by (simp add: t_def)
  have room: "ct_wbufpos c + length t + length (rtun_texts d is) < ct_wbuflen c" using Cons.prems(3) unfolding texts by simp
  have rtun: "status_rtun (tun d i) (is \<noteq> []) = Ok t"
    using Cons.prems(2) by (auto simp: status_rtun_def printable_def to_u32_def u32_of_def t_def)
  have "length t \<le> 1001" unfolding t_def using Cons.prems(2) by (intro length_rtun_text) simp
  then have w: "control_writef t c = Ok (stored t c)" using Cons.prems(1) room by (intro writef_fits) simp_all
  have "ctl_ok (stored t c)" "ct_wbuflen (stored t c) = ct_wbuflen c" "ct_wbufpos (stored t c) = ct_wbufpos c + length t"
    using stored_ok [OF Cons.prems(1), of t] room by (auto simp: stored_def)
  then have "write_rtuns d is (stored t c) = Ok (if is = [] then stored t c else stored (rtun_texts d is) (stored t c))"
    using Cons.prems(2) room by (intro Cons.IH) simp_all
  then have "write_rtuns d (i # is) c = Ok (if is = [] then stored t c else stored (rtun_texts d is) (stored t c))"
    by (simp only: write_rtuns.simps rtun w obind.simps)
  moreover have "stored (rtun_texts d is) (stored t c) = stored (t @ rtun_texts d is) c" by (rule stored_stored [OF Cons.prems(1)]) (use room in simp)
  ultimately show ?case unfolding texts by (cases "is") simp_all
qed simp

lemma write_status_fits:
  assumes c: "ctl_ok c" and t: "\<forall>i \<in> set (d_rtuns (cs_daemon g)). printable (tun (cs_daemon g) i)" and p: "length prog < 256"
    and d: "length (d_devname (cs_daemon g)) < MLVPN_IFNAMSIZ" and room: "ct_wbufpos c + length (status_text prog g) < ct_wbuflen c"
  shows "mlvpn_control_write_status prog g c = Ok (stored (status_text prog g) c)"
proof -
  let ?b = "status_base prog g" and ?r = "rtun_texts (cs_daemon g) (d_rtuns (cs_daemon g))" and ?e = "'']}'' @ [LF]"
  have l: "ct_wbufpos c + length ?b + length ?r + length ?e < ct_wbuflen c" using room by (simp add: status_text_def)
  have b: "control_writef ?b c = Ok (stored ?b c)" using l length_status_base [OF p d] by (intro writef_fits [OF c]) auto
  have 1: "ctl_ok (stored ?b c)" "ct_wbuflen (stored ?b c) = ct_wbuflen c" "ct_wbufpos (stored ?b c) = ct_wbufpos c + length ?b"
    using stored_ok [OF c, of ?b] l by (auto simp: stored_def)
  define c2 where "c2 = stored ?r (stored ?b c)"
  have r: "write_rtuns (cs_daemon g) (d_rtuns (cs_daemon g)) (stored ?b c) = Ok (if d_rtuns (cs_daemon g) = [] then stored ?b c else c2)"
    unfolding c2_def by (rule write_rtuns_fits [OF 1(1) t]) (use 1(2,3) l in simp)
  have same: "(if d_rtuns (cs_daemon g) = [] then stored ?b c else c2) = c2" by (simp add: c2_def stored_def)
  have 2: "c2 = stored (?b @ ?r) c" unfolding c2_def by (rule stored_stored [OF c]) (use l in simp)
  have 3: "ctl_ok c2" "ct_wbuflen c2 = ct_wbuflen c" "ct_wbufpos c2 = ct_wbufpos c + length (?b @ ?r)"
    using stored_ok [OF c, of "?b @ ?r"] l unfolding 2 by (auto simp: stored_def)
  have "mlvpn_control_write ?e c2 = Ok (stored ?e c2)" by (rule write_fits [OF 3(1)]) (use 3(2,3) l in simp)
  moreover have "stored ?e c2 = stored (status_text prog g) c" unfolding 2 status_text_def by (subst stored_stored [OF c]) (use l in simp_all)
  ultimately show ?thesis using b r unfolding same by (simp only: mlvpn_control_write_status_def obind.simps)
qed

section \<open>Properties of the control socket\<close>

lemma parse_status_fits:
  assumes c: "ctl_ok c" "ct_wbufpos c = 0" "4096 \<le> ct_wbuflen c" and cmd: "control_command (ct_http c) line = Some cmd" "same_word cmd ''status'' \<or> same_word cmd ''/status''"
    and t: "\<forall>i \<in> set (d_rtuns (cs_daemon g)). printable (tun (cs_daemon g) i)" and n: "length (d_rtuns (cs_daemon g)) \<le> 3" and p: "length prog < 256"
    and d: "length (d_devname (cs_daemon g)) < MLVPN_IFNAMSIZ"
  shows "\<exists>c'. mlvpn_control_parse prog g line c = Ok c' \<and> ctl_ok c' \<and> sent_to_client c' = sent_to_client c \<and>
     unsent c' = (if ct_http c then HTTP_HEADERS else []) @ status_text prog g"
proof -
  define h where "h = (if ct_http c then HTTP_HEADERS else [])"
  have lH: "length HTTP_HEADERS \<le> 140" by (simp add: HTTP_HEADERS_def)
  then have lh: "length h \<le> 140" by (simp add: h_def)
  have ls: "length (status_text prog g) \<le> 420 + 1001 * 3 + 3"
    using length_status_base [OF p d] length_rtun_texts [OF t] n by (simp add: status_text_def)
  define c1 where "c1 = (if ct_http c then stored HTTP_HEADERS c else c)"
  have w: "(if ct_http c then mlvpn_control_write HTTP_HEADERS c else Ok c) = Ok c1"
    using write_fits [OF c(1), of HTTP_HEADERS] lH c(2,3) by (simp add: c1_def)
  have "unsent c = []" using c(2) by (simp add: unsent_def)
  then have 1: "ctl_ok c1" "unsent c1 = h" "sent_to_client c1 = sent_to_client c" "ct_wbuflen c1 = ct_wbuflen c" "ct_wbufpos c1 = length h"
    using c stored_ok [OF c(1), of HTTP_HEADERS] lH by (auto simp: c1_def h_def stored_def)
  have st: "mlvpn_control_write_status prog g c1 = Ok (stored (status_text prog g) c1)"
    by (rule write_status_fits [OF 1(1) t p d]) (use 1(4,5) lh ls c(3) in simp)
  have 2: "ctl_ok (stored (status_text prog g) c1)" "unsent (stored (status_text prog g) c1) = h @ status_text prog g"
    "sent_to_client (stored (status_text prog g) c1) = sent_to_client c"
    using stored_ok [OF 1(1), of "status_text prog g"] 1 lh ls c(3) by simp_all
  define c2 where "c2 = stored (status_text prog g) c1"
  have "mlvpn_control_parse prog g line c = Ok (if ct_http c then c2\<lparr>ct_close_after_write := True\<rparr> else c2)"
    using cmd(2) by (simp only: mlvpn_control_parse_def cmd(1) option.case w obind.simps st if_True c2_def)
  then show ?thesis using 2 by (simp add: c2_def h_def ctl_ok_def unsent_def sent_to_client_def)
qed

lemma command_terminator [simp]: "control_command http (line @ [NUL]) = control_command http line"
proof -
  have "cstr (line @ [NUL]) = cstr line" unfolding cstr_def by (induction line) simp_all
  then show ?thesis by (simp add: control_command_def)
qed


text \<open>A control socket on a path, with a client.\<close>

definition ex_csys :: control_sys where
  "ex_csys = \<lparr>cy_getfl = (\<lambda>fd. 0), cy_setfl = (\<lambda>fd fl. 0), cy_local = 5, cy_bind_local = (\<lambda>fd p. 0), cy_getaddrinfo = (\<lambda>h p. []), cy_socket = (\<lambda>a. 6),
     cy_reuseaddr = (\<lambda>fd. 0), cy_nodelay = (\<lambda>fd. 0), cy_bind = (\<lambda>fd a. 0), cy_listen = (\<lambda>fd. 0)\<rparr>"

definition ex_control :: mlvpn_control where
  "ex_control = mlvpn_control_init ex_csys (replicate 4096 NUL) \<lparr>ct_mode = MLVPN_CONTROL_READWRITE, ct_fifo_path = ''/run/m'', ct_fifofd = 0, ct_bindaddr = [],
     ct_bindport = [], ct_sockfd = 0, ct_clientfd = 0, ct_last_activity = 0, ct_rbuf = replicate 1024 NUL, ct_rbufpos = 0, ct_wbuf = [], ct_wbuflen = 0,
     ct_wbufpos = 0, ct_http = True, ct_close_after_write = True, ct_fifo_watcher = True, ct_sock_watcher = True, ct_client_io_read = True,
     ct_client_io_write = True, ct_timeout_watcher = True, ct_calls = []\<rparr>"

definition ex_client :: mlvpn_control where
  "ex_client = snd (mlvpn_control_accept ex_csys 7 100 5 ex_control)"

definition ex_config :: config_state where
  "ex_config = \<lparr>cs_daemon = ex_node True, cs_status_command = None, cs_tuntap_type = 0, cs_init_script = []\<rparr>"

lemma ex_client_run: "control_run ex_client"
proof (rule control_run.event [where ev = "ControlAccept ex_csys 7 100 5"])
  show "control_run ex_control" unfolding ex_control_def by (rule control_run.init) simp_all
  show "control_enabled (ControlAccept ex_csys 7 100 5) ex_control"
    by (simp add: control_enabled_def ex_control_def mlvpn_control_init_def control_fifo_def control_listen_def mlvpn_sock_set_nonblocking_def ex_csys_def call_def)
qed (simp add: control_handle_def ex_client_def)

lemma ex_client_fields: "ct_client_io_read ex_client" "ct_rbufpos ex_client = 0" "ct_wbufpos ex_client = 0" "\<not> ct_http ex_client"
  by (simp_all add: ex_client_def mlvpn_control_accept_def ex_control_def mlvpn_control_init_def control_fifo_def control_listen_def
      mlvpn_sock_set_nonblocking_def ex_csys_def call_def)


text \<open>
  C26: A client gets the status of the daemon: with at most three tunnels, when a client that has nothing pending sends a line with the command \<open>status\<close> in any case, plainly or as the
  path of an HTTP request, then however the replies are cut by the socket, what it has got and what is still to be sent together are exactly the reply, the HTTP headers first if this
  is an HTTP socket.
\<close>

theorem control_status_delivered:
  assumes run: "control_run c" and io: "ct_client_io_read c" "ct_rbufpos c = 0" "ct_wbufpos c = 0"
    and line: "LF \<notin> set line" "MLVPN_CTRL_EOF \<notin> set line" "length line < 1023"
    and cmd: "control_command (ct_http c) line = Some cmd" "same_word cmd ''status'' \<or> same_word cmd ''/status''"
    and t: "\<forall>i \<in> set (d_rtuns (cs_daemon g)). printable (tun (cs_daemon g) i)" "length (d_rtuns (cs_daemon g)) \<le> 3"
    and p: "length prog < 256" "length (d_devname (cs_daemon g)) < MLVPN_IFNAMSIZ"
  shows "\<exists>c'. mlvpn_control_read prog g now (ClientData (line @ [LF])) c = Some (Ok c') \<and>
     (\<forall>rets. let c'' = foldl (\<lambda>c ret. snd (mlvpn_control_send ret c)) c' rets in
        sent_to_client c'' @ unsent c'' = sent_to_client c @ (if ct_http c then HTTP_HEADERS else []) @ status_text prog g)"
proof -
  have ok: "ctl_ok c" "4096 \<le> ct_wbuflen c" using control_run_ok [OF run] io(1) by (simp_all add: client_ok_def)
  define c1 where "c1 = c\<lparr>ct_rbuf := patch (ct_rbuf c) 0 (line @ [LF]), ct_last_activity := now, ct_rbufpos := length line + 1\<rparr>"
  have c1: "length (ct_rbuf c1) = MLVPN_CTRL_BUFSIZ" "ct_rbufpos c1 \<le> MLVPN_CTRL_BUFSIZ" "take (ct_rbufpos c1) (ct_rbuf c1) = line @ LF # []"
    using ok(1) line(3) by (simp_all add: c1_def ctl_ok_def patch_def)
  obtain buf where buf: "length buf = MLVPN_CTRL_BUFSIZ" "control_loop prog g c1 =
     Some (obind (mlvpn_control_parse prog g (line @ [NUL]) (c1\<lparr>ct_rbuf := buf, ct_rbufpos := length ([] :: string)\<rparr>)) (\<lambda>c1. Ok (c1\<lparr>ct_rbufpos := 0\<rparr>)))"
    using control_loop_first_line [OF c1 line(1,2), of prog g] by blast
  define c2 where "c2 = c1\<lparr>ct_rbuf := buf, ct_rbufpos := length ([] :: string)\<rparr>"
  have c2: "ctl_ok c2" "ct_wbufpos c2 = 0" "4096 \<le> ct_wbuflen c2" "ct_http c2 = ct_http c" "sent_to_client c2 = sent_to_client c"
    using ok buf(1) io(3) by (simp_all add: c2_def c1_def ctl_ok_def sent_to_client_def)
  obtain c3 where c3: "mlvpn_control_parse prog g (line @ [NUL]) c2 = Ok c3" "ctl_ok c3" "sent_to_client c3 = sent_to_client c"
    "unsent c3 = (if ct_http c then HTTP_HEADERS else []) @ status_text prog g"
    using parse_status_fits [OF c2(1-3) _ cmd(2) t p, of "line @ [NUL]"] cmd(1) c2(4,5) by auto
  have "mlvpn_control_read prog g now (ClientData (line @ [LF])) c = control_loop prog g c1"
    using io(2) line(3) ok(1) by (simp add: mlvpn_control_read_def c1_def ctl_ok_def)
  also have "\<dots> = Some (Ok (c3\<lparr>ct_rbufpos := 0\<rparr>))" using buf(2) c3(1) by (simp add: c2_def)
  finally have read: "mlvpn_control_read prog g now (ClientData (line @ [LF])) c = Some (Ok (c3\<lparr>ct_rbufpos := 0\<rparr>))" .
  have c4: "ctl_ok (c3\<lparr>ct_rbufpos := 0\<rparr>)" "unsent (c3\<lparr>ct_rbufpos := 0\<rparr>) = unsent c3" "sent_to_client (c3\<lparr>ct_rbufpos := 0\<rparr>) = sent_to_client c3"
    using c3(2) by (simp_all add: ctl_ok_def unsent_def sent_to_client_def)
  show ?thesis using read client.flushes_ok [OF c4(1)] c4(2,3) c3(3,4) by (simp add: Let_def)
qed

theorem control_status_delivered_witness:
  "\<exists>c'. mlvpn_control_read ''mlvpn'' ex_config 100 (ClientData (''Status'' @ [CR, LF])) ex_client = Some (Ok c') \<and>
     sent_to_client (snd (mlvpn_control_send 10 c')) @ unsent (snd (mlvpn_control_send 10 c')) = sent_to_client ex_client @ status_text ''mlvpn'' ex_config"
proof -
  have "same_word ''Status'' ''status''" by code_simp
  then have "same_word ''Status'' ''status'' \<or> same_word ''Status'' ''/status''" by simp
  moreover have "control_command (ct_http ex_client) (''Status'' @ [CR]) = Some ''Status''"
    using ex_client_fields(4) by (simp add: control_command_def cstr_def strtok_def)
  moreover have "\<forall>i \<in> set (d_rtuns (cs_daemon ex_config)). printable (tun (cs_daemon ex_config) i)" "length (d_rtuns (cs_daemon ex_config)) \<le> 3"
      "length (d_devname (cs_daemon ex_config)) < MLVPN_IFNAMSIZ"
    by (simp_all add: ex_config_def printable_def ex_node_def rtun_new_struct_def tunnel_zero_def daemon_boot_def mlvpn_tuntap_init_def Let_def fit_def)
  moreover have "LF \<notin> set (''Status'' @ [CR])" "MLVPN_CTRL_EOF \<notin> set (''Status'' @ [CR])" "length (''Status'' @ [CR]) < 1023" "length ''mlvpn'' < 256" by simp_all
  ultimately obtain c' where c': "mlvpn_control_read ''mlvpn'' ex_config 100 (ClientData ((''Status'' @ [CR]) @ [LF])) ex_client = Some (Ok c')"
      "\<forall>rets. let c'' = foldl (\<lambda>c ret. snd (mlvpn_control_send ret c)) c' rets in
        sent_to_client c'' @ unsent c'' = sent_to_client ex_client @ (if ct_http ex_client then HTTP_HEADERS else []) @ status_text ''mlvpn'' ex_config"
    using control_status_delivered [OF ex_client_run ex_client_fields(1-3), of "''Status'' @ [CR]" "''Status''" ex_config "''mlvpn''" 100] by blast
  from c'(2) [rule_format, of "[10]"] c'(1) ex_client_fields(4) show ?thesis by (auto simp: Let_def)
qed

end
