(* ===== verification/Transit.thy ===== *)
theory Transit
  imports Handshake "HOL-Library.Multiset"
begin

text \<open>
  Two daemons and the network between them: what the device of one of them hands over comes out of the device of
  the other. \<open>slots\<close> says what the window of the reorder buffer holds after the packets with the numbers in a set
  have arrived, in whatever order.
\<close>

section \<open>What the window holds\<close>

definition slots :: "('e \<Rightarrow> 'a) \<Rightarrow> 'a list \<Rightarrow> nat set \<Rightarrow> nat \<Rightarrow> 'e option list \<Rightarrow> bool" where
  "slots pay ds A m w \<longleftrightarrow> (\<forall>i<length w. case w ! i of None \<Rightarrow> m + i \<notin> A | Some e \<Rightarrow> m + i \<in> A \<and> pay e = ds ! (m + i))"

lemma slots_Some: "slots pay ds A m w \<Longrightarrow> i < length w \<Longrightarrow> w ! i = Some e \<Longrightarrow> m + i \<in> A \<and> pay e = ds ! (m + i)"
  by (auto simp: slots_def split: option.splits)

lemma slots_None: "slots pay ds A m w \<Longrightarrow> i < length w \<Longrightarrow> w ! i = None \<longleftrightarrow> m + i \<notin> A"
  by (fastforce simp: slots_def split: option.splits)

lemma slots_insert:
  assumes w: "slots pay ds A m w" and x: "x < length w" and e: "pay' e = ds ! (m + x)"
    and same: "\<And>e'. Some e' \<in> set w \<Longrightarrow> pay' e' = pay e'"
  shows "slots pay' ds (insert (m + x) A) m (w[x := Some e])"
  unfolding slots_def
proof (intro allI impI)
  fix i assume "i < length (w[x := Some e])"
  then have i: "i < length w" by simp
  show "case w[x := Some e] ! i of None \<Rightarrow> m + i \<notin> insert (m + x) A
    | Some e \<Rightarrow> m + i \<in> insert (m + x) A \<and> pay' e = ds ! (m + i)"
    using i x e slots_Some [OF w i] slots_None [OF w i] same nth_mem [OF i]
    by (cases "i = x"; cases "w ! i") auto
qed

lemma slots_run:
  assumes w: "slots pay ds A m w" and ds: "A \<subseteq> {..<length ds}" "length ds \<le> m + length w"
  defines "j \<equiv> run_of w"
  shows "slots pay ds A (m + j) (drop j w @ replicate j None)" and "{m..<m + j} \<subseteq> A"
    and "map pay (map the (take j w)) = take j (drop m ds)"
proof -
  have j: "j \<le> length w" unfolding j_def by (rule run_of_le)
  have run: "\<exists>e. w ! i = Some e" if "i < j" for i
    using that nth_mem [of i "takeWhile (\<lambda>e. e \<noteq> None) w"] unfolding j_def by (auto simp: takeWhile_nth dest: set_takeWhileD)
  show sub: "{m..<m + j} \<subseteq> A"
  proof
    fix x assume "x \<in> {m..<m + j}"
    then have "x - m < j" "m + (x - m) = x" by auto
    then show "x \<in> A" using run [of "x - m"] slots_Some [OF w, of "x - m"] j by auto
  qed
  have "m + j \<le> length ds" if "0 < j"
  proof -
    have "m + j - 1 \<in> A" by (rule subsetD [OF sub]) (use that in auto)
    then show ?thesis using ds(1) that by auto
  qed
  then have len: "length (take j (drop m ds)) = j" by (cases "j = 0") auto
  show "map pay (map the (take j w)) = take j (drop m ds)"
  proof (rule nth_equalityI)
    fix i assume "i < length (map pay (map the (take j w)))"
    then have i: "i < j" "i < length w" using j by auto
    then obtain e where "w ! i = Some e" using run by blast
    then show "map pay (map the (take j w)) ! i = take j (drop m ds) ! i"
      using slots_Some [OF w i(2)] i len by simp
  qed (use j len in simp)
  show "slots pay ds A (m + j) (drop j w @ replicate j None)"
    unfolding slots_def
  proof (intro allI impI)
    fix i assume "i < length (drop j w @ replicate j None)"
    then have i: "i < length w" using j by simp
    show "case (drop j w @ replicate j None) ! i of None \<Rightarrow> m + j + i \<notin> A | Some e \<Rightarrow> m + j + i \<in> A \<and> pay e = ds ! (m + j + i)"
    proof (cases "i < length w - j")
      case True
      then have "j + i < length w" by simp
      then show ?thesis using w True by (auto simp: slots_def nth_append add.assoc split: option.splits)
    next
      case False
      then have "m + j + i \<notin> A" using ds by auto
      then show ?thesis using False i j by (simp add: nth_append)
    qed
  qed
qed

lemma entries_run:
  assumes "distinct (some_of w)"
  shows "{e. Some e \<in> set w} - set (map the (take (run_of w) w)) = {e. Some e \<in> set (drop (run_of w) w @ replicate (run_of w) None)}"
proof -
  let ?j = "run_of w"
  have w: "take ?j w @ drop ?j w = w" by simp
  have "distinct (some_of (take ?j w @ drop ?j w))" using assms by simp
  then have "Some e \<notin> set (drop ?j w)" if "Some e \<in> set (take ?j w)" for e
    using that unfolding filter_append distinct_append by auto
  moreover have "the ` set (take ?j w) = {e. Some e \<in> set (take ?j w)}"
    using set_takeWhileD [of _ "\<lambda>e. e \<noteq> None" w] by (force simp: takeWhile_eq_take [symmetric] image_iff)
  moreover have "set w = set (take ?j w) \<union> set (drop ?j w)" by (metis w set_append)
  ultimately show ?thesis by auto
qed

lemma entries_update:
  assumes "x < length w" and "w ! x = None"
  shows "{e. Some e \<in> set (w[x := Some i])} = insert i {e. Some e \<in> set w}"
proof -
  have "set (w[x := Some i]) = set (take x w) \<union> {Some i} \<union> set (drop (Suc x) w)"
    using assms(1) by (simp add: upd_conv_take_nth_drop Un_assoc)
  moreover have "set w = set (take x w) \<union> {None} \<union> set (drop (Suc x) w)"
    using id_take_nth_drop [OF assms(1)] assms(2) by (metis Un_insert_left Un_insert_right list.simps(15) set_append sup_bot_left sup_bot_right)
  ultimately show ?thesis by auto
qed

lemma entries_card:
  assumes w: "slots pay ds A m w" and A: "finite A"
  shows "card {e. Some e \<in> set w} \<le> card A"
proof -
  have "{e. Some e \<in> set w} \<subseteq> (\<lambda>x. the (w ! (x - m))) ` A"
  proof
    fix e assume "e \<in> {e. Some e \<in> set w}"
    then obtain i where "i < length w" "w ! i = Some e" by (auto simp: in_set_conv_nth)
    then show "e \<in> (\<lambda>x. the (w ! (x - m))) ` A" using slots_Some [OF w, of i e] by (intro image_eqI [of _ _ "m + i"]) auto
  qed
  then show ?thesis using A by (meson card_image_le card_mono finite_imageI order_trans)
qed

section \<open>One packet arrives\<close>

lemma filter_update_length: "length (filter P (xs[i := v])) \<le> Suc (length (filter P xs))"
  by (induction xs arbitrary: i) (auto split: nat.splits intro: le_SucI)

text \<open>A packet inside the window goes to its place, and the run at the front of the window comes out.\<close>

lemma insert_in_window:
  assumes inv: "ro_inv k sq b" and p: "sq p = seq" and x: "unat (seq - first_seq b seq) = x" "x < 2 ^ k"
    and room: "length (some_of (window b)) < 1024"
  defines "w \<equiv> (window b)[x := Some p]"
  shows "\<exists>b1 b2. mlvpn_reorder_insert b p seq = Ok (0, b1) \<and> mlvpn_reorder_drain b1 1024 = Ok (take (run_of w) w, b2) \<and>
     ro_inv k sq b2 \<and> ro_initialized b2 \<and> ro_min_seqn b2 = first_seq b seq + of_nat (run_of w) \<and>
     window b2 = drop (run_of w) w @ replicate (run_of w) None \<and> distinct (some_of w)"
proof -
  let ?f = "\<lambda>q. unat (sq q - first_seq b seq)"
  have wf: "ro_wf k b" "ro_drained b" using inv by (auto simp: ro_inv_def)
  have "window_insert (first_seq b seq) (window b) p seq = (0, [], first_seq b seq, w)"
    using x ro_wf_facts(3) [OF wf(1)] by (simp add: window_insert_def w_def)
  then obtain b1 where b1: "mlvpn_reorder_insert b p seq = Ok (0, b1)" "ro_wf k b1" "ready_list b1 = []"
    "ro_min_seqn b1 = first_seq b seq" "window b1 = w" "ro_initialized b1"
    using insert_spec [OF wf, of seq p] by (auto simp: first_seq_def)
  have "length (some_of w) \<le> Suc (length (some_of (window b)))" unfolding w_def by (rule filter_update_length)
  then have "run_of w \<le> 1024" using run_of_some_of [of w] room by linarith
  then obtain b2 where b2: "mlvpn_reorder_drain b1 1024 = Ok (take (run_of w) w, b2)"
    "window b2 = drop (run_of w) w @ replicate (run_of w) None" "ro_min_seqn b2 = first_seq b seq + of_nat (run_of w)"
    using drain_all_spec [OF b1(2), of 1024] unfolding b1(3-5) by auto
  obtain r b1' out b2' where "mlvpn_reorder_insert b p seq = Ok (r, b1')" "mlvpn_reorder_drain b1' 1024 = Ok (out, b2')"
    "ro_inv k sq b2'" "ro_initialized b2'"
    using insert_drain [OF inv p room] by (elim exE conjE) (rule that)
  then have "ro_inv k sq b2" "ro_initialized b2" using b1(1) b2(1) by auto
  moreover have "lab ?f 0 w"
    unfolding lab_def
  proof (intro allI impI)
    fix i e assume "i < length w" "w ! i = Some e"
    then show "?f e = 0 + i" using ro_inv_lab [OF inv, of seq] p x
      by (cases "i = x") (simp_all add: w_def lab_def)
  qed
  then have "distinct (some_of w)" using lab_some_of sorted_map_distinct by blast
  ultimately show ?thesis using b1(1) b2 by blast
qed

text \<open>
  The receive path after the packets numbered \<open>A\<close> of the stream \<open>ds\<close> have arrived, the first one carrying the
  sequence number \<open>q\<close>: the first \<open>m\<close> are through, the others sit in the window.
\<close>

definition holding :: "nat \<Rightarrow> u64 \<Rightarrow> bytes list \<Rightarrow> nat set \<Rightarrow> nat \<Rightarrow> daemon \<Rightarrow> bool" where
  "holding k q ds A m s \<longleftrightarrow> (\<exists>b. d_reorder s = Some b \<and> ro_pool k b (d_freebuf s) \<and>
     {..<m} \<subseteq> A \<and> A \<subseteq> {..<length ds} \<and> (if ro_initialized b then ro_min_seqn b = q + of_nat m else A = {} \<and> m = 0) \<and>
     set (fb_used_head (d_freebuf s)) = {e. Some e \<in> set (window b)} \<and>
     slots (\<lambda>e. pkt_payload (fb_pool (d_freebuf s) ! e)) ds A m (window b))"

text \<open>There is room in the pool while the stream is shorter than it.\<close>

lemma holding_room:
  assumes "pool_ok fb" and "set (fb_used_head fb) = {e. Some e \<in> set w}" and "slots pay ds A m w"
    and "A \<subseteq> {..<length ds}" and "x \<notin> A" and "x < length ds" and "length ds \<le> 512"
  shows "\<exists>i fb1. mlvpn_freebuffer_get fb = Some (i, fb1)"
proof -
  have wf: "fb_wf fb" "fb_size fb = 512" using assms(1) by (auto simp: pool_ok_def)
  have fin: "finite A" using assms(4) by (rule finite_subset) simp
  have "length (fb_used_head fb) = card {e. Some e \<in> set w}"
    using wf(1) assms(2) distinct_card [of "fb_used_head fb"] by (simp add: fb_wf_def)
  also have "\<dots> \<le> card A" by (rule entries_card [OF assms(3) fin])
  also have "\<dots> < card {..<length ds}" using assms(4,5,6) by (intro psubset_card_mono) auto
  finally have "mlvpn_freebuffer_get fb \<noteq> None" using freebuffer_get_None_iff [OF wf(1)] wf(2) assms(7) by simp
  then show ?thesis by auto
qed

lemma stream_offset:
  assumes "m \<le> x" and "x < 2 ^ 64"
  shows "unat ((q + of_nat x) - (q + of_nat m) :: u64) = x - m"
proof -
  have "(q + of_nat x) - (q + of_nat m) = (of_nat (x - m) :: u64)" using assms(1) by (simp add: of_nat_diff)
  then show ?thesis using assms by (simp only: unat_of_nat) simp
qed

text \<open>The receive path for a packet inside the window.\<close>

lemma recv_in_window:
  assumes ok: "rx_ok s" and pkt: "pkt_wf p" "pkt_reorder p \<noteq> 0" and b: "d_reorder s = Some b" "ro_pool k b (d_freebuf s)"
    and get: "mlvpn_freebuffer_get (d_freebuf s) = Some (i, fb1)"
    and x: "unat (pkt_seq p - first_seq b (pkt_seq p)) = x" "x < 2 ^ k"
  defines "fb \<equiv> freebuffer_store fb1 i p" and "w \<equiv> (window b)[x := Some i]"
  shows "\<exists>s' b2. mlvpn_rtun_recv_data p s = Ok s' \<and> rx_ok s' \<and> core s' = core s \<and> tun_cap s' = tun_cap s \<and>
     d_reorder s' = Some b2 \<and> ro_pool k b2 (d_freebuf s') \<and> ro_initialized b2 \<and>
     ro_min_seqn b2 = first_seq b (pkt_seq p) + of_nat (run_of w) \<and>
     window b2 = drop (run_of w) w @ replicate (run_of w) None \<and> fb_pool (d_freebuf s') = fb_pool fb \<and>
     set (fb_used_head (d_freebuf s')) = insert i (set (fb_used_head (d_freebuf s))) - set (map the (take (run_of w) w)) \<and>
     distinct (some_of w) \<and>
     tun_queue s' = lossy_app (tun_cap s) (tun_queue s) (map (\<lambda>e. pkt_payload (fb_pool fb ! e)) (map the (take (run_of w) w)))"
proof -
  have fb0: "pool_ok (d_freebuf s)" using ok by (simp add: rx_ok_def)
  note st = store_fresh [OF fb0 get pkt(1) b(2), folded fb_def]
  have room: "length (some_of (window b)) < 1024" using window_fits [OF b(2) fb0] by simp
  obtain b1 b2 where ins: "mlvpn_reorder_insert b i (pkt_seq p) = Ok (0, b1)"
    and dr: "mlvpn_reorder_drain b1 1024 = Ok (take (run_of w) w, b2)" and inv: "ro_inv k (pool_seq fb) b2"
    and ini: "ro_initialized b2" and min: "ro_min_seqn b2 = first_seq b (pkt_seq p) + of_nat (run_of w)"
    and w2: "window b2 = drop (run_of w) w @ replicate (run_of w) None" and dis: "distinct (some_of w)"
    using insert_in_window [OF st(2,3) x room, folded w_def] by (elim exE conjE) (rule that)
  define es where "es = map the (take (run_of w) w)"
  have out: "take (run_of w) w = map Some es"
    unfolding es_def using set_takeWhileD [of _ "\<lambda>e. e \<noteq> None" w] by (auto simp: takeWhile_eq_take [symmetric] intro!: nth_equalityI)
  let ?u = "insert i (set (fb_used_head (d_freebuf s)))"
  have used: "e \<in> ?u" if "Some e \<in> set w" for e
    using that b(2) set_update_subset_insert [of "window b" x "Some i"] by (auto simp: w_def ro_pool_def)
  have "distinct (some_of (take (run_of w) w))" using dis by (metis append_take_drop_id distinct_append filter_append)
  then have es: "distinct es" "set es \<subseteq> ?u"
    using used in_set_takeD [of _ "run_of w" w] unfolding out by (auto simp: distinct_map)
  have rest: "e \<in> ?u - set es" if "Some e \<in> set (window b2)" for e
    using that used entries_run [OF dis, folded es_def w2] by auto
  from recv_drained [OF ok pkt b get ins dr [unfolded out] es inv [unfolded fb_def] rest, folded fb_def]
  show ?thesis using ini min w2 dis unfolding es_def by blast
qed

text \<open>A packet of the stream that has not arrived yet: whatever it completes goes to the device.\<close>

lemma recv_in_stream:
  assumes ok: "rx_ok s" and pkt: "pkt_wf p" "pkt_reorder p \<noteq> 0" "pkt_seq p = q + of_nat x" "pkt_payload p = ds ! x"
    and h: "holding k q ds A m s" and x: "x < length ds" "x \<notin> A" and ds: "length ds \<le> 2 ^ k" "length ds \<le> 512"
    and first: "\<not> ro_initialized (the (d_reorder s)) \<Longrightarrow> x = 0"
  shows "\<exists>s' j. mlvpn_rtun_recv_data p s = Ok s' \<and> rx_ok s' \<and> core s' = core s \<and> holding k q ds (insert x A) (m + j) s' \<and>
     tun_cap s' = tun_cap s \<and> tun_queue s' = lossy_app (tun_cap s) (tun_queue s) (take j (drop m ds)) \<and>
     ro_initialized (the (d_reorder s'))"
proof -
  obtain b where b: "d_reorder s = Some b" "ro_pool k b (d_freebuf s)" "{..<m} \<subseteq> A" "A \<subseteq> {..<length ds}"
    "if ro_initialized b then ro_min_seqn b = q + of_nat m else A = {} \<and> m = 0"
    "set (fb_used_head (d_freebuf s)) = {e. Some e \<in> set (window b)}"
    "slots (\<lambda>e. pkt_payload (fb_pool (d_freebuf s) ! e)) ds A m (window b)" using h by (auto simp: holding_def)
  have fb0: "pool_ok (d_freebuf s)" using ok by (auto simp: rx_ok_def)
  obtain i fb1 where get: "mlvpn_freebuffer_get (d_freebuf s) = Some (i, fb1)"
    using holding_room [OF fb0 b(6,7,4) x(2,1) ds(2)] by blast
  define fb where "fb = freebuffer_store fb1 i p"
  note st = store_fresh [OF fb0 get pkt(1) b(2), folded fb_def]
  have mx: "m \<le> x" using b(3) x(2) by (meson lessThan_iff not_le subsetD)
  have len: "length (window b) = 2 ^ k" using b(2) ro_wf_facts(3) by (auto simp: ro_pool_def ro_inv_def)
  have fs: "first_seq b (pkt_seq p) = q + of_nat m" using b(1,5) first pkt(3) by (auto simp: first_seq_def split: if_splits)
  have off: "unat (pkt_seq p - first_seq b (pkt_seq p)) = x - m"
    unfolding fs unfolding pkt(3) by (rule stream_offset [OF mx]) (use x(1) ds(2) in simp)
  have lt: "x - m < 2 ^ k" using x(1) ds(1) by linarith
  define w where "w = (window b)[x - m := Some i]"
  let ?pay = "\<lambda>e. pkt_payload (fb_pool fb ! e)"
  have mxx: "m + (x - m) = x" using mx by simp
  have i: "e \<noteq> i" if "Some e \<in> set (window b)" for e using that st(6) b(6) by auto
  have "slots ?pay ds (insert (m + (x - m)) A) m w" unfolding w_def
    using lt len pkt(4) st(4) st(7) [OF i] mxx by (intro slots_insert [OF b(7)]) simp_all
  then have sl: "slots ?pay ds (insert x A) m w" unfolding mxx .
  have A: "insert x A \<subseteq> {..<length ds}" "length ds \<le> m + length w" using b(4) x(1) ds(1) len by (auto simp: w_def)
  note run = slots_run [OF sl A]
  have none: "window b ! (x - m) = None" using slots_None [OF b(7), of "x - m"] lt len mxx x(2) by simp
  have ents: "{e. Some e \<in> set w} = insert i (set (fb_used_head (d_freebuf s)))"
    unfolding b(6) w_def using none lt len by (intro entries_update) simp_all
  obtain s' b2 where s': "mlvpn_rtun_recv_data p s = Ok s'" "rx_ok s'" "core s' = core s" "tun_cap s' = tun_cap s"
    "d_reorder s' = Some b2" "ro_pool k b2 (d_freebuf s')" "ro_initialized b2"
    "ro_min_seqn b2 = q + of_nat m + of_nat (run_of w)" "window b2 = drop (run_of w) w @ replicate (run_of w) None"
    "fb_pool (d_freebuf s') = fb_pool fb"
    "set (fb_used_head (d_freebuf s')) = {e. Some e \<in> set w} - set (map the (take (run_of w) w))" "distinct (some_of w)"
    "tun_queue s' = lossy_app (tun_cap s) (tun_queue s) (map ?pay (map the (take (run_of w) w)))"
    using recv_in_window [OF ok pkt(1,2) b(1,2) get off lt, folded fb_def w_def, unfolded fs, folded ents]
    by (elim exE conjE) (rule that)
  have "{..<m + run_of w} = {..<m} \<union> {m..<m + run_of w}" by auto
  then have "{..<m + run_of w} \<subseteq> insert x A" using run(2) b(3) by auto
  then have "holding k q ds (insert x A) (m + run_of w) s'"
    unfolding holding_def s'(10) using s'(5-9) A(1) run(1) s'(11) unfolding entries_run [OF s'(12)]
    by (intro exI [of _ b2]) (simp only: simp_thms if_True of_nat_add add.assoc)
  then show ?thesis using s'(1-5,7,13) unfolding run(3)
    by (intro exI [of _ s'] exI [of _ "run_of w"]) (simp only: simp_thms option.sel)
qed

section \<open>A datagram arrives\<close>

text \<open>The datagram \<open>w\<close> is the device's packet \<open>d\<close> encapsulated with the sequence number \<open>seq\<close>.\<close>

definition carries :: "sodium \<Rightarrow> bytes \<Rightarrow> bool \<Rightarrow> u64 \<Rightarrow> bytes \<Rightarrow> bytes \<Rightarrow> bool" where
  "carries S key clear seq d w \<longleftrightarrow> length w \<le> DEFAULT_MTU \<and>
     (\<exists>P t0 p t' q'. pe_sodium P = S \<and> pe_key P = key \<and> pe_cleartext P = clear \<and> rtun_encap P t0 seq p = Ok (Some w, t', q') \<and>
        pkt_wf p \<and> pkt_type p = MLVPN_PKT_DATA \<and> pkt_len p \<noteq> 0 \<and> pkt_payload p = d)"

text \<open>A tunnel that takes data from the network, from an address as long as that of its peer.\<close>

definition takes_data :: "daemon \<Rightarrow> nat \<Rightarrow> bytes \<Rightarrow> bool" where
  "takes_data s i from \<longleftrightarrow> i \<in> set (d_rtuns s) \<and> t_io_read (tun s i) \<and> authenticated (tun s i) \<and>
     (\<forall>ai \<in> set (t_addrinfo (tun s i)). length (ai_addr ai) = length from)"

lemma rx_part_tick [simp]: "rx_part (mlvpn_rtun_tick E i s) = rx_part s"
  by (simp add: mlvpn_rtun_tick_def)

lemma data_arrives:
  assumes inv: "dinv s" and i: "takes_data s i from" and S: "sodium_ok (en_sodium E)"
    and w: "carries (en_sodium E) (d_key s) (opt_cleartext_data (d_options s)) seq d w"
  shows "\<exists>p s2. handle E (RtunRead i (RecvData w from)) s = mlvpn_rtun_recv_data p s2 \<and> runs False i s (Ok s2) \<and>
     rx_part s2 = rx_part s \<and> takes_data s2 i from \<and>
     pkt_wf p \<and> pkt_payload p = d \<and> pkt_reorder p = 1 \<and> pkt_seq p = seq"
proof -
  obtain P t0 p t' q' where P: "pe_sodium P = en_sodium E" "pe_key P = d_key s" "pe_cleartext P = opt_cleartext_data (d_options s)"
    "rtun_encap P t0 seq p = Ok (Some w, t', q')" "pkt_wf p" "pkt_type p = MLVPN_PKT_DATA" "pkt_len p \<noteq> 0" "pkt_payload p = d"
    and len: "length w \<le> DEFAULT_MTU" using w unfolding carries_def by (elim exE conjE) (rule that)
  have keys: "same_keys P (penv E s)" using P(1-3) by (simp add: same_keys_def penv_def)
  have "sodium_ok (pe_sodium P)" "pkt_type p < 64" using P(1,6) S by simp_all
  from encap_read [where rtun = "tun s i", OF keys this(1) P(5) this(2) P(7) P(4) len raw_pkt_facts [OF len]]
  obtain t1 dp where acc: "mlvpn_protocol_read (penv E s) (tun s i) (raw_pkt w) = Some (t1, dp)" and dp: "pkt_payload dp = d"
    "pkt_type dp = MLVPN_PKT_DATA" "pkt_reorder dp = 1" "pkt_seq dp = seq" using P(6,8) by auto
  have "sodium_ok (pe_sodium (penv E s))" using S by (simp add: penv_def)
  note wf = protocol_read_ok(2) [OF this acc]
  note t = i [unfolded takes_data_def]
  have r: "recv_ok (RecvData w from) (tun s i)" using t len by (simp add: recv_ok_def)
  obtain s2 where s2: "mlvpn_rtun_read E (RecvData w from) i s = mlvpn_rtun_dispatch E dp i s2" "runs False i s (Ok s2)"
    "t_status (tun s2 i) = t_status (tun s i)" "t_io_read (tun s2 i)" "recv_ok (RecvData w from) (tun s2 i)" "rx_part s2 = rx_part s"
    using read_accepted [OF inv _ _ r S acc] t by blast
  let ?s = "mlvpn_rtun_tick E i s2"
  have "MLVPN_AUTHOK \<le> t_status (tun s2 i)" using t s2(3) by (simp add: authenticated_def)
  then have "handle E (RtunRead i (RecvData w from)) s = mlvpn_rtun_recv_data dp ?s"
    using s2(1) dp(2) by (simp add: handle_def mlvpn_rtun_dispatch_def)
  moreover have "runs False i s (Ok ?s)" by (rule runs_trans [OF s2(2) runs_tick [OF runs_Ok_dinv(1) [OF s2(2)]]])
  moreover have "takes_data ?s i from"
    using t s2(3-5) runs_Ok_dinv(2) [OF s2(2)] by (simp add: takes_data_def authenticated_def recv_ok_def mlvpn_rtun_tick_def)
  moreover have "rx_part ?s = rx_part s" using s2(6) by simp
  ultimately show ?thesis using wf dp(1,3,4) by blast
qed

text \<open>The network hands the datagram number \<open>x\<close> to the tunnel \<open>i\<close>.\<close>

definition arrive :: "bytes list \<Rightarrow> daemon \<Rightarrow> env \<times> nat \<times> nat \<times> bytes \<Rightarrow> daemon outcome" where
  "arrive ws s = (\<lambda>(E, x, i, from). handle E (RtunRead i (RecvData (ws ! x) from)) s)"

lemma holding_cong:
  "rx_part s' = rx_part s \<Longrightarrow> holding k q ds A m s' = holding k q ds A m s"
  "rx_part s' = rx_part s \<Longrightarrow> tun_queue s' = tun_queue s" "rx_part s' = rx_part s \<Longrightarrow> tun_cap s' = tun_cap s"
  "rx_part s' = rx_part s \<Longrightarrow> d_reorder s' = d_reorder s" "rx_part s' = rx_part s \<Longrightarrow> d_out s' = d_out s"
  by (simp_all add: rx_part_def holding_def tun_queue_def tun_cap_def)

lemma takes_data_kept:
  assumes inv: "dinv s" and i: "takes_data s i from" and s': "takes_data s' i from" "\<forall>j. j \<noteq> i \<longrightarrow> tun s' j = tun s j" "d_rtuns s' = d_rtuns s"
    and j: "takes_data s j from'"
  shows "takes_data s' j from'"
proof (cases "j = i")
  case True
  have "t_addrinfo (tun s i) \<noteq> []" using tunE [OF inv, of i] i by (auto simp: takes_data_def tun_ok_def idle_def)
  then have "length from' = length from" using i j True by (cases "t_addrinfo (tun s i)") (auto simp: takes_data_def)
  then show ?thesis using s'(1) True by (simp add: takes_data_def)
next
  case False
  then show ?thesis using j s'(2,3) by (simp add: takes_data_def)
qed

lemma arrive_step:
  assumes inv: "dinv s" and i: "takes_data s i from" and S: "sodium_ok (en_sodium E)"
    and w: "carries (en_sodium E) (d_key s) (opt_cleartext_data (d_options s)) (q + of_nat x) (ds ! x) (ws ! x)"
    and h: "holding k q ds A m s" and x: "x < length ds" "x \<notin> A" and ds: "length ds \<le> 2 ^ k" "length ds \<le> 512"
    and first: "\<not> ro_initialized (the (d_reorder s)) \<longrightarrow> x = 0"
  shows "\<exists>s' j. arrive ws s (E, x, i, from) = Ok s' \<and> dinv s' \<and> same_net s s' \<and> holding k q ds (insert x A) (m + j) s' \<and>
     tun_cap s' = tun_cap s \<and> tun_queue s' = lossy_app (tun_cap s) (tun_queue s) (take j (drop m ds)) \<and>
     ro_initialized (the (d_reorder s')) \<and> d_out s' = d_out s \<and> (\<forall>j from'. takes_data s j from' \<longrightarrow> takes_data s' j from')"
proof -
  obtain p s2 where p: "handle E (RtunRead i (RecvData (ws ! x) from)) s = mlvpn_rtun_recv_data p s2" "runs False i s (Ok s2)"
    "rx_part s2 = rx_part s" "takes_data s2 i from" "pkt_wf p" "pkt_payload p = ds ! x" "pkt_reorder p = 1" "pkt_seq p = q + of_nat x"
    using data_arrives [OF inv i S w] by (elim exE conjE) (rule that)
  note d2 = runs_Ok_dinv(1) [OF p(2)]
  have ok: "rx_ok s2" using d2 by (simp add: dinv_def base_ok_def)
  note eqs = holding_cong [OF p(3)]
  have "pkt_reorder p \<noteq> 0" "holding k q ds A m s2" using p(7) h eqs(1) by simp_all
  from recv_in_stream [OF ok p(5) this(1) p(8,6) this(2) x ds] first obtain s' j where s':
    "mlvpn_rtun_recv_data p s2 = Ok s'" "rx_ok s'" "core s' = core s2" "holding k q ds (insert x A) (m + j) s'"
    "tun_cap s' = tun_cap s" "tun_queue s' = lossy_app (tun_cap s) (tun_queue s) (take j (drop m ds))"
    "ro_initialized (the (d_reorder s'))" unfolding eqs by blast
  note c = core_fields [OF s'(3)]
  have r: "runs False i s (Ok s')"
    using runs_trans [OF p(2) runs_core [OF d2]] s'(1-3) by blast
  then have net: "dinv s'" "same_net s s'" "\<forall>j. j \<noteq> i \<longrightarrow> tun s' j = tun s j" by (simp_all add: runs_def)
  have "takes_data s' i from" using p(4) c(1,2) by (simp add: takes_data_def)
  note keep = takes_data_kept [OF inv i this net(3) runs_Ok_dinv(2) [OF r]]
  have o: "d_out s' = d_out s" using c(15) eqs(5) by simp
  have a: "arrive ws s (E, x, i, from) = Ok s'" using p(1) s'(1) by (simp add: arrive_def)
  show ?thesis by (intro exI conjI allI impI) (rule a, rule net, rule net, rule s', rule s', rule s', rule s', rule o, rule keep)
qed

section \<open>All the datagrams arrive\<close>

lemma arrive_all:
  assumes "dinv s" and "holding k q ds A m s" and "length ds \<le> 2 ^ k" and "length ds \<le> 512" and "sodium_ok S"
    and "\<forall>x<length ds. carries S (d_key s) (opt_cleartext_data (d_options s)) (q + of_nat x) (ds ! x) (ws ! x)"
    and "\<forall>(E, x, i, from) \<in> set arr. x < length ds \<and> x \<notin> A \<and> en_sodium E = S \<and> takes_data s i from"
    and "distinct (map (fst \<circ> snd) arr)"
    and "\<not> ro_initialized (the (d_reorder s)) \<longrightarrow> arr \<noteq> [] \<longrightarrow> fst (snd (hd arr)) = 0"
  shows "\<exists>s' j. ofold (arrive ws) s arr = Ok s' \<and> dinv s' \<and> same_net s s' \<and> holding k q ds (A \<union> set (map (fst \<circ> snd) arr)) (m + j) s' \<and>
     tun_cap s' = tun_cap s \<and> tun_queue s' = lossy_app (tun_cap s) (tun_queue s) (take j (drop m ds)) \<and> d_out s' = d_out s"
  using assms
proof (induction arr arbitrary: s A m)
  case Nil
  have "dev_ok s" using Nil(1) by (simp add: dinv_def base_ok_def rx_ok_def)
  then show ?case using Nil tun_queue_cap [of s] by (intro exI [of _ s] exI [of _ 0]) (simp add: lossy_app_Nil)
next
  case (Cons a arr)
  obtain E x i "from" where a: "a = (E, x, i, from)" by (metis prod_cases4)
  have x: "x < length ds" "x \<notin> A" "en_sodium E = S" "takes_data s i from" using Cons.prems(7) a by auto
  have S: "sodium_ok (en_sodium E)" using Cons.prems(5) x(3) by simp
  have w: "carries (en_sodium E) (d_key s) (opt_cleartext_data (d_options s)) (q + of_nat x) (ds ! x) (ws ! x)"
    using Cons.prems(6) x(1,3) by simp
  have f: "\<not> ro_initialized (the (d_reorder s)) \<longrightarrow> x = 0" using Cons.prems(9) a by simp
  from arrive_step [OF Cons.prems(1) x(4) S w Cons.prems(2) x(1,2) Cons.prems(3,4) f]
  obtain s1 j where s1: "arrive ws s (E, x, i, from) = Ok s1" "dinv s1" "same_net s s1" "holding k q ds (insert x A) (m + j) s1"
    "tun_cap s1 = tun_cap s" "tun_queue s1 = lossy_app (tun_cap s) (tun_queue s) (take j (drop m ds))"
    "ro_initialized (the (d_reorder s1))" "d_out s1 = d_out s" "\<forall>j from'. takes_data s j from' \<longrightarrow> takes_data s1 j from'"
    by (elim exE conjE) (rule that)
  have net: "d_key s1 = d_key s" "d_options s1 = d_options s" using s1(3) by (simp_all add: same_net_def)
  have w1: "\<forall>x<length ds. carries S (d_key s1) (opt_cleartext_data (d_options s1)) (q + of_nat x) (ds ! x) (ws ! x)"
    using Cons.prems(6) by (simp only: net)
  have "y \<noteq> x" if "(E', y, i', from') \<in> set arr" for E' y i' from'
    using Cons.prems(8) image_eqI [of y "fst \<circ> snd", OF _ that] a by auto
  then have arr1: "\<forall>(E, y, i, from) \<in> set arr. y < length ds \<and> y \<notin> insert x A \<and> en_sodium E = S \<and> takes_data s1 i from"
    using Cons.prems(7) s1(9) by auto
  have dis: "distinct (map (fst \<circ> snd) arr)" using Cons.prems(8) by (simp add: comp_def)
  have f1: "\<not> ro_initialized (the (d_reorder s1)) \<longrightarrow> arr \<noteq> [] \<longrightarrow> fst (snd (hd arr)) = 0" using s1(7) by simp
  from Cons.IH [OF s1(2,4) Cons.prems(3-5) w1 arr1 dis f1]
  obtain s' j' where s': "ofold (arrive ws) s1 arr = Ok s'" "dinv s'" "same_net s1 s'"
    "holding k q ds (insert x A \<union> set (map (fst \<circ> snd) arr)) (m + j + j') s'" "tun_cap s' = tun_cap s1"
    "tun_queue s' = lossy_app (tun_cap s1) (tun_queue s1) (take j' (drop (m + j) ds))" "d_out s' = d_out s1"
    by (elim exE conjE) (rule that)
  have "dev_ok s" using Cons.prems(1) by (simp add: dinv_def base_ok_def rx_ok_def)
  then have "tun_queue s' = lossy_app (tun_cap s) (tun_queue s) (take (j + j') (drop m ds))"
    using s'(6) s1(5,6) lossy_app_app [OF tun_queue_cap] by (simp add: take_add add.commute [of m])
  moreover have "holding k q ds (A \<union> set (map (fst \<circ> snd) (a # arr))) (m + (j + j')) s'" using s'(4) a by (simp add: add.assoc)
  moreover have "same_net s s'" using s1(3) s'(3) by (rule same_net_trans)
  ultimately show ?case using s1(1,5,8) s'(1,2,5,7) a by (intro exI [of _ s'] exI [of _ "j + j'"]) simp
qed

text \<open>Once the whole stream has arrived, all of it is through.\<close>

lemma holding_all:
  assumes "holding k q ds {..<length ds} m s" and "length ds \<le> 2 ^ k"
  shows "m = length ds"
proof -
  obtain b where b: "ro_pool k b (d_freebuf s)" "{..<m} \<subseteq> {..<length ds}"
    "slots (\<lambda>e. pkt_payload (fb_pool (d_freebuf s) ! e)) ds {..<length ds} m (window b)" using assms(1) by (auto simp: holding_def)
  then have wf: "ro_wf k b" "hd (window b) = None" by (auto simp: ro_pool_def ro_inv_def ro_drained_def)
  have w: "0 < length (window b)" using ro_wf_facts(3) [OF wf(1)] by simp
  then have "window b ! 0 = None" using wf(2) by (simp add: hd_conv_nth)
  then have "m \<notin> {..<length ds}" using slots_None [OF b(3) w] by simp
  then show ?thesis using b(2) by (simp add: lessThan_subset_iff)
qed

section \<open>Sending what the device hands over\<close>

text \<open>
  The device is readable, then a tunnel is writable: one packet on its way. \<open>find\<close> picks the tunnel whose write watcher the handler of
  the device started.
\<close>

definition forward :: "daemon \<Rightarrow> env \<times> bytes \<Rightarrow> daemon outcome" where
  "forward s = (\<lambda>(E, d). obind (handle E (TunRead (ReadData d)) s) (\<lambda>s1.
     case find (\<lambda>i. t_io_write (tun s1 i)) (d_rtuns s1) of None \<Rightarrow> Ok s1 | Some i \<Rightarrow> handle E (RtunWrite i) s1))"

text \<open>Nothing is waiting in the tunnels, and the scheduler has one to choose.\<close>

definition silent :: "mlvpn_tunnel_t \<Rightarrow> bool" where
  "silent t \<longleftrightarrow> \<not> t_io_write t \<and> mlvpn_cb_is_empty (t_sbuf t) \<and> mlvpn_cb_is_empty (t_hpsbuf t)"

definition quiet :: "daemon \<Rightarrow> bool" where
  "quiet s \<longleftrightarrow> wrr_tunnel (d_wrr s) \<noteq> [] \<and> (\<forall>i \<in> set (d_rtuns s). silent (tun s i))"

lemma silent_get_buf: "silent t \<Longrightarrow> mlvpn_cb_is_empty (get_buf hp t)"
  by (simp add: silent_def get_buf_def)

lemma find_only:
  assumes "i \<in> set xs" and "P i" and "\<forall>j \<in> set xs. P j \<longrightarrow> j = i"
  shows "find P xs = Some i"
proof (cases "find P xs")
  case None
  then show ?thesis using assms(1,2) unfolding find_None_iff by blast
next
  case (Some j)
  then have "j \<in> set xs" "P j" unfolding find_Some_iff by (metis nth_mem)+
  then show ?thesis using Some assms(3) by blast
qed

definition device_packet :: "bytes \<Rightarrow> mlvpn_pkt_t \<Rightarrow> mlvpn_pkt_t" where
  "device_packet d p = p\<lparr>pkt_len := of_nat (length d), pkt_data := patch (pkt_data p) 0 d\<rparr>"

lemma queue_silent:
  assumes inv: "dinv s" and i: "i \<in> set (d_rtuns s)" "silent (tun s i)" and ai: "t_addrinfo (tun s i) \<noteq> []" and d: "length d \<le> DEFAULT_MTU"
  shows "\<exists>s1 p. queue_data hp d i s = Ok s1 \<and> runs False i s (Ok s1) \<and> t_io_write (tun s1 i) \<and>
     cb_list (get_buf hp (tun s1 i)) = [device_packet d p] \<and> pkt_type p = MLVPN_PKT_DATA \<and> pkt_wf p \<and>
     get_buf (\<not> hp) (tun s1 i) = get_buf (\<not> hp) (tun s i) \<and> t_addrinfo (tun s1 i) = t_addrinfo (tun s i) \<and>
     d_wrr s1 = d_wrr s \<and> d_out s1 = d_out s \<and> d_data_seq s1 = d_data_seq s"
proof -
  let ?b = "get_buf hp (tun s i)"
  define p where "p = cb_fresh ?b"
  have b: "buf_ok ?b" by (rule get_buf_ok [OF tunE [OF inv i(1)]])
  then have wf1: "cb_wf ?b" by (simp add: buf_ok_def)
  have wf: "cb_wf ?b" "cb_list ?b = []" using silent_get_buf [OF i(2), of hp] cb_empty_iff [OF wf1] wf1 by simp_all
  have "\<not> mlvpn_cb_is_full ?b" using wf by (simp add: cb_full_iff cb_wf_def)
  then have l: "cb_list (pktbuffer_put (device_packet d) ?b) = [device_packet d p]" using wf by (simp add: cb_list_put p_def)
  then have ne: "\<not> mlvpn_cb_is_empty (pktbuffer_put (device_packet d) ?b)" using wf(1) by (simp add: cb_empty_iff)
  have "cb_pkts ?b ! cb_end ?b \<in> set (cb_pkts ?b)" using wf(1) by (intro nth_mem) (simp add: cb_wf_def)
  then have "pkt_wf (cb_pkts ?b ! cb_end ?b)" using b by (simp add: buf_ok_def)
  then have p: "pkt_type p = MLVPN_PKT_DATA" "pkt_wf p" by (simp_all add: p_def cb_fresh_def pkt_wf_def)
  define s0 where "s0 = upd i (\<lambda>t. set_buf hp (pktbuffer_put (device_packet d) (get_buf hp t)) t) s"
  define s1 where "s1 = upd i (\<lambda>t. t\<lparr>t_io_write := True\<rparr>) s0"
  have t0: "\<not> t_io_write (tun s0 i)" "get_buf hp (tun s0 i) = pktbuffer_put (device_packet d) ?b"
    "get_buf (\<not> hp) (tun s0 i) = get_buf (\<not> hp) (tun s i)" "t_addrinfo (tun s0 i) = t_addrinfo (tun s i)"
    using i(2) by (cases hp; simp add: s0_def get_buf_def set_buf_def silent_def)+
  have q: "queue_data hp d i s = Ok s1"
    using d t0(1) ne unfolding queue_data_def device_packet_def [symmetric] s0_def [symmetric] s1_def Let_def t0(2) by simp
  have r: "runs False i s (Ok s1)" using runs_queue_data [OF inv i(1) ai d, of hp] q by simp
  have g: "get_buf h (tun s1 i) = get_buf h (tun s0 i)" for h by (simp add: s1_def get_buf_def)
  have t: "t_io_write (tun s1 i)" "get_buf hp (tun s1 i) = pktbuffer_put (device_packet d) ?b"
    "get_buf (\<not> hp) (tun s1 i) = get_buf (\<not> hp) (tun s i)" "t_addrinfo (tun s1 i) = t_addrinfo (tun s i)"
    using t0(2-4) by (simp_all add: g) (simp_all add: s1_def)
  have f: "d_wrr s1 = d_wrr s" "d_out s1 = d_out s" "d_data_seq s1 = d_data_seq s" by (simp_all add: s1_def s0_def)
  show ?thesis by (intro exI conjI) (rule q, rule r, rule t, simp only: t l, rule p, rule p, rule t, rule t, rule f, rule f, rule f)
qed

lemma device_packet_facts:
  assumes "pkt_wf p" and "pkt_type p = MLVPN_PKT_DATA" and "0 < length d" and "length d \<le> 1456"
  shows "unat (pkt_len (device_packet d p)) = length d" and "pkt_type ((device_packet d p)\<lparr>pkt_reorder := 1\<rparr>) = MLVPN_PKT_DATA"
    and "pkt_len ((device_packet d p)\<lparr>pkt_reorder := 1\<rparr>) \<noteq> 0" and "pkt_payload ((device_packet d p)\<lparr>pkt_reorder := 1\<rparr>) = d"
proof -
  have l: "unat (of_nat (length d) :: u16) = length d" using assms(4) by (simp only: unat_of_nat) simp
  then show "unat (pkt_len (device_packet d p)) = length d" by (simp add: device_packet_def)
  show "pkt_type ((device_packet d p)\<lparr>pkt_reorder := 1\<rparr>) = MLVPN_PKT_DATA" using assms(2) by (simp add: device_packet_def)
  have "(of_nat (length d) :: u16) \<noteq> 0" using l assms(3) by (metis less_numeral_extra(3) unat_0)
  then show "pkt_len ((device_packet d p)\<lparr>pkt_reorder := 1\<rparr>) \<noteq> 0" by (simp add: device_packet_def)
  show "pkt_payload ((device_packet d p)\<lparr>pkt_reorder := 1\<rparr>) = d"
    unfolding pkt_payload_def device_packet_def by (simp del: unat_of_nat add: l patch_def)
qed

text \<open>The writer sends the one packet that waits, from whichever queue it waits in.\<close>

lemma write_waiting:
  assumes "mlvpn_rtun_send E i hp s1 = Ok s2" and "\<not> mlvpn_cb_is_empty (get_buf hp (tun s1 i))"
    and "mlvpn_cb_is_empty (get_buf (\<not> hp) (tun s1 i))" and "mlvpn_cb_is_empty (get_buf (\<not> hp) (tun s2 i))"
  shows "mlvpn_rtun_write E i s1 = Ok s2"
  using assms by (cases hp) (simp_all add: mlvpn_rtun_write_def get_buf_def)

lemma queue_and_send:
  assumes inv: "dinv s" and q: "quiet s" and i: "i \<in> set (d_rtuns s)" "authenticated (tun s i)"
    and d: "0 < length d" "length d \<le> 1456" and S: "sodium_ok (en_sodium E)" and net: "\<And>fd w a. 0 \<le> en_sendto E fd w a"
  shows "\<exists>s1 s2 w. queue_data hp d i s = Ok s1 \<and> find (\<lambda>j. t_io_write (tun s1 j)) (d_rtuns s1) = Some i \<and>
     mlvpn_rtun_write E i s1 = Ok s2 \<and> dinv s2 \<and> same_net s s2 \<and> quiet s2 \<and> d_data_seq s2 = d_data_seq s + 1 \<and> sent w s s2 \<and>
     carries (en_sodium E) (d_key s) (opt_cleartext_data (d_options s)) (d_data_seq s) d w"
proof -
  have si: "silent (tun s j)" if "j \<in> set (d_rtuns s)" for j using q that by (simp add: quiet_def)
  have ai: "t_addrinfo (tun s i) \<noteq> []" using authenticated_addr [OF inv i(1)] i(2) by (simp add: authenticated_def)
  have "length d \<le> DEFAULT_MTU" using d(2) by simp
  from queue_silent [OF inv i(1) si [OF i(1)] ai this, of hp] obtain s1 p where s1: "queue_data hp d i s = Ok s1" "runs False i s (Ok s1)"
    "t_io_write (tun s1 i)" "cb_list (get_buf hp (tun s1 i)) = [device_packet d p]" "pkt_type p = MLVPN_PKT_DATA" "pkt_wf p"
    "get_buf (\<not> hp) (tun s1 i) = get_buf (\<not> hp) (tun s i)" "t_addrinfo (tun s1 i) = t_addrinfo (tun s i)"
    "d_wrr s1 = d_wrr s" "d_out s1 = d_out s" "d_data_seq s1 = d_data_seq s" by (elim exE conjE) (rule that)
  note inv1 = runs_Ok_dinv(1) [OF s1(2)] and rt1 = runs_Ok_dinv(2) [OF s1(2)]
  note dp = device_packet_facts [OF s1(6,5) d]
  have i1: "i \<in> set (d_rtuns s1)" using i(1) rt1 by simp
  have oth: "tun s1 j = tun s j" if "j \<noteq> i" for j using s1(2) that by (simp add: runs_def)
  have "\<forall>j \<in> set (d_rtuns s1). t_io_write (tun s1 j) \<longrightarrow> j = i"
  proof (intro ballI impI)
    fix j assume "j \<in> set (d_rtuns s1)" "t_io_write (tun s1 j)"
    then show "j = i" using oth [of j] si [of j] rt1 by (cases "j = i") (simp_all add: silent_def)
  qed
  note f = find_only [OF i1 s1(3) this]
  obtain a as where a: "t_addrinfo (tun s1 i) = a # as" using ai s1(8) by (cases "t_addrinfo (tun s i)") auto
  have "unat (pkt_len (device_packet d p)) \<le> 1456" using dp(1) d(2) by simp
  from buf_send [OF inv1 i1 S s1(4) this a net] obtain s2 w t0 t' q' where s2: "mlvpn_rtun_send E i hp s1 = Ok s2" "runs False i s1 (Ok s2)"
    "get_buf (\<not> hp) (tun s2 i) = get_buf (\<not> hp) (tun s1 i)" "mlvpn_cb_is_empty (get_buf hp (tun s2 i))" "\<not> t_io_write (tun s2 i)"
    "d_data_seq s2 = q'" "q' = (if pkt_type (device_packet d p) = MLVPN_PKT_DATA then d_data_seq s1 + 1 else d_data_seq s1)" "d_wrr s2 = d_wrr s1"
    "d_out s2 = d_out s1 @ [SendTo (t_fd (tun s1 i)) w (ai_addr a)]" "length w \<le> DEFAULT_MTU"
    "rtun_encap (penv E s1) t0 (d_data_seq s1) ((device_packet d p)\<lparr>pkt_reorder := 1\<rparr>) = Ok (Some w, t', q')"
    "pkt_wf ((device_packet d p)\<lparr>pkt_reorder := 1\<rparr>)" by blast
  have b: "mlvpn_cb_is_empty (get_buf (\<not> hp) (tun s1 i))" unfolding s1(7) by (rule silent_get_buf [OF si [OF i(1)]])
  have "buf_ok (get_buf hp (tun s1 i))" by (rule get_buf_ok [OF tunE [OF inv1 i1]])
  then have "\<not> mlvpn_cb_is_empty (get_buf hp (tun s1 i))" using s1(4) by (simp add: buf_ok_def cb_empty_iff)
  then have w: "mlvpn_rtun_write E i s1 = Ok s2" by (rule write_waiting [OF s2(1) _ b b [folded s2(3)]])
  have r: "runs False i s (Ok s2)" by (rule runs_trans [OF s1(2) s2(2)])
  then have net2: "dinv s2" "same_net s s2" "\<And>j. j \<noteq> i \<Longrightarrow> tun s2 j = tun s j" by (simp_all add: runs_def)
  have "mlvpn_cb_is_empty (get_buf True (tun s2 i))" "mlvpn_cb_is_empty (get_buf False (tun s2 i))"
    using s2(4) b s2(3) by (cases hp; simp)+
  then have "silent (tun s2 i)" using s2(5) by (simp add: silent_def get_buf_def)
  then have "silent (tun s2 j)" if "j \<in> set (d_rtuns s)" for j using si [OF that] net2(3) [of j] by (cases "j = i") simp_all
  then have qu: "quiet s2" using q s2(8) s1(9) runs_Ok_dinv(2) [OF r] by (simp add: quiet_def)
  have n: "d_data_seq s2 = d_data_seq s + 1" using s2(6,7) s1(11) dp(2) by simp
  have o: "sent w s s2" using s2(9) s1(10) by (auto simp: sent_def)
  have "penv E s1 = penv E s" using s1(2) by (simp add: runs_def same_net_def penv_def)
  then have c: "carries (en_sodium E) (d_key s) (opt_cleartext_data (d_options s)) (d_data_seq s) d w"
    unfolding carries_def using s2(10-12) dp(2-4) s1(11)
    by (intro conjI exI [of _ "penv E s"] exI [of _ t0] exI [of _ "(device_packet d p)\<lparr>pkt_reorder := 1\<rparr>"]
      exI [of _ t'] exI [of _ q']) (simp_all add: penv_def)
  show ?thesis by (intro exI conjI) (rule s1(1), rule f, rule w, rule net2, rule net2, rule qu, rule n, rule o, rule c)
qed

text \<open>A packet of the device goes to the queue of a filter's tunnel, or of the tunnel the scheduler chose.\<close>

lemma device_read_queues:
  assumes inv: "dinv s" and q: "quiet s"
  shows "\<exists>hp i s0. mlvpn_tuntap_generic_read E d s = queue_data hp d i s0 \<and> dinv s0 \<and> i \<in> set (d_rtuns s) \<and> authenticated (tun s i) \<and>
     (s0 = s \<or> (\<exists>w. s0 = s\<lparr>d_wrr := w\<rparr> \<and> wrr_tunnel w = wrr_tunnel (d_wrr s)))"
proof (cases "mlvpn_filters_choose E d s")
  case (Some i)
  from filters_choose_sound [OF this] obtain f where "(f, i) \<in> set (d_filters s)" and a: "authenticated (tun s i)" by blast
  then have "i \<in> set (d_rtuns s)" using inv by (force simp: dinv_def base_ok_def)
  then show ?thesis using Some a inv by (intro exI [of _ True] exI [of _ i] exI [of _ s]) (simp add: mlvpn_tuntap_generic_read_def)
next
  case None
  have wf: "wrr_wf (d_wrr s)" using inv by (simp add: dinv_def wrr_inv_def)
  obtain i w where w: "mlvpn_rtun_wrr_choose (d_tunnels s) (d_wrr s) = (Some i, w)"
    using q wrr_choose_None_iff [of "d_tunnels s" "d_wrr s"] by (cases "mlvpn_rtun_wrr_choose (d_tunnels s) (d_wrr s)") (auto simp: quiet_def)
  have w': "wrr_wf w" "wrr_tunnel w = wrr_tunnel (d_wrr s)" using wrr_choose_wf [OF wf, of "d_tunnels s"] w
    wrr_choose_tunnels [of "d_tunnels s" "d_wrr s"] by simp_all
  have "i \<in> set (wrr_tunnel (d_wrr s))" by (rule wrr_choose_in [OF wf w])
  then have i: "i \<in> set (d_rtuns s)" "authenticated (tun s i)" using inv by (auto simp: dinv_def wrr_inv_def)
  have "dinv (s\<lparr>d_wrr := w\<rparr>)" using inv w' by (simp add: dinv_def wrr_inv_def)
  then show ?thesis using None w w'(2) i
    by (intro exI [of _ False] exI [of _ i] exI [of _ "s\<lparr>d_wrr := w\<rparr>"]) (auto simp: mlvpn_tuntap_generic_read_def mlvpn_rtun_choose_def)
qed

lemma forward_step:
  assumes inv: "dinv s" and q: "quiet s" and d: "0 < length d" "length d \<le> 1456" "length d \<le> d_maxmtu s"
    and S: "sodium_ok (en_sodium E)" and net: "\<And>fd w a. 0 \<le> en_sendto E fd w a"
  shows "\<exists>s' w. forward s (E, d) = Ok s' \<and> dinv s' \<and> same_net s s' \<and> quiet s' \<and> d_data_seq s' = d_data_seq s + 1 \<and> sent w s s' \<and>
     carries (en_sodium E) (d_key s) (opt_cleartext_data (d_options s)) (d_data_seq s) d w"
proof -
  obtain hp i s0 where s0: "mlvpn_tuntap_generic_read E d s = queue_data hp d i s0" "dinv s0"
    "i \<in> set (d_rtuns s)" "authenticated (tun s i)" and s0': "s0 = s \<or> (\<exists>w. s0 = s\<lparr>d_wrr := w\<rparr> \<and> wrr_tunnel w = wrr_tunnel (d_wrr s))"
    using device_read_queues [OF inv q, of E d] by (elim exE conjE) (rule that)
  have e: "quiet s0" "d_tunnels s0 = d_tunnels s" "d_rtuns s0 = d_rtuns s" "d_data_seq s0 = d_data_seq s" "d_key s0 = d_key s"
    "d_options s0 = d_options s" "d_out s0 = d_out s" "same_net s s0" using s0' q by (elim disjE exE conjE; simp add: quiet_def same_net_def)+
  have i: "i \<in> set (d_rtuns s0)" "authenticated (tun s0 i)" using s0(3,4) e(2,3) by simp_all
  obtain s1 s2 w where s1: "queue_data hp d i s0 = Ok s1" "find (\<lambda>j. t_io_write (tun s1 j)) (d_rtuns s1) = Some i"
     "mlvpn_rtun_write E i s1 = Ok s2" "dinv s2" "same_net s0 s2" "quiet s2" "d_data_seq s2 = d_data_seq s0 + 1" "sent w s0 s2"
     "carries (en_sodium E) (d_key s0) (opt_cleartext_data (d_options s0)) (d_data_seq s0) d w"
    using queue_and_send [OF s0(2) e(1) i d(1,2) S net, of hp] by (elim exE conjE) (rule that)
  have "forward s (E, d) = Ok s2" using d(3) s0(1) s1(1-3) by (simp add: forward_def handle_def mlvpn_tuntap_read_def)
  moreover have "same_net s s2" by (rule same_net_trans [OF e(8) s1(5)])
  moreover have "sent w s s2" using s1(8) e(7) by (simp add: sent_def)
  ultimately show ?thesis using s1(4,6,7,9) e(4-6) by auto
qed

text \<open>The datagrams among the effects.\<close>

fun datagrams :: "effect list \<Rightarrow> bytes list" where
  "datagrams [] = []"
| "datagrams (SendTo fd w a # es) = w # datagrams es"
| "datagrams (e # es) = datagrams es"

lemma datagrams_append [simp]: "datagrams (xs @ ys) = datagrams xs @ datagrams ys"
  by (induction xs rule: datagrams.induct) simp_all

definition can_send :: "sodium \<Rightarrow> nat \<Rightarrow> env \<times> bytes \<Rightarrow> bool" where
  "can_send S mtu = (\<lambda>(E, d). en_sodium E = S \<and> (\<forall>fd w a. 0 \<le> en_sendto E fd w a) \<and> 0 < length d \<and> length d \<le> mtu \<and> length d \<le> 1456)"

lemma forward_all:
  assumes "dinv s" and "quiet s" and "sodium_ok S" and "\<forall>r \<in> set rs. can_send S (d_maxmtu s) r"
  shows "\<exists>s' ws. ofold forward s rs = Ok s' \<and> dinv s' \<and> quiet s' \<and> same_net s s' \<and> d_data_seq s' = d_data_seq s + of_nat (length rs) \<and>
     length ws = length rs \<and> datagrams (d_out s') = datagrams (d_out s) @ ws \<and>
     (\<forall>x<length rs. carries S (d_key s) (opt_cleartext_data (d_options s)) (d_data_seq s + of_nat x) (snd (rs ! x)) (ws ! x))"
  using assms
proof (induction rs arbitrary: s)
  case Nil
  then show ?case by simp
next
  case (Cons r rs)
  obtain E d where r: "r = (E, d)" by (cases r)
  have c: "en_sodium E = S" "\<And>fd w a. 0 \<le> en_sendto E fd w a" "0 < length d" "length d \<le> 1456" "length d \<le> d_maxmtu s"
    using Cons.prems(4) r by (simp_all add: can_send_def)
  have S: "sodium_ok (en_sodium E)" using Cons.prems(3) c(1) by simp
  obtain s1 w where s1: "forward s (E, d) = Ok s1" "dinv s1" "same_net s s1" "quiet s1" "d_data_seq s1 = d_data_seq s + 1" "sent w s s1"
    "carries (en_sodium E) (d_key s) (opt_cleartext_data (d_options s)) (d_data_seq s) d w"
    using forward_step [OF Cons.prems(1,2) c(3-5) S c(2)] by (elim exE conjE) (rule that)
  have n: "d_maxmtu s1 = d_maxmtu s" "d_key s1 = d_key s" "d_options s1 = d_options s" using s1(3) by (simp_all add: same_net_def)
  have "\<forall>r \<in> set rs. can_send S (d_maxmtu s1) r" using Cons.prems(4) n(1) by simp
  from Cons.IH [OF s1(2,4) Cons.prems(3) this] obtain s' ws where s': "ofold forward s1 rs = Ok s'" "dinv s'" "quiet s'" "same_net s1 s'"
    "d_data_seq s' = d_data_seq s1 + of_nat (length rs)" "length ws = length rs" "datagrams (d_out s') = datagrams (d_out s1) @ ws"
    "\<forall>x<length rs. carries S (d_key s1) (opt_cleartext_data (d_options s1)) (d_data_seq s1 + of_nat x) (snd (rs ! x)) (ws ! x)"
    by (elim exE conjE) (rule that)
  have o: "datagrams (d_out s') = datagrams (d_out s) @ w # ws" using s'(7) s1(6) by (auto simp: sent_def)
  have all: "\<forall>x<length (r # rs). carries S (d_key s) (opt_cleartext_data (d_options s)) (d_data_seq s + of_nat x) (snd ((r # rs) ! x)) ((w # ws) ! x)"
  proof (intro allI impI)
    fix x assume "x < length (r # rs)"
    then show "carries S (d_key s) (opt_cleartext_data (d_options s)) (d_data_seq s + of_nat x) (snd ((r # rs) ! x)) ((w # ws) ! x)"
      using s1(5,7) c(1) s'(8) n r by (cases x) (simp_all add: add.assoc)
  qed
  have "same_net s s'" by (rule same_net_trans [OF s1(3) s'(4)])
  moreover have "d_data_seq s' = d_data_seq s + of_nat (length (r # rs))" using s'(5) s1(5) by (simp add: add.assoc)
  ultimately show ?case using s1(1) s'(1-3,6) o all r by (intro exI [of _ s'] exI [of _ "w # ws"]) simp
qed

section \<open>A watcher that is stopped too early\<close>

text \<open>
  The write watcher is stopped with packets left: when a control packet waits with two or more packets of data, the handler sends the control
  packet, stops the watcher because that queue is empty, sends one packet of data, and leaves the others until something else is queued.
\<close>

lemma write_stalls:
  assumes inv: "dinv s" and i: "i \<in> set (d_rtuns s)" and S: "sodium_ok (en_sodium E)" and net: "\<And>fd w a. 0 \<le> en_sendto E fd w a"
    and ai: "t_addrinfo (tun s i) \<noteq> []" and hp: "cb_list (t_hpsbuf (tun s i)) = [c]" "unat (pkt_len c) \<le> 1456"
    and sb: "cb_list (t_sbuf (tun s i)) = p # p' # ps" "unat (pkt_len p) \<le> 1456"
  shows "\<exists>s'. handle E (RtunWrite i) s = Ok s' \<and> \<not> mlvpn_cb_is_empty (t_sbuf (tun s' i)) \<and> \<not> t_io_write (tun s' i)"
proof -
  have g: "get_buf True t = t_hpsbuf t" "get_buf (\<not> True) t = t_sbuf t" "get_buf False t = t_sbuf t" for t by (simp_all add: get_buf_def)
  have wf: "cb_wf (t_hpsbuf (tun s i))" "cb_wf (t_sbuf (tun s i))" using tunE [OF inv i] by (simp_all add: tun_ok_def buf_ok_def)
  obtain a as where a: "t_addrinfo (tun s i) = a # as" using ai by (cases "t_addrinfo (tun s i)") auto
  obtain s1 b where s1: "mlvpn_rtun_send E i True s = Ok s1" "runs False i s (Ok s1)" "conn (tun s1 i) = conn (set_buf True b (tun s i))"
    "t_sbuf (tun s1 i) = t_sbuf (tun s i)" "\<not> t_io_write (tun s1 i)"
    using buf_send [of s i E True, unfolded g, OF inv i S hp a net] by blast
  note inv1 = runs_Ok_dinv(1) [OF s1(2)]
  have i1: "i \<in> set (d_rtuns s1)" using runs_Ok_dinv(2) [OF s1(2)] i by simp
  have a1: "t_addrinfo (tun s1 i) = a # as" using s1(3) a by (simp add: conn_def set_buf_def)
  obtain s2 where s2: "mlvpn_rtun_send E i False s1 = Ok s2" "\<not> mlvpn_cb_is_empty (t_sbuf (tun s2 i))" "\<not> t_io_write (tun s2 i)"
    using buf_send [of s1 i E False, unfolded g, OF inv1 i1 S sb(1) [folded s1(4)] sb(2) a1 net] s1(5) by blast
  have "\<not> mlvpn_cb_is_empty (t_hpsbuf (tun s i))" "\<not> mlvpn_cb_is_empty (t_sbuf (tun s1 i))"
    using wf hp(1) sb(1) s1(4) by (simp_all add: cb_empty_iff)
  then show ?thesis using s1(1) s2 by (simp add: handle_def mlvpn_rtun_write_def)
qed

section \<open>The device takes the packets\<close>

lemma device_step:
  assumes inv: "dinv s" and q: "tun_queue s = d # ds"
  shows "\<exists>s'. enabled E TunWritable s \<and> handle E TunWritable s = Ok s' \<and> dinv s' \<and> tun_queue s' = ds \<and> d_out s' = d_out s @ [TunWrite d]"
proof -
  have dev: "dev_ok s" using inv by (simp add: dinv_def base_ok_def rx_ok_def)
  then have wf: "cb_wf (d_tun_sbuf s)" by (simp add: dev_ok_def buf_ok_def)
  have ne: "\<not> mlvpn_cb_is_empty (d_tun_sbuf s)" using q cb_empty_iff [OF wf] by (auto simp: tun_queue_def)
  then have w: "d_tun_io_write s" using dev by (simp add: dev_ok_def)
  obtain s' where s': "tuntap_write_event s = Ok s'" "dinv s'" using runs_tun_write [OF inv w] by blast
  note l = pktbuffer_take_list [OF wf ne]
  have hd: "pkt_payload (hd (cb_list (d_tun_sbuf s))) = d" "map pkt_payload (tl (cb_list (d_tun_sbuf s))) = ds"
    using q by (cases "cb_list (d_tun_sbuf s)"; simp add: tun_queue_def)+
  have "tun_queue s' = ds \<and> d_out s' = d_out s @ [TunWrite d]"
    using s'(1) ne l hd by (auto simp: tuntap_write_event_def mlvpn_tuntap_write_def tun_queue_def emit_def Let_def split: prod.splits)
  then show ?thesis using s' w by (simp add: handle_def enabled_def)
qed

lemma device_all:
  assumes "dinv s" and "tun_queue s = ds" and "length Es = length ds"
  shows "\<exists>s'. ofold (\<lambda>s E. handle E TunWritable s) s Es = Ok s' \<and> dinv s' \<and> d_out s' = d_out s @ map TunWrite ds"
  using assms
proof (induction Es arbitrary: s ds)
  case (Cons E Es)
  then obtain d ds' where d: "ds = d # ds'" by (cases ds) auto
  obtain s1 where s1: "handle E TunWritable s = Ok s1" "dinv s1" "tun_queue s1 = ds'" "d_out s1 = d_out s @ [TunWrite d]"
    using device_step [OF Cons.prems(1), of d ds' E] Cons.prems(2) d by blast
  from Cons.IH [OF s1(2,3)] obtain s' where "ofold (\<lambda>s E. handle E TunWritable s) s1 Es = Ok s'" "dinv s'" "d_out s' = d_out s1 @ map TunWrite ds'"
    using Cons.prems(3) d by auto
  then show ?case using s1 d by simp
qed simp

section \<open>From one device to the other\<close>

text \<open>The receiving end has nothing in hand and, if it has seen data before, expects the sequence number \<open>q\<close> next.\<close>

definition expects :: "u64 \<Rightarrow> daemon \<Rightarrow> bool" where
  "expects q s = (case d_reorder s of None \<Rightarrow> False
     | Some r \<Rightarrow> set (window r) = {None} \<and> (ro_initialized r \<longrightarrow> ro_min_seqn r = q) \<and>
         fb_used_head (d_freebuf s) = [] \<and> tun_queue s = [])"

lemma expects_holding:
  assumes inv: "dinv s" and e: "expects q s" and r: "d_reorder s = Some r"
  shows "\<exists>k. length (window r) = 2 ^ k \<and> holding k q ds {} 0 s"
proof -
  have rx: "rx_ok s" using inv by (simp add: dinv_def base_ok_def)
  obtain k where k: "ro_pool k r (d_freebuf s)" using rx r by (auto simp: rx_ok_def)
  have e': "set (window r) = {None}" "ro_initialized r \<longrightarrow> ro_min_seqn r = q" "fb_used_head (d_freebuf s) = []"
    using e r by (simp_all add: expects_def)
  have none: "window r ! i = None" if "i < length (window r)" for i using nth_mem [OF that] e'(1) by simp
  have "slots pay ds {} 0 (window r)" for pay using none by (simp add: slots_def)
  moreover have "length (window r) = 2 ^ k" using k ro_wf_facts(3) by (auto simp: ro_pool_def ro_inv_def)
  ultimately show ?thesis using k e' r by (intro exI [of _ k]) (simp add: holding_def)
qed

text \<open>
  C1: Packets cross the tunnel in order. One daemon reads packets from its device, up to as many as the reorder window and the pool of the other
  hold, and the scheduler and the filters spread them over its tunnels. The network delivers the datagrams in any order, over any tunnels of the
  other daemon that are authenticated. Then no step fails, and the device of the other daemon gets exactly these packets, unchanged, each of them once,
  and in the order in which the first device handed them over. Assumed: both share key and options, no packet is longer than the mtu of the
  device, nothing is waiting at either end, the receiver expects the next sequence number of the sender (or has seen none yet, and the first packet
  arrives first), and the timer that gives up waiting does not fire meanwhile.
\<close>

theorem packets_cross_in_order:
  assumes sender: "dinv a" "quiet a" and receiver: "dinv b" "expects (d_data_seq a) b" "d_reorder b = Some r"
    and keys: "d_key b = d_key a" "opt_cleartext_data (d_options b) = opt_cleartext_data (d_options a)" "sodium_ok S"
    and packets: "\<forall>x \<in> set rs. can_send S (d_maxmtu a) x" "length rs \<le> length (window r)" "length rs \<le> 512" "length rs \<le> tun_cap b"
    and network: "mset (map (fst \<circ> snd) arr) = mset [0..<length rs]" "\<forall>(E, x, i, from) \<in> set arr. en_sodium E = S \<and> takes_data b i from"
      "\<not> ro_initialized r \<longrightarrow> arr \<noteq> [] \<longrightarrow> fst (snd (hd arr)) = 0"
    and device: "length Es = length rs"
  shows "\<exists>a' ws b1 b2. ofold forward a rs = Ok a' \<and> datagrams (d_out a') = datagrams (d_out a) @ ws \<and> length ws = length rs \<and>
     ofold (arrive ws) b arr = Ok b1 \<and> ofold (\<lambda>s E. handle E TunWritable s) b1 Es = Ok b2 \<and>
     d_out b2 = d_out b @ map (\<lambda>(E, d). TunWrite d) rs"
proof -
  define ds where "ds = map snd rs"
  obtain a' ws where a': "ofold forward a rs = Ok a'" "length ws = length rs" "datagrams (d_out a') = datagrams (d_out a) @ ws"
    "\<forall>x<length rs. carries S (d_key a) (opt_cleartext_data (d_options a)) (d_data_seq a + of_nat x) (snd (rs ! x)) (ws ! x)"
    using forward_all [OF sender keys(3) packets(1)] by (elim exE conjE) (rule that)
  have ws: "\<forall>x<length ds. carries S (d_key b) (opt_cleartext_data (d_options b)) (d_data_seq a + of_nat x) (ds ! x) (ws ! x)"
    using a'(4) by (simp add: ds_def keys(1,2))
  obtain k where k: "length (window r) = 2 ^ k" "holding k (d_data_seq a) ds {} 0 b" using expects_holding [OF receiver] by blast
  have dis: "distinct (map (fst \<circ> snd) arr)" using network(1) mset_eq_imp_distinct_iff by fastforce
  have idx: "set (map (fst \<circ> snd) arr) = {..<length ds}" using mset_eq_setD [OF network(1)] by (auto simp: ds_def)
  then have arr: "\<forall>(E, x, i, from) \<in> set arr. x < length ds \<and> x \<notin> {} \<and> en_sodium E = S \<and> takes_data b i from"
    using network(2) by (force simp: set_eq_iff)
  have first: "\<not> ro_initialized (the (d_reorder b)) \<longrightarrow> arr \<noteq> [] \<longrightarrow> fst (snd (hd arr)) = 0" using network(3) receiver(3) by simp
  have len: "length ds \<le> 2 ^ k" "length ds \<le> 512" using packets(2,3) k(1) by (simp_all add: ds_def)
  obtain b1 j where b1: "ofold (arrive ws) b arr = Ok b1" "dinv b1" "holding k (d_data_seq a) ds ({} \<union> set (map (fst \<circ> snd) arr)) (0 + j) b1"
    "tun_queue b1 = lossy_app (tun_cap b) (tun_queue b) (take j (drop 0 ds))" "d_out b1 = d_out b"
    using arrive_all [OF receiver(1) k(2) len keys(3) ws arr dis first] by (elim exE conjE) (rule that)
  have "holding k (d_data_seq a) ds {..<length ds} j b1" using b1(3) idx by simp
  then have j: "j = length ds" by (rule holding_all [OF _ len(1)])
  have "tun_queue b = []" using receiver(2,3) by (simp add: expects_def)
  then have q: "tun_queue b1 = ds" using b1(4) packets(4) j by (simp add: lossy_app_def ds_def)
  have "length Es = length ds" using device by (simp add: ds_def)
  from device_all [OF b1(2) q this] obtain b2 where "ofold (\<lambda>s E. handle E TunWritable s) b1 Es = Ok b2" "d_out b2 = d_out b @ map TunWrite ds"
    using b1(5) by auto
  then show ?thesis using a'(1-3) b1(1) by (auto simp: ds_def case_prod_unfold comp_def)
qed

text \<open>Two authenticated tunnels, and a reorder buffer with eight places that expects the number 0.\<close>

definition ex_up :: mlvpn_tunnel_t where
  "ex_up = (rtun_new_struct ex_os ''dsl'' None (Some ''5080'') 0 (Some ''host'') (Some ''5080'') True 60 0 0 100 1000)
     \<lparr>t_addrinfo := ex_peer, t_fd := 7, t_io_read := True, t_status := MLVPN_AUTHOK\<rparr>"

definition ex_pair :: "mlvpn_reorder_buffer \<Rightarrow> daemon" where
  "ex_pair r = (daemon_boot ex_opts crypto_key_init (Some r))
     \<lparr>d_tunnels := (\<lambda>_. ex_up), d_rtuns := [0, 1], d_next := 2, d_wrr := \<lparr>wrr_tunnel = [0, 1], wrr_tunval = [0, 0]\<rparr>\<rparr>"

lemma ex_pair_ok:
  "\<exists>r. dinv (ex_pair r) \<and> quiet (ex_pair r) \<and> expects 0 (ex_pair r) \<and> ro_initialized r \<and> length (window r) = 8"
proof -
  let ?fb = "mlvpn_freebuffer_init 512"
  obtain b where b: "mlvpn_reorder_create (2 ^ 3) = Some b" "ro_inv 3 (pool_seq ?fb) b" "\<not> ro_initialized b"
    using create_spec [of 3] by auto
  let ?r = "b\<lparr>ro_min_seqn := 0, ro_initialized := True\<rparr>"
  have len: "length (window b) = 8" using b(2) ro_wf_facts(3) [of 3 b] by (simp add: ro_inv_def)
  have "some_of (window b) = []" using b(2,3) by (simp add: ro_inv_def)
  then have "set (window b) \<subseteq> {None}" by (auto simp: filter_empty_conv)
  moreover have "window b \<noteq> []" using len by auto
  ultimately have w: "set (window b) = {None}" by (metis set_empty subset_singletonD)
  then have no: "window b ! i \<noteq> Some q" if "i < length (window b)" for i q using nth_mem [OF that] by auto
  then have "labelled (pool_seq ?fb) ?r" by (simp add: labelled_def lab_def)
  then have "ro_pool 3 ?r ?fb" using b(2) w by (simp add: ro_pool_def ro_inv_def ro_drained_def)
  then have "rx_ok (ex_pair ?r)" using pool_init_ok by (auto simp: rx_ok_def dev_ok_def ex_pair_def daemon_boot_def mlvpn_tuntap_init_def)
  moreover have t: "tun_ok ex_up" "authenticated ex_up" "silent ex_up"
    by (simp_all add: tun_ok_def authenticated_def silent_def ex_up_def rtun_new_struct_def tunnel_zero_def)
  ultimately have "dinv (ex_pair ?r)"
    by (simp add: dinv_def base_ok_def wrr_inv_def wrr_wf_def ex_pair_def daemon_boot_def mlvpn_tuntap_init_def)
  moreover have "quiet (ex_pair ?r)" "expects 0 (ex_pair ?r)" using t(3) w
    by (simp_all add: quiet_def expects_def ex_pair_def daemon_boot_def mlvpn_tuntap_init_def tun_queue_def mlvpn_freebuffer_init_def)
  ultimately show ?thesis using len by (intro exI [of _ ?r]) simp
qed

theorem packets_cross_in_order_witness:
  "\<exists>r a' ws b1 b2. dinv (ex_pair r) \<and> quiet (ex_pair r) \<and> expects 0 (ex_pair r) \<and>
     ofold forward (ex_pair r) [(ex_os, [69, 1]), (ex_os, [69, 2]), (ex_os, [69, 3])] = Ok a' \<and> length ws = 3 \<and>
     ofold (arrive ws) (ex_pair r) [(ex_os, 2, 0, [3, 4]), (ex_os, 0, 1, [3, 4]), (ex_os, 1, 0, [3, 4])] = Ok b1 \<and>
     ofold (\<lambda>s E. handle E TunWritable s) b1 [ex_os, ex_os, ex_os] = Ok b2 \<and>
     d_out b2 = d_out (ex_pair r) @ [TunWrite [69, 1], TunWrite [69, 2], TunWrite [69, 3]]"
proof -
  obtain r where r: "dinv (ex_pair r)" "quiet (ex_pair r)" "expects 0 (ex_pair r)" "ro_initialized r" "length (window r) = 8"
    using ex_pair_ok by blast
  have f: "d_data_seq (ex_pair r) = 0" "d_reorder (ex_pair r) = Some r" "d_maxmtu (ex_pair r) = 1444" "tun_cap (ex_pair r) = 1024"
    "d_rtuns (ex_pair r) = [0, 1]" "tun (ex_pair r) i = ex_up" for i
    by (simp_all add: ex_pair_def daemon_boot_def mlvpn_tuntap_init_def PKTHDRSIZ_def tun_cap_def)
  have t: "takes_data (ex_pair r) i [3, 4]" if "i < 2" for i
    using that f(5,6) by (simp add: takes_data_def authenticated_def ex_up_def) linarith
  let ?rs = "[(ex_os, [69, 1]), (ex_os, [69, 2]), (ex_os, [69, 3])] :: (env \<times> bytes) list"
  let ?arr = "[(ex_os, 2, 0, [3, 4]), (ex_os, 0, 1, [3, 4]), (ex_os, 1, 0, [3, 4])] :: (env \<times> nat \<times> nat \<times> bytes) list"
  have "\<forall>x \<in> set ?rs. can_send tag_box (d_maxmtu (ex_pair r)) x" by (simp add: can_send_def f(3))
  moreover have "mset (map (fst \<circ> snd) ?arr) = mset [0..<length ?rs]" by (simp add: upt_rec)
  moreover have "\<forall>(E, x, i, from) \<in> set ?arr. en_sodium E = tag_box \<and> takes_data (ex_pair r) i from" using t by simp
  ultimately obtain a' ws b1 b2 where "ofold forward (ex_pair r) ?rs = Ok a'" "length ws = length ?rs" "ofold (arrive ws) (ex_pair r) ?arr = Ok b1"
    "ofold (\<lambda>s E. handle E TunWritable s) b1 [ex_os, ex_os, ex_os] = Ok b2" "d_out b2 = d_out (ex_pair r) @ map (\<lambda>(E, d). TunWrite d) ?rs"
    using packets_cross_in_order [of "ex_pair r" "ex_pair r" r tag_box ?rs ?arr "[ex_os, ex_os, ex_os]"] r f(1,2,4) tag_box_ok by auto
  then show ?thesis using r(1-3) by (intro exI [of _ r] exI [of _ a'] exI [of _ ws] exI [of _ b1] exI [of _ b2]) simp
qed

end
