(* ===== verification/Supervision.thy ===== *)
theory Supervision
  imports Transit Program
begin

text \<open>
  How two daemons watch the link between them (\<^verbatim>\<open>src/mlvpn.c\<close>): the keepalive packets of one end decide how long the other end keeps the tunnel, and an end that
  quits says so.
\<close>

section \<open>The timer of an authenticated tunnel\<close>

text \<open>Rating the quality of a link only changes its status, among those of an authenticated tunnel, and the scheduler.\<close>

definition rated :: "nat \<Rightarrow> daemon \<Rightarrow> daemon \<Rightarrow> bool" where
  "rated i s s' \<longleftrightarrow> (\<exists>st. d_tunnels s' = (d_tunnels s)(i := (tun s i)\<lparr>t_status := st\<rparr>) \<and>
     (MLVPN_AUTHOK \<le> st \<longleftrightarrow> authenticated (tun s i))) \<and> d_out s' = d_out s"

lemma rated_refl: "rated i s s"
  unfolding rated_def by (intro conjI exI [of _ "t_status (tun s i)"]) (simp_all add: authenticated_def)

lemma rated_trans:
  assumes "rated i a b" and "rated i b c"
  shows "rated i a c"
proof -
  obtain x where x: "d_tunnels b = (d_tunnels a)(i := (tun a i)\<lparr>t_status := x\<rparr>)" "MLVPN_AUTHOK \<le> x \<longleftrightarrow> authenticated (tun a i)" "d_out b = d_out a"
    using assms(1) by (auto simp: rated_def)
  obtain y where y: "d_tunnels c = (d_tunnels b)(i := (tun b i)\<lparr>t_status := y\<rparr>)" "MLVPN_AUTHOK \<le> y \<longleftrightarrow> authenticated (tun b i)" "d_out c = d_out b"
    using assms(2) by (auto simp: rated_def)
  have t: "tun b i = (tun a i)\<lparr>t_status := x\<rparr>" by (simp add: x(1))
  then have "d_tunnels c = (d_tunnels a)(i := (tun a i)\<lparr>t_status := y\<rparr>)" using y(1) unfolding t x(1) by simp
  moreover have "MLVPN_AUTHOK \<le> y \<longleftrightarrow> authenticated (tun a i)" using y(2) x(2) unfolding t by (simp add: authenticated_def)
  ultimately show ?thesis using x(3) y(3) by (auto simp: rated_def)
qed

lemma fallback_keeps:
  assumes "switch_to_fallback_if_necessary s = Ok s'"
  shows "d_tunnels s' = d_tunnels s" and "d_out s' = d_out s"
  using assms by (auto simp: switch_to_fallback_if_necessary_def wrr_reset_def obind_eq_Ok_iff split: if_splits)

lemma rated_switch:
  assumes "switch_to_fallback_if_necessary (upd i (\<lambda>t. t\<lparr>t_status := st\<rparr>) s) = Ok s'" and "MLVPN_AUTHOK \<le> st" and "authenticated (tun s i)"
  shows "rated i s s'"
  using fallback_keeps [OF assms(1)] assms(2,3) unfolding rated_def
  by (intro conjI exI [of _ st]) (simp_all add: upd_def)

lemma check_lossy_rated:
  assumes "mlvpn_rtun_check_lossy i s = Ok s'"
  shows "rated i s s'"
  using assms rated_switch [of i _ s s'] rated_refl [of i s]
  by (auto simp: mlvpn_rtun_check_lossy_def Let_def authenticated_def split: if_splits)

lemma check_slow_rated:
  assumes "mlvpn_rtun_check_slow i s = Ok s'"
  shows "rated i s s'"
  using assms rated_switch [of i _ s s'] rated_refl [of i s]
  by (auto simp: mlvpn_rtun_check_slow_def Let_def authenticated_def split: if_splits)

text \<open>The timer after the check of the keepalive.\<close>

lemma timeout_rated:
  assumes inv: "dinv s" and i: "i \<in> set (d_rtuns s)" and a: "check_alive E i s = Ok s1"
  shows "\<exists>s'. handle E (RtunTimeout i) s = Ok s' \<and> runs False i s (Ok s') \<and> rated i (start_write_if_queued i s1) s'"
proof -
  obtain s' where s': "mlvpn_rtun_check_timeout E i s = Ok s'" "runs False i s (Ok s')"
    using runs_check_timeout [OF inv i, of E] unfolding runs_def by auto
  then have "obind (mlvpn_rtun_check_lossy i (start_write_if_queued i s1)) (mlvpn_rtun_check_slow i) = Ok s'"
    using a by (simp add: mlvpn_rtun_check_timeout_def)
  then obtain s2 where "mlvpn_rtun_check_lossy i (start_write_if_queued i s1) = Ok s2" "mlvpn_rtun_check_slow i s2 = Ok s'"
    by (auto simp: obind_eq_Ok_iff)
  then have "rated i (start_write_if_queued i s1) s'" using check_lossy_rated check_slow_rated rated_trans by blast
  then show ?thesis using s' by (simp add: handle_def)
qed

text \<open>The last keepalive of the peer is too old.\<close>

definition expired :: "env \<Rightarrow> mlvpn_tunnel_t \<Rightarrow> bool" where
  "expired E t \<longleftrightarrow> 0 < t_timeout t \<and> t_last_keepalive_ack t \<noteq> 0 \<and> t_last_keepalive_ack t + of_nat (unat (t_timeout t)) < en_now E"

lemma check_alive_authenticated:
  assumes "authenticated (tun s i)"
  shows "check_alive E i s = (if expired E (tun s i) then mlvpn_rtun_status_down i s
     else Ok (if 0 < t_timeout (tun s i) \<and> t_next_keepalive (tun s i) < en_now E then mlvpn_rtun_send_keepalive (en_now E) i s else s))"
proof -
  have "MLVPN_AUTHOK \<le> t_status (tun s i)" "\<not> t_status (tun s i) < MLVPN_AUTHOK" using assms by (simp_all add: authenticated_def not_less)
  then show ?thesis by (auto simp: check_alive_def Let_def expired_def)
qed

lemma down_not_scheduled:
  assumes "dinv s" and "\<not> authenticated (tun s i)"
  shows "i \<notin> set (wrr_tunnel (d_wrr s))"
  using assms by (auto simp: dinv_def wrr_inv_def)

lemma timer_expired:
  assumes inv: "dinv s" and i: "i \<in> set (d_rtuns s)" and a: "authenticated (tun s i)" and e: "expired E (tun s i)"
  shows "\<exists>s'. handle E (RtunTimeout i) s = Ok s' \<and> runs False i s (Ok s') \<and> \<not> authenticated (tun s' i) \<and> i \<notin> set (wrr_tunnel (d_wrr s'))"
proof -
  obtain s1 where s1: "mlvpn_rtun_status_down i s = Ok s1" "d_tunnels s1 = (d_tunnels s)(i := went_down (tun s i))"
    using status_down_ok [OF inv i] by blast
  have "check_alive E i s = Ok s1" using e s1(1) by (simp add: check_alive_authenticated [OF a])
  from timeout_rated [OF inv i this] obtain s' where s': "handle E (RtunTimeout i) s = Ok s'" "runs False i s (Ok s')"
    "rated i (start_write_if_queued i s1) s'" by blast
  have "tun s1 i = went_down (tun s i)" by (simp add: s1(2))
  then have "t_status (tun s1 i) = MLVPN_DISCONNECTED" by (simp add: went_down_def)
  then have "\<not> authenticated (tun (start_write_if_queued i s1) i)" by (simp add: start_write_if_queued_def authenticated_def)
  then have "\<not> authenticated (tun s' i)" using s'(3) by (auto simp: rated_def authenticated_def)
  then show ?thesis using s'(1,2) down_not_scheduled [OF runs_Ok_dinv(1) [OF s'(2)]] by blast
qed

lemma timer_alive:
  assumes inv: "dinv s" and i: "i \<in> set (d_rtuns s)" and a: "authenticated (tun s i)" and e: "\<not> expired E (tun s i)"
  shows "\<exists>s'. handle E (RtunTimeout i) s = Ok s' \<and> runs False i s (Ok s') \<and> authenticated (tun s' i)"
proof -
  define s1 where "s1 = (if 0 < t_timeout (tun s i) \<and> t_next_keepalive (tun s i) < en_now E then mlvpn_rtun_send_keepalive (en_now E) i s else s)"
  have "check_alive E i s = Ok s1" using e by (simp add: check_alive_authenticated [OF a] s1_def)
  from timeout_rated [OF inv i this] obtain s' where s': "handle E (RtunTimeout i) s = Ok s'" "runs False i s (Ok s')"
    "rated i (start_write_if_queued i s1) s'" by blast
  have "t_status (tun s1 i) = t_status (tun s i)" by (simp add: s1_def mlvpn_rtun_send_keepalive_def)
  then have "authenticated (tun (start_write_if_queued i s1) i)" using a by (simp add: start_write_if_queued_def authenticated_def)
  then have "authenticated (tun s' i)" using s'(3) by (auto simp: rated_def authenticated_def)
  then show ?thesis using s'(1,2) by blast
qed

text \<open>A keepalive that is due is queued.\<close>

lemma timer_keepalive:
  assumes inv: "dinv s" and i: "i \<in> set (d_rtuns s)" and a: "authenticated (tun s i)" and e: "\<not> expired E (tun s i)"
    and due: "0 < t_timeout (tun s i)" "t_next_keepalive (tun s i) < en_now E" and q: "silent (tun s i)"
  shows "\<exists>s' p. handle E (RtunTimeout i) s = Ok s' \<and> runs False i s (Ok s') \<and> d_out s' = d_out s \<and>
     cb_list (t_hpsbuf (tun s' i)) = [p] \<and> pkt_type p = MLVPN_PKT_KEEPALIVE \<and> pkt_len p = 0 \<and> t_sbuf (tun s' i) = t_sbuf (tun s i) \<and>
     t_addrinfo (tun s' i) = t_addrinfo (tun s i) \<and> t_io_write (tun s' i)"
proof -
  let ?b = "t_hpsbuf (tun s i)"
  define p where "p = (cb_fresh ?b)\<lparr>pkt_type := MLVPN_PKT_KEEPALIVE\<rparr>"
  define s1 where "s1 = mlvpn_rtun_send_keepalive (en_now E) i s"
  have wf: "cb_wf ?b" using tunE [OF inv i] by (simp add: tun_ok_def buf_ok_def)
  have l: "cb_list ?b = []" using q cb_empty_iff [OF wf] by (simp add: silent_def)
  then have full: "\<not> mlvpn_cb_is_full ?b" using wf by (simp add: cb_full_iff cb_wf_def)
  have c: "check_alive E i s = Ok s1" using e due by (simp add: check_alive_authenticated [OF a] s1_def)
  have t: "t_hpsbuf (tun s1 i) = pktbuffer_put (\<lambda>p. p\<lparr>pkt_type := MLVPN_PKT_KEEPALIVE\<rparr>) ?b" "t_sbuf (tun s1 i) = t_sbuf (tun s i)"
    "t_addrinfo (tun s1 i) = t_addrinfo (tun s i)" "d_out s1 = d_out s"
    using full by (simp_all add: s1_def mlvpn_rtun_send_keepalive_def)
  have hp: "cb_list (t_hpsbuf (tun s1 i)) = [p]" using wf l full by (simp add: t(1) cb_list_put p_def)
  then have ne: "\<not> mlvpn_cb_is_empty (t_hpsbuf (tun s1 i))" using wf unfolding t(1) by (simp add: cb_empty_iff)
  define s2 where "s2 = start_write_if_queued i s1"
  have t2: "t_hpsbuf (tun s2 i) = t_hpsbuf (tun s1 i)" "t_sbuf (tun s2 i) = t_sbuf (tun s1 i)" "t_addrinfo (tun s2 i) = t_addrinfo (tun s1 i)"
    "d_out s2 = d_out s1" "t_io_write (tun s2 i)" using ne by (simp_all add: s2_def start_write_if_queued_def)
  obtain s' where s': "handle E (RtunTimeout i) s = Ok s'" "runs False i s (Ok s')" "rated i s2 s'"
    using timeout_rated [OF inv i c] unfolding s2_def by blast
  obtain st where "tun s' i = (tun s2 i)\<lparr>t_status := st\<rparr>" "d_out s' = d_out s2" using s'(3) by (auto simp: rated_def)
  then have "cb_list (t_hpsbuf (tun s' i)) = [p]" "t_sbuf (tun s' i) = t_sbuf (tun s i)" "t_addrinfo (tun s' i) = t_addrinfo (tun s i)" "t_io_write (tun s' i)"
    "d_out s' = d_out s" using t t2 hp by simp_all
  moreover have "pkt_type p = MLVPN_PKT_KEEPALIVE" "pkt_len p = 0" by (simp_all add: p_def cb_fresh_def)
  ultimately show ?thesis using s'(1,2) by blast
qed

section \<open>Control packets arrive\<close>

text \<open>The datagram \<open>w\<close> is a packet of type \<open>ty\<close> that one end made for the other.\<close>

definition signals :: "sodium \<Rightarrow> bytes \<Rightarrow> bool \<Rightarrow> u8 \<Rightarrow> bytes \<Rightarrow> bool" where
  "signals S key clear ty w \<longleftrightarrow> length w \<le> DEFAULT_MTU \<and>
     (\<exists>P t0 q p t' q'. pe_sodium P = S \<and> pe_key P = key \<and> pe_cleartext P = clear \<and> rtun_encap P t0 q p = Ok (Some w, t', q') \<and>
        pkt_wf p \<and> pkt_type p = ty)"

lemma control_arrives:
  assumes inv: "dinv s" and i: "takes_data s i from" and S: "sodium_ok (en_sodium E)"
    and w: "signals (en_sodium E) (d_key s) (opt_cleartext_data (d_options s)) ty w" and ty: "ty \<noteq> MLVPN_PKT_DATA" "ty < 64"
  shows "\<exists>d s2. handle E (RtunRead i (RecvData w from)) s = mlvpn_rtun_dispatch E d i s2 \<and> runs False i s (Ok s2) \<and>
     pkt_type d = ty \<and> authenticated (tun s2 i)"
proof -
  obtain P t0 q p t' q' where P: "pe_sodium P = en_sodium E" "pe_key P = d_key s" "pe_cleartext P = opt_cleartext_data (d_options s)"
    "rtun_encap P t0 q p = Ok (Some w, t', q')" "pkt_wf p" "pkt_type p = ty"
    and len: "length w \<le> DEFAULT_MTU" using w unfolding signals_def by (elim exE conjE) (rule that)
  have keys: "same_keys P (penv E s)" using P(1-3) by (simp add: same_keys_def penv_def)
  have "sodium_ok (pe_sodium P)" "pkt_type p < 64" "pkt_type p = MLVPN_PKT_DATA \<Longrightarrow> pkt_len p \<noteq> 0" using P(1,6) S ty by simp_all
  from encap_read [where rtun = "tun s i", OF keys this(1) P(5) this(2) this(3) P(4) len raw_pkt_facts [OF len]]
  obtain t1 d where acc: "mlvpn_protocol_read (penv E s) (tun s i) (raw_pkt w) = Some (t1, d)" and d: "pkt_type d = ty"
    using P(6) by auto
  note t = i [unfolded takes_data_def]
  have r: "recv_ok (RecvData w from) (tun s i)" using t len by (simp add: recv_ok_def)
  obtain s2 where "mlvpn_rtun_read E (RecvData w from) i s = mlvpn_rtun_dispatch E d i s2" "runs False i s (Ok s2)"
    "t_status (tun s2 i) = t_status (tun s i)" using read_accepted [OF inv _ _ r S acc] t by blast
  then show ?thesis using t d by (intro exI [of _ d] exI [of _ s2]) (simp add: handle_def authenticated_def)
qed

lemma keepalive_arrives:
  assumes inv: "dinv s" and i: "takes_data s i from" and S: "sodium_ok (en_sodium E)"
    and w: "signals (en_sodium E) (d_key s) (opt_cleartext_data (d_options s)) MLVPN_PKT_KEEPALIVE w"
  shows "\<exists>s'. handle E (RtunRead i (RecvData w from)) s = Ok s' \<and> dinv s' \<and> same_net s s' \<and> authenticated (tun s' i) \<and>
     t_last_keepalive_ack (tun s' i) = en_now E"
proof -
  have "MLVPN_PKT_KEEPALIVE \<noteq> MLVPN_PKT_DATA" "MLVPN_PKT_KEEPALIVE < 64" by simp_all
  from control_arrives [OF inv i S w this] obtain d s2 where s2: "handle E (RtunRead i (RecvData w from)) s = mlvpn_rtun_dispatch E d i s2"
    "runs False i s (Ok s2)" "pkt_type d = MLVPN_PKT_KEEPALIVE" "authenticated (tun s2 i)" by blast
  have i2: "i \<in> set (d_rtuns s2)" "dinv s2" using i runs_Ok_dinv [OF s2(2)] by (auto simp: takes_data_def)
  have k: "MLVPN_AUTHOK \<le> t_status (tun s2 i)" using s2(4) by (simp add: authenticated_def)
  let ?s1 = "upd i (\<lambda>t. t\<lparr>t_last_keepalive_ack := en_now E\<rparr>) (mlvpn_rtun_tick E i s2)"
  let ?s' = "if t_last_keepalive_ack_sent (tun ?s1 i) + 1 < t_last_keepalive_ack (tun ?s1 i)
     then mlvpn_rtun_send_keepalive (t_last_keepalive_ack (tun ?s1 i)) i (upd i (\<lambda>t. t\<lparr>t_last_keepalive_ack_sent := t_last_keepalive_ack t\<rparr>) ?s1)
     else ?s1"
  have ai: "t_addrinfo (tun s2 i) \<noteq> []" by (rule authenticated_addr [OF i2(2,1) k])
  have r: "runs False i s2 (Ok ?s')" using runs_keepalive_read [OF i2(2,1) ai, of E] unfolding Let_def by (simp only: if_distrib [of Ok])
  obtain s' where s': "s' = ?s'" by blast
  have eq: "mlvpn_rtun_dispatch E d i s2 = Ok s'"
    unfolding s' mlvpn_rtun_dispatch_def Let_def using s2(3) k by (simp only: if_distrib [of Ok]) simp
  have f: "t_last_keepalive_ack (tun s' i) = en_now E" "t_status (tun s' i) = t_status (tun s2 i)"
    unfolding s' by (simp_all add: mlvpn_rtun_send_keepalive_def mlvpn_rtun_tick_def)
  have "runs False i s2 (Ok s')" unfolding s' by (rule r)
  then have "runs False i s (Ok s')" by (rule runs_trans [OF s2(2)])
  then show ?thesis using s2(1) eq f k by (intro exI [of _ s']) (simp add: runs_def authenticated_def)
qed

lemma disconnect_arrives:
  assumes inv: "dinv s" and i: "takes_data s i from" and S: "sodium_ok (en_sodium E)"
    and w: "signals (en_sodium E) (d_key s) (opt_cleartext_data (d_options s)) MLVPN_PKT_DISCONNECT w"
  shows "\<exists>s'. handle E (RtunRead i (RecvData w from)) s = Ok s' \<and> dinv s' \<and> same_net s s' \<and> \<not> authenticated (tun s' i) \<and>
     i \<notin> set (wrr_tunnel (d_wrr s')) \<and> (\<forall>j. j \<noteq> i \<longrightarrow> tun s' j = tun s j)"
proof -
  have "MLVPN_PKT_DISCONNECT \<noteq> MLVPN_PKT_DATA" "MLVPN_PKT_DISCONNECT < 64" by simp_all
  from control_arrives [OF inv i S w this] obtain d s2 where s2: "handle E (RtunRead i (RecvData w from)) s = mlvpn_rtun_dispatch E d i s2"
    "runs False i s (Ok s2)" "pkt_type d = MLVPN_PKT_DISCONNECT" "authenticated (tun s2 i)" by blast
  have i2: "i \<in> set (d_rtuns s2)" "dinv s2" using i runs_Ok_dinv [OF s2(2)] by (auto simp: takes_data_def)
  obtain s' where s': "mlvpn_rtun_status_down i s2 = Ok s'" "dinv s'" "same_net s2 s'" "d_tunnels s' = (d_tunnels s2)(i := went_down (tun s2 i))"
    using status_down_ok [OF i2(2,1)] by blast
  have eq: "handle E (RtunRead i (RecvData w from)) s = Ok s'"
    using s2(1,3,4) s'(1) by (simp add: mlvpn_rtun_dispatch_def authenticated_def)
  have "tun s' i = went_down (tun s2 i)" by (simp add: s'(4))
  then have down: "\<not> authenticated (tun s' i)" by (simp add: authenticated_def went_down_def)
  have "same_net s s'" using s2(2) s'(3) same_net_trans unfolding runs_def by blast
  moreover have "\<forall>j. j \<noteq> i \<longrightarrow> tun s' j = tun s j" using s2(2) s'(4) by (simp add: runs_def)
  ultimately show ?thesis using eq s'(2) down down_not_scheduled [OF s'(2) down] by blast
qed

lemma encap_signals:
  assumes "rtun_encap (penv E s) t0 q (p\<lparr>pkt_reorder := 1\<rparr>) = Ok (Some w, t', q')" and "pkt_wf (p\<lparr>pkt_reorder := 1\<rparr>)" and "length w \<le> DEFAULT_MTU"
  shows "signals (en_sodium E) (d_key s) (opt_cleartext_data (d_options s)) (pkt_type p) w"
  unfolding signals_def using assms
  by (intro conjI exI [of _ "penv E s"] exI [of _ t0] exI [of _ q] exI [of _ "p\<lparr>pkt_reorder := 1\<rparr>"] exI [of _ t'] exI [of _ q'])
    (simp_all add: penv_def)

lemma control_sent:
  assumes inv: "dinv s" and i: "i \<in> set (d_rtuns s)" and S: "sodium_ok (en_sodium E)" and p: "cb_list (t_hpsbuf (tun s i)) = [p]" "pkt_len p = 0"
    and ai: "t_addrinfo (tun s i) \<noteq> []" and net: "\<And>fd w a. 0 \<le> en_sendto E fd w a" and q: "mlvpn_cb_is_empty (t_sbuf (tun s i))"
  shows "\<exists>s' w. handle E (RtunWrite i) s = Ok s' \<and> sent w s s' \<and> signals (en_sodium E) (d_key s) (opt_cleartext_data (d_options s)) (pkt_type p) w"
proof -
  obtain a as where a: "t_addrinfo (tun s i) = a # as" using ai by (cases "t_addrinfo (tun s i)") auto
  have "unat (pkt_len p) \<le> 1456" using p(2) by simp
  from hp_write [OF inv i S p(1) this a net q] obtain s' w t0 t' q' where s': "mlvpn_rtun_write E i s = Ok s'"
    "d_out s' = d_out s @ [SendTo (t_fd (tun s i)) w (ai_addr a)]" "length w \<le> DEFAULT_MTU"
    "rtun_encap (penv E s) t0 (d_data_seq s) (p\<lparr>pkt_reorder := 1\<rparr>) = Ok (Some w, t', q')" "pkt_wf (p\<lparr>pkt_reorder := 1\<rparr>)" by blast
  have "handle E (RtunWrite i) s = Ok s'" "sent w s s'" using s'(1,2) by (auto simp: handle_def sent_def)
  then show ?thesis using encap_signals [OF s'(4,5,3)] by blast
qed

section \<open>Properties\<close>

text \<open>
  C7: Keepalives decide about the link. When the timer of an authenticated tunnel that has nothing to send fires and a keepalive is due, one is sent; when the other end, which shares the key,
  reads it, its tunnel stays authenticated and gets a new deadline, its timeout counted from now: whenever the timer of that end fires up to the deadline, the tunnel
  stays authenticated; when it fires after the deadline without another keepalive, the tunnel is taken down and out of the scheduler, and no other tunnel is touched.
\<close>

theorem keepalive_decides_link:
  assumes c: "dinv c" "i \<in> set (d_rtuns c)" "authenticated (tun c i)" "silent (tun c i)" "\<not> expired E1 (tun c i)" "0 < t_timeout (tun c i)"
      "t_next_keepalive (tun c i) < en_now E1"
    and s: "dinv s" "takes_data s j from" "0 < t_timeout (tun s j)"
    and keys: "d_key s = d_key c" "opt_cleartext_data (d_options s) = opt_cleartext_data (d_options c)"
    and env: "sodium_ok S" "en_sodium E2 = S" "en_sodium E3 = S" "\<And>fd w a. 0 \<le> en_sendto E2 fd w a" "en_now E3 \<noteq> 0"
  defines "deadline \<equiv> en_now E3 + of_nat (unat (t_timeout (tun s j)))"
  shows "\<exists>c1 c2 w s1. handle E1 (RtunTimeout i) c = Ok c1 \<and> enabled E2 (RtunWrite i) c1 \<and> handle E2 (RtunWrite i) c1 = Ok c2 \<and> sent w c1 c2 \<and>
     handle E3 (RtunRead j (RecvData w from)) s = Ok s1 \<and> authenticated (tun s1 j) \<and>
     (\<forall>E4. en_now E4 \<le> deadline \<longrightarrow> (\<exists>s2. handle E4 (RtunTimeout j) s1 = Ok s2 \<and> authenticated (tun s2 j))) \<and>
     (\<forall>E4. deadline < en_now E4 \<longrightarrow> (\<exists>s2. handle E4 (RtunTimeout j) s1 = Ok s2 \<and> \<not> authenticated (tun s2 j) \<and>
        j \<notin> set (wrr_tunnel (d_wrr s2)) \<and> (\<forall>k. k \<noteq> j \<longrightarrow> tun s2 k = tun s1 k)))"
proof -
  obtain c1 p where c1: "handle E1 (RtunTimeout i) c = Ok c1" "runs False i c (Ok c1)" "cb_list (t_hpsbuf (tun c1 i)) = [p]"
    "pkt_type p = MLVPN_PKT_KEEPALIVE" "pkt_len p = 0" "t_sbuf (tun c1 i) = t_sbuf (tun c i)" "t_addrinfo (tun c1 i) = t_addrinfo (tun c i)" "t_io_write (tun c1 i)"
    using timer_keepalive [OF c(1-3,5-7,4)] by blast
  have i1: "dinv c1" "i \<in> set (d_rtuns c1)" using runs_Ok_dinv [OF c1(2)] c(2) by simp_all
  have ai: "t_addrinfo (tun c1 i) \<noteq> []" unfolding c1(7) by (rule authenticated_addr [OF c(1,2)]) (use c(3) in \<open>simp add: authenticated_def\<close>)
  have e: "mlvpn_cb_is_empty (t_sbuf (tun c1 i))" using c(4) c1(6) by (simp add: silent_def)
  have S: "sodium_ok (en_sodium E2)" "sodium_ok (en_sodium E3)" using env(1-3) by simp_all
  obtain c2 w where c2: "handle E2 (RtunWrite i) c1 = Ok c2" "sent w c1 c2"
    "signals (en_sodium E2) (d_key c1) (opt_cleartext_data (d_options c1)) (pkt_type p) w"
    using control_sent [OF i1 S(1) c1(3,5) ai env(4) e] by blast
  have "d_key c1 = d_key c" "d_options c1 = d_options c" using c1(2) by (simp_all add: runs_def same_net_def)
  then have w: "signals (en_sodium E3) (d_key s) (opt_cleartext_data (d_options s)) MLVPN_PKT_KEEPALIVE w"
    using c2(3) c1(4) keys env(2,3) by simp
  obtain s1 where s1: "handle E3 (RtunRead j (RecvData w from)) s = Ok s1" "dinv s1" "same_net s s1" "authenticated (tun s1 j)"
    "t_last_keepalive_ack (tun s1 j) = en_now E3" using keepalive_arrives [OF s(1,2) S(2) w] by blast
  have j: "j \<in> set (d_rtuns s1)" "t_timeout (tun s1 j) = t_timeout (tun s j)" using s(2) s1(3) by (auto simp: takes_data_def same_net_def ident_def)
  have ex: "expired E4 (tun s1 j) \<longleftrightarrow> deadline < en_now E4" for E4
    using s(3) env(5) by (simp add: expired_def deadline_def s1(5) j(2))
  have "\<exists>s2. handle E4 (RtunTimeout j) s1 = Ok s2 \<and> authenticated (tun s2 j)" if "en_now E4 \<le> deadline" for E4
    using timer_alive [OF s1(2) j(1) s1(4), of E4] that by (auto simp: ex)
  moreover have "\<exists>s2. handle E4 (RtunTimeout j) s1 = Ok s2 \<and> \<not> authenticated (tun s2 j) \<and> j \<notin> set (wrr_tunnel (d_wrr s2)) \<and>
      (\<forall>k. k \<noteq> j \<longrightarrow> tun s2 k = tun s1 k)" if "deadline < en_now E4" for E4
    using timer_expired [OF s1(2) j(1) s1(4), of E4] that unfolding ex runs_def by auto
  moreover have "enabled E2 (RtunWrite i) c1" using i1(2) c1(8) by (simp add: enabled_def)
  ultimately show ?thesis using c1(1) c2(1,2) s1(1,4) by blast
qed

text \<open>Two daemons as in the transit of packets.\<close>

lemma ex_pair_fields:
  "d_rtuns (ex_pair r) = [0, 1]" "tun (ex_pair r) i = ex_up" "d_out (ex_pair r) = []"
  "authenticated ex_up" "silent ex_up" "t_timeout ex_up = 60" "t_next_keepalive ex_up = 0" "t_last_keepalive_ack ex_up = 0"
  "i < 2 \<Longrightarrow> takes_data (ex_pair r) i [3, 4]"
  by (auto simp: takes_data_def ex_pair_def daemon_boot_def mlvpn_tuntap_init_def authenticated_def silent_def ex_up_def rtun_new_struct_def tunnel_zero_def)

theorem keepalive_decides_link_witness:
  "\<exists>r c1 c2 w s1. dinv (ex_pair r) \<and> handle ex_os (RtunTimeout 0) (ex_pair r) = Ok c1 \<and> handle ex_os (RtunWrite 0) c1 = Ok c2 \<and> sent w c1 c2 \<and>
     handle ex_os (RtunRead 1 (RecvData w [3, 4])) (ex_pair r) = Ok s1 \<and>
     (\<exists>s2. handle (ex_os\<lparr>en_now := 65\<rparr>) (RtunTimeout 1) s1 = Ok s2 \<and> authenticated (tun s2 1)) \<and>
     (\<exists>s2. handle (ex_os\<lparr>en_now := 66\<rparr>) (RtunTimeout 1) s1 = Ok s2 \<and> \<not> authenticated (tun s2 1))"
proof -
  obtain r where r: "dinv (ex_pair r)" using ex_pair_ok by blast
  let ?c = "ex_pair r"
  have c: "0 \<in> set (d_rtuns ?c)" "authenticated (tun ?c 0)" "silent (tun ?c 0)" "\<not> expired ex_os (tun ?c 0)" "0 < t_timeout (tun ?c 0)"
    "t_next_keepalive (tun ?c 0) < en_now ex_os" "takes_data ?c 1 [3, 4]" "0 < t_timeout (tun ?c 1)"
    by (simp_all add: ex_pair_fields expired_def)
  have e: "en_sodium ex_os = tag_box" "\<And>fd w a. 0 \<le> en_sendto ex_os fd w a" "en_now ex_os \<noteq> 0" by simp_all
  obtain c1 c2 w s1 where s: "handle ex_os (RtunTimeout 0) ?c = Ok c1" "handle ex_os (RtunWrite 0) c1 = Ok c2" "sent w c1 c2"
    "handle ex_os (RtunRead 1 (RecvData w [3, 4])) ?c = Ok s1"
    and up: "\<forall>E4. en_now E4 \<le> en_now ex_os + of_nat (unat (t_timeout (tun ?c 1))) \<longrightarrow> (\<exists>s2. handle E4 (RtunTimeout 1) s1 = Ok s2 \<and> authenticated (tun s2 1))"
    and down: "\<forall>E4. en_now ex_os + of_nat (unat (t_timeout (tun ?c 1))) < en_now E4 \<longrightarrow> (\<exists>s2. handle E4 (RtunTimeout 1) s1 = Ok s2 \<and>
      \<not> authenticated (tun s2 1) \<and> 1 \<notin> set (wrr_tunnel (d_wrr s2)) \<and> (\<forall>k. k \<noteq> 1 \<longrightarrow> tun s2 k = tun s1 k))"
    using keepalive_decides_link [OF r c(1-6) r c(7,8) refl refl tag_box_ok e(1,1) e(2,3)] by (elim exE conjE) (rule that)
  have d: "en_now ex_os + of_nat (unat (t_timeout (tun ?c 1))) = 65" by (simp add: ex_pair_fields)
  have "\<exists>s2. handle (ex_os\<lparr>en_now := 65\<rparr>) (RtunTimeout 1) s1 = Ok s2 \<and> authenticated (tun s2 1)"
    using up [unfolded d, rule_format, of "ex_os\<lparr>en_now := 65\<rparr>"] by simp
  moreover have "\<exists>s2. handle (ex_os\<lparr>en_now := 66\<rparr>) (RtunTimeout 1) s1 = Ok s2 \<and> \<not> authenticated (tun s2 1)"
    using down [unfolded d, rule_format, of "ex_os\<lparr>en_now := 66\<rparr>"] by auto
  ultimately show ?thesis using r s by blast
qed

section \<open>Quitting\<close>

text \<open>
  One packet is sent for a tunnel: the oldest of its queue of control packets, which is the disconnect packet when nothing else was waiting there.
\<close>

lemma disconnect_sends:
  assumes inv: "dinv s" and i: "i \<in> set (d_rtuns s)" and ai: "t_addrinfo (tun s i) \<noteq> []" and S: "sodium_ok (en_sodium E)"
    and net: "\<And>fd w a. 0 \<le> en_sendto E fd w a" and full: "\<not> mlvpn_cb_is_full (t_hpsbuf (tun s i))"
    and len: "\<forall>p \<in> set (cb_list (t_hpsbuf (tun s i))). unat (pkt_len p) \<le> 1456"
  shows "\<exists>s' w. mlvpn_rtun_send_disconnect E i s = Ok s' \<and> sent w s s' \<and> signals (en_sodium E) (d_key s) (opt_cleartext_data (d_options s))
     (case cb_list (t_hpsbuf (tun s i)) of [] \<Rightarrow> MLVPN_PKT_DISCONNECT | p # ps \<Rightarrow> pkt_type p) w"
proof -
  let ?b = "t_hpsbuf (tun s i)" and ?f = "\<lambda>p. p\<lparr>pkt_type := MLVPN_PKT_DISCONNECT\<rparr>"
  define s0 where "s0 = upd i (\<lambda>t. t\<lparr>t_hpsbuf := pktbuffer_put ?f (t_hpsbuf t)\<rparr>) s"
  have r0: "runs False i s (Ok s0)"
    unfolding s0_def by (rule runs_put [where k = "\<lambda>t. t", OF inv ai]) (simp_all add: pkt_wf_def)
  note d0 = runs_Ok_dinv [OF r0]
  have i0: "i \<in> set (d_rtuns s0)" using i d0(2) by simp
  have send: "mlvpn_rtun_send_disconnect E i s = mlvpn_rtun_send E i True s0"
    using full by (simp add: mlvpn_rtun_send_disconnect_def s0_def upd_def)
  obtain a as where a: "t_addrinfo (tun s0 i) = a # as" using ai by (cases "t_addrinfo (tun s i)") (auto simp: s0_def)
  have wf: "cb_wf ?b" using tunE [OF inv i] by (simp add: tun_ok_def buf_ok_def)
  have l: "cb_list (t_hpsbuf (tun s0 i)) = cb_list ?b @ [?f (cb_fresh ?b)]" using full wf by (simp add: s0_def cb_list_put)
  then obtain p ps where p: "cb_list (t_hpsbuf (tun s0 i)) = p # ps" by (cases "cb_list ?b") auto
  have "p \<in> set (cb_list ?b) \<or> p = ?f (cb_fresh ?b)" using l p by (cases "cb_list ?b") auto
  then have "unat (pkt_len p) \<le> 1456" using len by (auto simp: cb_fresh_def)
  from hp_send [OF d0(1) i0 S p this a net] obtain s' w t0 t' q' where s': "mlvpn_rtun_send E i True s0 = Ok s'"
    "d_out s' = d_out s0 @ [SendTo (t_fd (tun s0 i)) w (ai_addr a)]" "length w \<le> DEFAULT_MTU"
    "rtun_encap (penv E s0) t0 (d_data_seq s0) (p\<lparr>pkt_reorder := 1\<rparr>) = Ok (Some w, t', q')" "pkt_wf (p\<lparr>pkt_reorder := 1\<rparr>)" by blast
  have "sent w s s'" using s'(2) by (auto simp: sent_def s0_def)
  moreover have "pkt_type p = (case cb_list ?b of [] \<Rightarrow> MLVPN_PKT_DISCONNECT | p # ps \<Rightarrow> pkt_type p)" using l p by (cases "cb_list ?b") auto
  moreover have "d_key s0 = d_key s" "d_options s0 = d_options s" by (simp_all add: s0_def upd_def)
  ultimately show ?thesis using encap_signals [OF s'(4,5,3)] send s'(1) by (intro exI [of _ s'] exI [of _ w]) simp
qed

text \<open>What \<^verbatim>\<open>mlvpn_quit\<close> does for one tunnel.\<close>

definition quit_tunnel :: "env \<Rightarrow> daemon \<Rightarrow> nat \<Rightarrow> daemon outcome" where
  "quit_tunnel E s i = (let s1 = upd i (\<lambda>t. t\<lparr>t_io_timeout := False, t_io_read := False\<rparr>) s in
     if MLVPN_AUTHOK \<le> t_status (tun s1 i) then mlvpn_rtun_send_disconnect E i s1 else Ok s1)"

lemma quit_fold: "mlvpn_quit E s = ofold (quit_tunnel E) s (d_rtuns s)"
  unfolding mlvpn_quit_def quit_tunnel_def [abs_def] by (rule refl)

lemma quit_one:
  assumes inv: "dinv s" and i: "i \<in> set (d_rtuns s)" and q: "silent (tun s i)" and S: "sodium_ok (en_sodium E)"
    and net: "\<And>fd w a. 0 \<le> en_sendto E fd w a"
  shows "\<exists>s' ws. quit_tunnel E s i = Ok s' \<and> runs False i s (Ok s') \<and> datagrams (d_out s') = datagrams (d_out s) @ ws \<and>
     length ws = (if authenticated (tun s i) then 1 else 0) \<and>
     (\<forall>w \<in> set ws. signals (en_sodium E) (d_key s) (opt_cleartext_data (d_options s)) MLVPN_PKT_DISCONNECT w)"
proof -
  define s1 where "s1 = upd i (\<lambda>t. t\<lparr>t_io_timeout := False, t_io_read := False\<rparr>) s"
  have r: "runs False i s (quit_tunnel E s i)" unfolding quit_tunnel_def by (rule quit_step [OF inv i])
  have f: "t_status (tun s1 i) = t_status (tun s i)" "t_hpsbuf (tun s1 i) = t_hpsbuf (tun s i)" "t_addrinfo (tun s1 i) = t_addrinfo (tun s i)"
    "d_out s1 = d_out s" "d_key s1 = d_key s" "d_options s1 = d_options s" "d_rtuns s1 = d_rtuns s" by (simp_all add: s1_def upd_def)
  show ?thesis
  proof (cases "authenticated (tun s i)")
    case False
    then have "quit_tunnel E s i = Ok s1" using f(1) by (simp add: quit_tunnel_def s1_def [symmetric] authenticated_def)
    then show ?thesis using r False f(4) by (intro exI [of _ s1] exI [of _ "[]"]) simp
  next
    case True
    then have eq: "quit_tunnel E s i = mlvpn_rtun_send_disconnect E i s1" using f(1) by (simp add: quit_tunnel_def s1_def [symmetric] authenticated_def)
    have ai: "t_addrinfo (tun s i) \<noteq> []" using authenticated_addr [OF inv i] True by (simp add: authenticated_def)
    have wf: "cb_wf (t_hpsbuf (tun s i))" using tunE [OF inv i] by (simp add: tun_ok_def buf_ok_def)
    have l: "cb_list (t_hpsbuf (tun s i)) = []" using q cb_empty_iff [OF wf] by (simp add: silent_def)
    then have full: "\<not> mlvpn_cb_is_full (t_hpsbuf (tun s i))" using wf by (simp add: cb_full_iff cb_wf_def)
    have d1: "runs False i s (Ok s1)" unfolding s1_def
      by (rule runs_upd [where f = "\<lambda>t. t\<lparr>t_io_timeout := False, t_io_read := False\<rparr>", OF inv _ _ runs_Ok])
        (use tunE [OF inv i] ai in \<open>auto simp: tun_ok_def authenticated_def\<close>)
    obtain s' w where s': "mlvpn_rtun_send_disconnect E i s1 = Ok s'" "sent w s1 s'"
      "signals (en_sodium E) (d_key s1) (opt_cleartext_data (d_options s1)) MLVPN_PKT_DISCONNECT w"
      using disconnect_sends [OF runs_Ok_dinv(1) [OF d1] _ _ S net, of i] i ai full l f by auto
    then show ?thesis using r True f(4-6) unfolding eq by (intro exI [of _ s'] exI [of _ "[w]"]) (auto simp: sent_def)
  qed
qed

text \<open>The tunnels that are authenticated, in the order of the list.\<close>

definition peers :: "daemon \<Rightarrow> nat list \<Rightarrow> nat list" where
  "peers s is = filter (\<lambda>i. authenticated (tun s i)) is"

lemma quit_all:
  assumes "dinv s" and "set is \<subseteq> set (d_rtuns s)" and "distinct is" and "\<forall>i \<in> set is. silent (tun s i)" and "sodium_ok (en_sodium E)"
    and "\<And>fd w a. 0 \<le> en_sendto E fd w a"
  shows "\<exists>s' ws. ofold (quit_tunnel E) s is = Ok s' \<and> datagrams (d_out s') = datagrams (d_out s) @ ws \<and> length ws = length (peers s is) \<and>
     (\<forall>w \<in> set ws. signals (en_sodium E) (d_key s) (opt_cleartext_data (d_options s)) MLVPN_PKT_DISCONNECT w)"
  using assms
proof (induction "is" arbitrary: s)
  case Nil
  then show ?case by (simp add: peers_def)
next
  case (Cons i "is")
  have i: "i \<in> set (d_rtuns s)" "silent (tun s i)" using Cons.prems(2,4) by simp_all
  obtain s1 ws where s1: "quit_tunnel E s i = Ok s1" "runs False i s (Ok s1)" "datagrams (d_out s1) = datagrams (d_out s) @ ws"
    "length ws = (if authenticated (tun s i) then 1 else 0)"
    "\<forall>w \<in> set ws. signals (en_sodium E) (d_key s) (opt_cleartext_data (d_options s)) MLVPN_PKT_DISCONNECT w"
    using quit_one [OF Cons.prems(1) i Cons.prems(5,6)] by (elim exE conjE) (rule that)
  have oth: "tun s1 j = tun s j" if "j \<in> set is" for j using s1(2) that Cons.prems(3) by (auto simp: runs_def)
  have net: "d_rtuns s1 = d_rtuns s" "d_key s1 = d_key s" "d_options s1 = d_options s" using s1(2) by (simp_all add: runs_def same_net_def)
  have p: "peers s1 is = peers s is" unfolding peers_def by (rule filter_cong) (simp_all add: oth)
  have "set is \<subseteq> set (d_rtuns s1)" "distinct is" "\<forall>i \<in> set is. silent (tun s1 i)" using Cons.prems(2-4) net(1) oth by auto
  from Cons.IH [OF runs_Ok_dinv(1) [OF s1(2)] this Cons.prems(5,6)] obtain s' ws' where s': "ofold (quit_tunnel E) s1 is = Ok s'"
    "datagrams (d_out s') = datagrams (d_out s1) @ ws'" "length ws' = length (peers s is)"
    "\<forall>w \<in> set ws'. signals (en_sodium E) (d_key s) (opt_cleartext_data (d_options s)) MLVPN_PKT_DISCONNECT w"
    unfolding net p by (elim exE conjE) (rule that)
  show ?case using s1(1,3-5) s' by (intro exI [of _ s'] exI [of _ "ws @ ws'"]) (auto simp: peers_def)
qed

text \<open>
  C8: A daemon that quits says goodbye. When the signal comes while no packet waits in the tunnels, exactly one datagram is sent for each authenticated tunnel. Each of these datagrams,
  read by a daemon with the same key on any of its authenticated tunnels, takes that tunnel down and out of its scheduler, and leaves its other tunnels alone, so no packet of its device
  goes to the daemon that is gone.
\<close>

theorem quit_says_goodbye:
  assumes c: "dinv c" "\<forall>i \<in> set (d_rtuns c). silent (tun c i)" and s: "dinv s" "takes_data s j from"
    and keys: "d_key s = d_key c" "opt_cleartext_data (d_options s) = opt_cleartext_data (d_options c)"
    and env: "sodium_ok S" "en_sodium E = S" "en_sodium F = S" "\<And>fd w a. 0 \<le> en_sendto E fd w a"
  shows "\<exists>c' ws. mlvpn_quit E c = Ok c' \<and> datagrams (d_out c') = datagrams (d_out c) @ ws \<and>
     length ws = length (filter (\<lambda>i. authenticated (tun c i)) (d_rtuns c)) \<and>
     (\<forall>w \<in> set ws. \<exists>s'. handle F (RtunRead j (RecvData w from)) s = Ok s' \<and> \<not> authenticated (tun s' j) \<and>
        j \<notin> set (wrr_tunnel (d_wrr s')) \<and> (\<forall>k. k \<noteq> j \<longrightarrow> tun s' k = tun s k))"
proof -
  have d: "distinct (d_rtuns c)" using c(1) by (simp add: dinv_def base_ok_def)
  have S: "sodium_ok (en_sodium E)" "sodium_ok (en_sodium F)" using env(1-3) by simp_all
  obtain c' ws where c': "mlvpn_quit E c = Ok c'" "datagrams (d_out c') = datagrams (d_out c) @ ws" "length ws = length (peers c (d_rtuns c))"
    "\<forall>w \<in> set ws. signals (en_sodium E) (d_key c) (opt_cleartext_data (d_options c)) MLVPN_PKT_DISCONNECT w"
    using quit_all [OF c(1) subset_refl d c(2) S(1) env(4), folded quit_fold] by (elim exE conjE) (rule that)
  have "\<exists>s'. handle F (RtunRead j (RecvData w from)) s = Ok s' \<and> \<not> authenticated (tun s' j) \<and> j \<notin> set (wrr_tunnel (d_wrr s')) \<and>
      (\<forall>k. k \<noteq> j \<longrightarrow> tun s' k = tun s k)" if "w \<in> set ws" for w
  proof -
    have "signals (en_sodium F) (d_key s) (opt_cleartext_data (d_options s)) MLVPN_PKT_DISCONNECT w" using c'(4) that keys env(2,3) by simp
    from disconnect_arrives [OF s S(2) this] show ?thesis by blast
  qed
  then show ?thesis using c'(1-3) unfolding peers_def by blast
qed

theorem quit_says_goodbye_witness:
  "\<exists>r c' w1 w2 s'. dinv (ex_pair r) \<and> mlvpn_quit ex_os (ex_pair r) = Ok c' \<and> datagrams (d_out c') = [w1, w2] \<and>
     handle ex_os (RtunRead 1 (RecvData w1 [3, 4])) (ex_pair r) = Ok s' \<and> \<not> authenticated (tun s' 1) \<and> authenticated (tun s' 0)"
proof -
  obtain r where r: "dinv (ex_pair r)" using ex_pair_ok by blast
  let ?c = "ex_pair r"
  have c: "\<forall>i \<in> set (d_rtuns ?c). silent (tun ?c i)" "takes_data ?c 1 [3, 4]" "datagrams (d_out ?c) = []"
    "length (filter (\<lambda>i. authenticated (tun ?c i)) (d_rtuns ?c)) = 2" "authenticated (tun ?c 0)" by (simp_all add: ex_pair_fields)
  have e: "en_sodium ex_os = tag_box" "\<And>fd w a. 0 \<le> en_sendto ex_os fd w a" by simp_all
  obtain c' ws where c': "mlvpn_quit ex_os ?c = Ok c'" "datagrams (d_out c') = ws" "length ws = 2"
    and down: "\<forall>w \<in> set ws. \<exists>s'. handle ex_os (RtunRead 1 (RecvData w [3, 4])) ?c = Ok s' \<and> \<not> authenticated (tun s' 1) \<and>
        1 \<notin> set (wrr_tunnel (d_wrr s')) \<and> (\<forall>k. k \<noteq> 1 \<longrightarrow> tun s' k = tun ?c k)"
    using quit_says_goodbye [OF r c(1) r c(2) refl refl tag_box_ok e(1,1,2)] unfolding c(3,4) append_Nil by (elim exE conjE) (rule that)
  obtain w1 w2 where ws: "ws = [w1, w2]" using c'(3) by (auto simp: numeral_2_eq_2 length_Suc_conv)
  obtain s' where s': "handle ex_os (RtunRead 1 (RecvData w1 [3, 4])) ?c = Ok s'" "\<not> authenticated (tun s' 1)" "tun s' 0 = tun ?c 0"
    using down ws by auto
  then have "authenticated (tun s' 0)" using c(5) by simp
  then show ?thesis using r c'(1,2) s'(1,2) unfolding ws by blast
qed

section \<open>What goes wrong\<close>

text \<open>
  When a control packet is waiting, that packet is sent instead of the disconnect packet, which stays in the queue of a process that ends: the peer is not told.
\<close>

lemma quit_sends_other_packet:
  assumes "dinv s" and "i \<in> set (d_rtuns s)" and "t_addrinfo (tun s i) \<noteq> []" and "sodium_ok (en_sodium E)"
    and "\<And>fd w a. 0 \<le> en_sendto E fd w a" and "\<not> mlvpn_cb_is_full (t_hpsbuf (tun s i))"
    and "cb_list (t_hpsbuf (tun s i)) = [p]" and "unat (pkt_len p) \<le> 1456"
  shows "\<exists>s' w. mlvpn_rtun_send_disconnect E i s = Ok s' \<and> sent w s s' \<and>
     signals (en_sodium E) (d_key s) (opt_cleartext_data (d_options s)) (pkt_type p) w"
  using disconnect_sends [OF assms(1-6)] assms(7,8) by simp

end
