(* ===== verification/Spec2Isabelle.thy ===== *)
theory Spec2Isabelle
  imports Startup Control Supervision
begin

text \<open>
  \<^bold>\<open>MLVPN\<close>, a daemon that joins several Internet links to one virtual private network. This development models the C sources under
  \<^verbatim>\<open>src/src/\<close> as executable functions and proves what makes them correct.

  \<^bold>\<open>The program.\<close> A privileged parent and an unprivileged child share a socket; the parent opens files and the tunnel device, resolves names and runs the network
  script on behalf of the child (\<^verbatim>\<open>privsep.c\<close>, \<^verbatim>\<open>privsep_fdpass.c\<close>). The child reads the configuration (\<^verbatim>\<open>configlib.c\<close>, \<^verbatim>\<open>config.c\<close>)
  and then handles the events of a libev loop (\<^verbatim>\<open>mlvpn.c\<close>). A packet read from the tunnel device goes to a tunnel that a filter (\<^verbatim>\<open>filters.c\<close>) or the weighted scheduler
  (\<^verbatim>\<open>wrr.c\<close>) chooses, waits in a circular buffer (\<^verbatim>\<open>buffer.c\<close>), is numbered, encrypted (\<^verbatim>\<open>crypto.c\<close>) and sent. A datagram from the network is opened, updates the
  round trip time and the loss of its tunnel (\<^verbatim>\<open>timestamp.c\<close>), and its packet goes through the reorder buffer (\<^verbatim>\<open>reorder.c\<close>), whose packets live in a
  pool (\<^verbatim>\<open>buffer.c\<close>), to the tunnel device. Timers open, authenticate, keep alive and close tunnels. A control socket (\<^verbatim>\<open>control.c\<close>) reports the state.

  \<^bold>\<open>The theories\<close>, from the bottom up:
  \<^item> Prelude: machine integers as words, the result type \<open>outcome\<close> (\<open>Ok\<close>, \<open>Fatal\<close> for the exits of the program, \<open>Fault\<close> for what C leaves undefined), checked
    memory, byte order. Cstring: \<^verbatim>\<open>strlcpy.c\<close>, \<^verbatim>\<open>strlcat.c\<close>, \<^verbatim>\<open>tool.c\<close>.
  \<^item> Timestamp, Packet (\<^verbatim>\<open>pkt.h\<close>), Buffer and Freebuffer (\<^verbatim>\<open>buffer.c\<close>), Reorder (\<^verbatim>\<open>reorder.c\<close>): one theory per data structure, each with
    its invariant and the abstract object it implements: a lossy queue, a pool, a window of packets.
  \<^item> Tunnel (\<^verbatim>\<open>mlvpn.h\<close>), Loss, Wrr (\<^verbatim>\<open>wrr.c\<close>), Crypto, Protocol: the records of a tunnel and of the options, the loss estimate, the scheduler, the wire format.
  \<^item> Daemon, Delivery, Rtun: the state \<open>daemon\<close> (the globals) and every handler of \<^verbatim>\<open>mlvpn.c\<close> as a function on it, with \<^verbatim>\<open>tuntap_generic.c\<close>, \<^verbatim>\<open>tuntap_linux.c\<close> and
    \<^verbatim>\<open>filters.c\<close>. What the program does to the outside is the list \<open>d_out\<close>; what the system answers to one event is a record \<open>env\<close>.
  \<^item> Events: the event datatype, \<open>handle\<close> (the dispatch of libev), \<open>enabled\<close> (which watchers are active) and the relation \<open>reachable\<close> with its
    invariant \<open>dinv\<close>. Handshake: two daemons that exchange datagrams. Transit: a stream of packets from the device of one daemon to the device of the other, with
    \<open>forward\<close> and \<open>arrive\<close> for the events on the way and \<open>holding\<close> for what the receiver has in hand. Supervision: the keepalives of one end and the timer of the
    other, and how a daemon that quits tells its peers.
  \<^item> Configlib, Config, Program: the parser from characters, the application of the settings, and \<open>operating\<close>, the runs of the configured daemon with events and reloads, with its
    invariant \<open>cinv\<close>.
  \<^item> Privsep: both ends of the socket; the input of the parent is an arbitrary sequence of read results. Signals: dispositions, mask and handlers of the parent,
    with \<open>parent_step\<close> for requests, signals and ends of processes in any order; a signal is handled between two requests.
  \<^item> Control: the client of the control socket, its buffers and replies. Log: \<^verbatim>\<open>log.c\<close>. Title: \<^verbatim>\<open>vis.c\<close> and \<^verbatim>\<open>setproctitle.c\<close> over the memory of the arguments.
    Platforms: \<^verbatim>\<open>tuntap_bsd.c\<close>, \<^verbatim>\<open>tuntap_darwin.c\<close>, \<^verbatim>\<open>systemd.c\<close>, \<^verbatim>\<open>closefrom.c\<close>. Startup: \<^verbatim>\<open>main\<close> from the command line to the event loop, and the signals of the loop.

  \<^bold>\<open>Interfaces.\<close> The locale \<open>lossy_queue\<close> states what a bounded queue promises and is interpreted by the packet buffers, \<open>packet_pool\<close> by the pool of reordering, \<open>out_stream\<close> by the write
  side of the control socket; the receive path, the queues of the tunnels and the replies use the facts of these interpretations.

  \<^bold>\<open>What is shown.\<close>
  \<^item> Safety of the whole: a daemon that was started on any configuration file that fits its tables, after any events and reloads, handles the next event without a fault or a fatal error
    (Program, Events); reading any file is safe (Configlib); no input makes the privileged parent leave its buffers (Privsep); every event of the control socket returns
    (Control); a title only touches the strings of the process (Title).
  \<^item> Security: data only leaves through authenticated tunnels; only a datagram that opens under the shared key authenticates a tunnel, and no nonce is used twice; the parent
    runs only the script it checked, with no descriptor of the daemon; root always ends as another user.
  \<^item> Function: the protocol and the requests of the child round trip; two daemons with one key authenticate each other; what the device of one hands over comes out of the device of the other, once and
    in order, however the network and the tunnels mix the datagrams (Transit); the parent passes signals on to the child and ends with it (Signals); a keepalive that arrives keeps
    a link up until its timeout, without one the timer takes it down, and a daemon that quits is taken out of the scheduler of its peers (Supervision); the scheduler starves no tunnel; the status reply arrives whole; the settings written to a file are the settings read.
  \<^item> Deviations: lemmas and theorems of kind \<open>error\<close> state where the code does something else than it means to, such as a reorder buffer whose size is not a power of two.

  \<^bold>\<open>Bounds.\<close> Functions are total, by structure or by a measure; loops with a counter in C take the number of rounds left, and the service loop of the parent ends with its input. The one loop
  that could run forever, over the lines in the read buffer of the control socket, is a partial function with \<open>None\<close> for not returning, and is shown to return. The theorems on the whole daemon
  ask for at most 128 tunnels, the size of the scheduler's tables, for names shorter than 30 characters, the size of the title's buffer, and for a reorder buffer that is a power of two: beyond them the code
  does fault or loses packets, as the deviations show.

  \<^bold>\<open>Parameters.\<close> libsodium is the record \<open>sodium\<close>, with the documented promises as \<open>sodium_ok\<close>; libev, libpcap, libc's rendering of formats and the system calls answer through
  records and arguments. Times and weights are rationals, so the rounding of \<^verbatim>\<open>double\<close> is not modelled. The machine is a little endian one with 64 bits.

  \<^bold>\<open>Not modelled\<close>: the redirection of standard descriptors, which has no result the program looks at; signals in the middle of a request; the release of memory, also of the parsed configuration; failures of \<^verbatim>\<open>malloc\<close> where the code does not test for
  them, except in the privileged parent; the \<^verbatim>\<open>ioctl\<close> calls behind the device; the text of debug messages; the code of the build for other libcs that is
  selected by \<^verbatim>\<open>F_CLOSEM\<close>.
\<close>

end
